(* ===== verification/Prelude.thy ===== *)
theory Prelude
  imports Main "HOL-Library.Word"
begin

text \<open>
  Shared vocabulary of the development: the machine types of the i686 target, the status codes
  of \<^verbatim>\<open>kernel/include/emos/status.h\<close>, the integer macros of
  \<^verbatim>\<open>kernel/include/emos/macros.h\<close>, the outcome type that makes undefined memory
  accesses, \<^verbatim>\<open>panic()\<close> and endless loops visible in the type of an operation, and the
  counted loops that the sources use, with their total-correctness rules.
\<close>

unbundle bit_operations_syntax

section \<open>Machine types and status codes\<close>

type_synonym u8 = "8 word"
type_synonym u16 = "16 word"
type_synonym u32 = "32 word"
type_synonym u64 = "64 word"

text \<open>\<^verbatim>\<open>status_t\<close> is an unsigned int; bit 31 tells failure from success.\<close>

type_synonym status = "32 word"

abbreviation (input) STATUS_SUCCESS :: status where "STATUS_SUCCESS \<equiv> 0x00000000"
abbreviation (input) STATUS_MUTEX_LOCKED :: status where "STATUS_MUTEX_LOCKED \<equiv> 0x00000003"
abbreviation (input) STATUS_UNKNOWN_ERROR :: status where "STATUS_UNKNOWN_ERROR \<equiv> 0x80000000"
abbreviation (input) STATUS_INVALID_RESOURCE :: status where "STATUS_INVALID_RESOURCE \<equiv> 0x80000001"
abbreviation (input) STATUS_INVALID_SIGNATURE :: status where "STATUS_INVALID_SIGNATURE \<equiv> 0x80000003"
abbreviation (input) STATUS_INVALID_VALUE :: status where "STATUS_INVALID_VALUE \<equiv> 0x80000004"
abbreviation (input) STATUS_UNSUPPORTED :: status where "STATUS_UNSUPPORTED \<equiv> 0x80000005"
abbreviation (input) STATUS_ENTRY_NOT_FOUND :: status where "STATUS_ENTRY_NOT_FOUND \<equiv> 0x80000006"
abbreviation (input) STATUS_UNIMPLEMENTED :: status where "STATUS_UNIMPLEMENTED \<equiv> 0x80000007"
abbreviation (input) STATUS_CONFLICTING_STATE :: status where "STATUS_CONFLICTING_STATE \<equiv> 0x8000000C"
abbreviation (input) STATUS_END_OF_LIST :: status where "STATUS_END_OF_LIST \<equiv> 0x8000000D"
abbreviation (input) STATUS_WRONG_ELEMENT_TYPE :: status where "STATUS_WRONG_ELEMENT_TYPE \<equiv> 0x8000000E"
abbreviation (input) STATUS_DUPLICATE_ENTRY :: status where "STATUS_DUPLICATE_ENTRY \<equiv> 0x8000000F"
abbreviation (input) STATUS_SYNTAX_ERROR :: status where "STATUS_SYNTAX_ERROR \<equiv> 0x80000010"
abbreviation (input) STATUS_END_OF_FILE :: status where "STATUS_END_OF_FILE \<equiv> 0x80000011"
abbreviation (input) STATUS_SIZE_CHECK_FAILURE :: status where "STATUS_SIZE_CHECK_FAILURE \<equiv> 0x80000013"
abbreviation (input) STATUS_BUFFER_TOO_SMALL :: status where "STATUS_BUFFER_TOO_SMALL \<equiv> 0x80000016"
abbreviation (input) STATUS_PAGE_NOT_PRESENT :: status where "STATUS_PAGE_NOT_PRESENT \<equiv> 0x80000017"
abbreviation (input) STATUS_INSUFFICIENT_MEMORY :: status where "STATUS_INSUFFICIENT_MEMORY \<equiv> 0x80000018"
abbreviation (input) STATUS_THREAD_NOT_FINISHED :: status where "STATUS_THREAD_NOT_FINISHED \<equiv> 0x8000001A"
abbreviation (input) STATUS_INVALID_THREAD :: status where "STATUS_INVALID_THREAD \<equiv> 0x8000001B"
abbreviation (input) STATUS_FS_INCONSISTENT :: status where "STATUS_FS_INCONSISTENT \<equiv> 0xC0000000"

definition CHECK_SUCCESS :: "status \<Rightarrow> bool" where
  "CHECK_SUCCESS st \<longleftrightarrow> st AND 0x80000000 = 0"

definition ALIGN_DIV :: "u32 \<Rightarrow> u32 \<Rightarrow> u32" where
  "ALIGN_DIV v a = (v + a - 1) div a"

abbreviation (input) PAGE_SIZE :: u32 where "PAGE_SIZE \<equiv> 4096"

text \<open>Division of C rounds towards zero; conversions to the 32-bit integer types wrap.\<close>

definition cdiv :: "int \<Rightarrow> int \<Rightarrow> int" where
  "cdiv a n = (if 0 \<le> a then a div n else - ((- a) div n))"

definition cmod :: "int \<Rightarrow> int \<Rightarrow> int" where
  "cmod a n = a - n * cdiv a n"

definition to_unsigned :: "int \<Rightarrow> int" where
  "to_unsigned x = x mod 2 ^ 32"

definition to_int :: "int \<Rightarrow> int" where
  "to_int x = (x + 2 ^ 31) mod 2 ^ 32 - 2 ^ 31"

definition fits_int :: "int \<Rightarrow> bool" where
  "fits_int x \<longleftrightarrow> - (2 ^ 31) \<le> x \<and> x < 2 ^ 31"

section \<open>Outcomes\<close>

text \<open>
  An operation of the sources returns (\<open>Ok\<close>), reads or writes memory outside the object it
  works on (\<open>Fault\<close>), calls \<^verbatim>\<open>panic(status, ...)\<close> (\<open>Panic\<close>), or enters a loop
  that never ends (\<open>Hang\<close>).
\<close>

datatype 'a outcome = is_Ok: Ok (the_Ok: 'a) | Fault | Panic status | Hang

definition obind :: "'a outcome \<Rightarrow> ('a \<Rightarrow> 'b outcome) \<Rightarrow> 'b outcome" where
  "obind m f = (case m of Ok a \<Rightarrow> f a | Fault \<Rightarrow> Fault | Panic s \<Rightarrow> Panic s | Hang \<Rightarrow> Hang)"

text \<open>\<open>for (i = a; i < b; i++) body\<close> over the indices still to come, and the two counted loops.\<close>

fun ofold :: "('i \<Rightarrow> 's \<Rightarrow> 's outcome) \<Rightarrow> 'i list \<Rightarrow> 's \<Rightarrow> 's outcome" where
  "ofold f [] s = Ok s"
| "ofold f (i # is) s = obind (f i s) (ofold f is)"

definition for_lt :: "(u32 \<Rightarrow> 's \<Rightarrow> 's outcome) \<Rightarrow> u32 \<Rightarrow> u32 \<Rightarrow> 's \<Rightarrow> 's outcome" where
  "for_lt f a b s = ofold f (map of_nat [unat a ..< unat b]) s"

text \<open>
  \<open>for (i = a; i <= b; i++)\<close> on a 32-bit unsigned \<open>i\<close> never ends when \<open>b\<close> is the largest
  value, for then the guard cannot fail.
\<close>

definition for_le :: "(u32 \<Rightarrow> 's \<Rightarrow> 's outcome) \<Rightarrow> u32 \<Rightarrow> u32 \<Rightarrow> 's \<Rightarrow> 's outcome" where
  "for_le f a b s =
     obind (ofold f (map of_nat [unat a ..< Suc (unat b)]) s)
       (\<lambda>s'. if b = -1 then Hang else Ok s')"

text \<open>A \<^verbatim>\<open>for\<close> loop whose body returns from the function on a failing status.\<close>

fun status_loop :: "('i \<Rightarrow> 's \<Rightarrow> (status \<times> 's) outcome) \<Rightarrow> 'i list \<Rightarrow> 's \<Rightarrow> (status \<times> 's) outcome" where
  "status_loop f [] s = Ok (STATUS_SUCCESS, s)"
| "status_loop f (i # is) s =
     obind (f i s) (\<lambda>(st, s'). if \<not> CHECK_SUCCESS st then Ok (st, s') else status_loop f is s')"

text \<open>A postcondition of every completed run, for reasoning backwards through an operation.\<close>

definition opost :: "('a \<Rightarrow> bool) \<Rightarrow> 'a outcome \<Rightarrow> bool" where
  "opost P m \<longleftrightarrow> (\<forall>r. m = Ok r \<longrightarrow> P r)"

definition indices :: "u32 \<Rightarrow> u32 list" where
  "indices n = map of_nat [0 ..< unat n]"

section \<open>Lemmas on outcomes\<close>

named_theorems outcome_simps

lemma obind_simps [simp, outcome_simps]:
  "obind (Ok a) f = f a"
  "obind Fault f = Fault"
  "obind (Panic s) f = Panic s"
  "obind Hang f = Hang"
  by (simp_all add: obind_def)

lemma obind_Ok_iff [outcome_simps]:
  "obind m f = Ok r \<longleftrightarrow> (\<exists>a. m = Ok a \<and> f a = Ok r)"
  by (cases m) auto

text \<open>For evaluated examples: a check on the value of an operation that returns.\<close>

lemma outcome_case_Ok: "(case m of Ok x \<Rightarrow> P x | _ \<Rightarrow> False) \<Longrightarrow> \<exists>x. m = Ok x \<and> P x"
  by (cases m) auto

lemma obind_assoc: "obind (obind m f) g = obind m (\<lambda>a. obind (f a) g)"
  by (cases m) auto

lemma obind_cong [fundef_cong]:
  "m = m' \<Longrightarrow> (\<And>a. m' = Ok a \<Longrightarrow> f a = g a) \<Longrightarrow> obind m f = obind m' g"
  by (cases m') auto

lemma ofold_append: "ofold f (xs @ ys) s = obind (ofold f xs s) (ofold f ys)"
proof (induction xs arbitrary: s)
  case (Cons x xs)
  then show ?case by (cases "f x s") auto
qed simp

text \<open>The total-correctness rule of a counted loop, with an invariant on the number of steps done.\<close>

lemma ofold_total:
  assumes "I 0 s"
    and "\<And>k s. k < length xs \<Longrightarrow> I k s \<Longrightarrow> \<exists>s'. f (xs ! k) s = Ok s' \<and> I (Suc k) s'"
  shows "\<exists>s'. ofold f xs s = Ok s' \<and> I (length xs) s'"
  using assms
proof (induction xs arbitrary: s I)
  case Nil
  then show ?case by simp
next
  case (Cons x xs)
  from Cons.prems(2) [of 0 s] Cons.prems(1) obtain s1
    where s1: "f x s = Ok s1" "I (Suc 0) s1" by auto
  have "\<exists>s'. ofold f xs s1 = Ok s' \<and> (\<lambda>k. I (Suc k)) (length xs) s'"
  proof (rule Cons.IH)
    show "I (Suc 0) s1" by (rule s1(2))
  next
    fix k s
    assume "k < length xs" "I (Suc k) s"
    then show "\<exists>s'. f (xs ! k) s = Ok s' \<and> I (Suc (Suc k)) s'"
      using Cons.prems(2) [of "Suc k" s] by simp
  qed
  then show ?case by (simp add: s1(1))
qed

lemma opost_simps [simp]: "opost P (Ok a) = P a" "opost P Fault" "opost P (Panic s)" "opost P Hang"
  by (simp_all add: opost_def)

lemma opost_bind [simp]: "opost P (obind m f) = opost (\<lambda>a. opost P (f a)) m"
  by (cases m) auto

lemma opostD: "opost P m \<Longrightarrow> m = Ok r \<Longrightarrow> P r"
  by (simp add: opost_def)

lemma opost_any: "(\<And>a. P a) \<Longrightarrow> opost P m"
  by (simp add: opost_def)

lemma opost_weaken: "opost P m \<Longrightarrow> (\<And>a. P a \<Longrightarrow> Q a) \<Longrightarrow> opost Q m"
  by (simp add: opost_def)

lemma opost_if [simp]: "opost P (if c then m else n) = (if c then opost P m else opost P n)"
  by simp

lemma opost_case_prod [simp]: "opost P (case r of (x, y) \<Rightarrow> f x y) = (case r of (x, y) \<Rightarrow> opost P (f x y))"
  by (simp split: prod.split)

text \<open>The partial-correctness rule: what every completed step keeps, the completed loop keeps.\<close>

lemma ofold_partial:
  assumes "ofold f xs s = Ok s'" and "P s"
    and "\<And>x s s'. x \<in> set xs \<Longrightarrow> P s \<Longrightarrow> f x s = Ok s' \<Longrightarrow> P s'"
  shows "P s'"
  using assms
proof (induction xs arbitrary: s)
  case Nil
  then show ?case by simp
next
  case (Cons x xs)
  from Cons.prems(1) obtain s1 where "f x s = Ok s1" and "ofold f xs s1 = Ok s'"
    by (auto simp: outcome_simps)
  with Cons.prems(2,3) Cons.IH [of s1] show ?case by auto
qed

text \<open>A completed loop has completed the step at each of its indices, in a state its steps keep.\<close>

lemma ofold_Ok_step:
  assumes "ofold f xs s = Ok s'" and "x \<in> set xs" and "P s"
    and "\<And>x s s'. x \<in> set xs \<Longrightarrow> P s \<Longrightarrow> f x s = Ok s' \<Longrightarrow> P s'"
  shows "\<exists>s1 s2. P s1 \<and> f x s1 = Ok s2"
  using assms
proof (induction xs arbitrary: s)
  case Nil
  then show ?case by simp
next
  case (Cons y ys)
  from Cons.prems(1) obtain s1 where s1: "f y s = Ok s1" "ofold f ys s1 = Ok s'"
    by (auto simp: outcome_simps)
  show ?case
  proof (cases "x = y")
    case True
    then show ?thesis using s1(1) Cons.prems(3) by blast
  next
    case False
    have "P s1" using Cons.prems(3,4) s1(1) by auto
    moreover have "x \<in> set ys" using Cons.prems(2) False by simp
    ultimately show ?thesis using Cons.IH [OF s1(2)] Cons.prems(4) by (meson list.set_intros(2))
  qed
qed

text \<open>The total-correctness rule of a loop that returns at the first failing status.\<close>

lemma status_loop_total:
  assumes "I 0 s"
    and "\<And>k s. k < length xs \<Longrightarrow> I k s \<Longrightarrow>
      \<exists>st s'. f (xs ! k) s = Ok (st, s') \<and> (if CHECK_SUCCESS st then I (Suc k) s' else E k st s')"
  shows "\<exists>st s'. status_loop f xs s = Ok (st, s') \<and>
    (st = STATUS_SUCCESS \<and> I (length xs) s' \<or> (\<exists>k < length xs. \<not> CHECK_SUCCESS st \<and> E k st s'))"
  using assms
proof (induction xs arbitrary: s I E)
  case Nil
  then show ?case by simp
next
  case (Cons x xs)
  from Cons.prems(2) [of 0 s] Cons.prems(1) obtain st1 s1
    where s1: "f x s = Ok (st1, s1)" "if CHECK_SUCCESS st1 then I (Suc 0) s1 else E 0 st1 s1" by auto
  show ?case
  proof (cases "CHECK_SUCCESS st1")
    case False
    then show ?thesis using s1 by (auto intro!: exI [of _ 0])
  next
    case True
    have "\<exists>st s'. status_loop f xs s1 = Ok (st, s') \<and> (st = STATUS_SUCCESS \<and> (\<lambda>k. I (Suc k)) (length xs) s' \<or>
       (\<exists>k < length xs. \<not> CHECK_SUCCESS st \<and> (\<lambda>k. E (Suc k)) k st s'))"
    proof (rule Cons.IH)
      show "I (Suc 0) s1" using s1(2) True by simp
    next
      fix k s
      assume "k < length xs" "I (Suc k) s"
      then show "\<exists>st s'. f (xs ! k) s = Ok (st, s') \<and> (if CHECK_SUCCESS st then I (Suc (Suc k)) s' else E (Suc k) st s')"
        using Cons.prems(2) [of "Suc k" s] by simp
    qed
    then show ?thesis using s1(1) True by auto
  qed
qed

lemma indices_simps [simp]: "length (indices n) = unat n" "k < unat n \<Longrightarrow> indices n ! k = of_nat k"
  by (simp_all add: indices_def)

section \<open>Lemmas on words and lists\<close>

lemma unat_of_nat_u32 [simp]: "n < 2 ^ 32 \<Longrightarrow> unat (of_nat n :: u32) = n"
  by (simp add: unat_of_nat take_bit_nat_eq_self)

lemma unat_u32_less: "unat (w :: u32) < 4294967296"
  using unsigned_less [of w, where ?'a = nat] by simp

lemma unat_minus_one_u32: "unat (- 1 :: u32) = 4294967295"
  by (simp add: unsigned_minus_1_eq_mask mask_eq_exp_minus_1)

lemma word_less_exp_take_bit: "w < 2 ^ n \<Longrightarrow> n < LENGTH('a) \<Longrightarrow> take_bit n w = w"
  for w :: "'a::len word"
  by (metis less_mask_eq take_bit_eq_mask)

lemma unat_drop_bit_2: "unat (drop_bit 2 w) = unat w div 4" for w :: u32
  by (simp add: drop_bit_eq_div unat_div)

lemma unat_and_3_times_2: "unat ((w AND 3) * 2) = 2 * (unat w mod 4)" for w :: u32
proof -
  have "w AND 3 = take_bit 2 w"
    by (simp add: take_bit_eq_mask mask_eq_exp_minus_1)
  then have "unat (w AND 3) = unat w mod 4"
    by (simp add: take_bit_eq_mod unat_mod)
  then show ?thesis by (simp add: unat_word_ariths)
qed

text \<open>Storing a two-bit field into a byte changes that field only.\<close>

lemma two_bit_field_update:
  fixes b v :: u8
  assumes jk: "j < 4" "k < 4" and v: "v < 4"
  shows "drop_bit (2 * j) ((b AND NOT (push_bit (2 * k) 3)) OR push_bit (2 * k) v) AND 3
     = (if k = j then v else drop_bit (2 * j) b AND 3)"
proof -
  have m: "(3 :: u8) = mask 2" by (simp add: mask_eq_exp_minus_1)
  have "take_bit 2 v = v" using v word_less_exp_take_bit [of v 2] by simp
  then have hv: "\<And>n. bit v n \<Longrightarrow> n < 2" by (metis bit_take_bit_iff)
  show ?thesis
    unfolding m using jk by (intro bit_word_eqI) (auto simp: bit_simps dest: hv)
qed

lemma CHECK_SUCCESS_SUCCESS [simp]: "CHECK_SUCCESS STATUS_SUCCESS"
  by (simp add: CHECK_SUCCESS_def)

lemma CHECK_failures [simp]: "\<not> CHECK_SUCCESS STATUS_INVALID_VALUE" "\<not> CHECK_SUCCESS STATUS_FS_INCONSISTENT"
  "\<not> CHECK_SUCCESS STATUS_INVALID_SIGNATURE"
  by (simp_all add: CHECK_SUCCESS_def)

text \<open>Conversions that do not wrap, and division of C on natural dividends.\<close>

lemma to_unsigned_id [simp]: "0 \<le> x \<Longrightarrow> x < 2 ^ 32 \<Longrightarrow> to_unsigned x = x"
  by (simp add: to_unsigned_def)

lemma to_int_id [simp]: "- (2 ^ 31) \<le> x \<Longrightarrow> x < 2 ^ 31 \<Longrightarrow> to_int x = x"
  by (simp add: to_int_def)

lemma cdiv_nonneg [simp]: "0 \<le> a \<Longrightarrow> cdiv a n = a div n" "0 \<le> a \<Longrightarrow> cmod a n = a mod n"
  by (simp_all add: cdiv_def cmod_def minus_mult_div_eq_mod)

lemma cmod_cdiv: "n * cdiv a n + cmod a n = a"
  by (simp add: cmod_def)

end
