(* ===== verification/Page.thy ===== *)
theory Page
  imports Prelude
begin

text \<open>
  The i686 paging structures of \<^verbatim>\<open>kernel/arch/i686/include/emos/asm/page.h\<close>: page
  directory and page table entries as the raw 32-bit word with the bit fields the union
  gives names to.  Bit fields are allocated from bit 0 upwards, as the ABI of the target does.
\<close>

section \<open>Bit fields of an entry\<close>

type_synonym page_table_entry = u32
type_synonym page_dir_entry = u32

abbreviation (input) P_BIT :: nat where "P_BIT \<equiv> 0"
abbreviation (input) RW_BIT :: nat where "RW_BIT \<equiv> 1"
abbreviation (input) US_BIT :: nat where "US_BIT \<equiv> 2"
abbreviation (input) PWT_BIT :: nat where "PWT_BIT \<equiv> 3"
abbreviation (input) PCD_BIT :: nat where "PCD_BIT \<equiv> 4"
abbreviation (input) PAT_BIT :: nat where "PAT_BIT \<equiv> 7"

definition entry_p :: "u32 \<Rightarrow> bool" where "entry_p e = bit e P_BIT"
definition entry_r_w :: "u32 \<Rightarrow> bool" where "entry_r_w e = bit e RW_BIT"
definition entry_u_s :: "u32 \<Rightarrow> bool" where "entry_u_s e = bit e US_BIT"
definition entry_pwt :: "u32 \<Rightarrow> bool" where "entry_pwt e = bit e PWT_BIT"
definition entry_pcd :: "u32 \<Rightarrow> bool" where "entry_pcd e = bit e PCD_BIT"
definition entry_pat :: "u32 \<Rightarrow> bool" where "entry_pat e = bit e PAT_BIT"

text \<open>The 20-bit field \<^verbatim>\<open>base\<close> occupies bits 12 to 31.\<close>

definition entry_base :: "u32 \<Rightarrow> u32" where
  "entry_base e = drop_bit 12 e"

definition set_entry_base :: "u32 \<Rightarrow> u32 \<Rightarrow> u32" where
  "set_entry_base b e = (e AND 0x00000FFF) OR push_bit 12 b"

definition set_entry_bit :: "nat \<Rightarrow> u32 \<Rightarrow> u32" where
  "set_entry_bit n e = set_bit n e"

section \<open>Laws\<close>

named_theorems entry_simps

lemmas entry_defs =
  entry_p_def entry_r_w_def entry_u_s_def entry_pwt_def entry_pcd_def entry_pat_def
  entry_base_def set_entry_bit_def

lemma entry_base_push [entry_simps]:
  assumes "b < 2 ^ 20"
  shows "entry_base (push_bit 12 b) = b"
proof -
  have "take_bit 20 b = b"
    using assms by (rule word_less_exp_take_bit) simp
  then show ?thesis
    unfolding entry_base_def by (intro bit_word_eqI) (auto simp: bit_simps bit_eq_iff)
qed

end
