(* ===== verification/Pma.thy ===== *)
theory Pma
  imports Page
begin

text \<open>
  The physical frame allocator of the kernel, \<^verbatim>\<open>kernel/mm/pma.c\<close>: a bitmap with two
  bits per frame (free, allocated, reserved) and the counters of free and available frames.
  The record holds the file's static variables; the memory behind \<^verbatim>\<open>pma_bitmap\<close> is the
  list of its bytes, and an access past the end of the list is a \<open>Fault\<close>.
\<close>

section \<open>State and bitmap access\<close>

record pma =
  pma_bitmap_pfn_list :: "u32 list"
  pma_bitmap_pfn_count :: u32
  pma_bitmap :: "u8 list"
  pma_bitmap_size :: u32
  pma_frame_desc_count :: u32
  pma_available_frames :: u32
  pma_free_frames :: u32
  pma_base_pfn :: u32
  pma_limit_pfn :: u32

abbreviation (input) PBM_FREE :: u8 where "PBM_FREE \<equiv> 0"
abbreviation (input) PBM_ALLOCATED :: u8 where "PBM_ALLOCATED \<equiv> 1"
abbreviation (input) PBM_RESERVED :: u8 where "PBM_RESERVED \<equiv> 2"

definition PBM_GET :: "pma \<Rightarrow> u32 \<Rightarrow> u8 outcome" where
  "PBM_GET p idx =
     (let b = unat (drop_bit 2 idx) in
      if b < length (pma_bitmap p)
      then Ok (drop_bit (unat ((idx AND 3) * 2)) (pma_bitmap p ! b) AND 3)
      else Fault)"

definition PBM_SET :: "u32 \<Rightarrow> u8 \<Rightarrow> pma \<Rightarrow> pma outcome" where
  "PBM_SET idx val p =
     (let b = unat (drop_bit 2 idx); s = unat ((idx AND 3) * 2) in
      if b < length (pma_bitmap p)
      then Ok (p\<lparr>pma_bitmap := (pma_bitmap p)
             [b := (pma_bitmap p ! b AND NOT (push_bit s 3)) OR push_bit s val]\<rparr>)
      else Fault)"

section \<open>Reserving frames\<close>

definition mark_reserved_step :: "u32 \<Rightarrow> pma \<Rightarrow> pma outcome" where
  "mark_reserved_step i p = obind (PBM_GET p i) (\<lambda>v.
     if v = PBM_RESERVED then Ok p
     else
       let p1 = (if v = PBM_FREE then p\<lparr>pma_free_frames := pma_free_frames p - 1\<rparr> else p);
           p2 = p1\<lparr>pma_available_frames := pma_available_frames p1 - 1\<rparr>
       in PBM_SET i PBM_RESERVED p2)"

definition mm_pma_mark_reserved :: "u32 \<Rightarrow> u32 \<Rightarrow> pma \<Rightarrow> (status \<times> pma) outcome" where
  "mm_pma_mark_reserved base_pfn limit_pfn p =
     (let base = (if base_pfn < pma_base_pfn p then pma_base_pfn p else base_pfn);
          limit = (if pma_limit_pfn p < limit_pfn then pma_limit_pfn p else limit_pfn)
      in obind (for_le mark_reserved_step (base - pma_base_pfn p) (limit - pma_base_pfn p) p)
           (\<lambda>p'. Ok (STATUS_SUCCESS, p')))"

definition unmark_reserved_step :: "u32 \<Rightarrow> pma \<Rightarrow> pma outcome" where
  "unmark_reserved_step i p = obind (PBM_GET p i) (\<lambda>v.
     if v \<noteq> PBM_RESERVED then Ok p
     else PBM_SET i PBM_FREE
            (p\<lparr>pma_free_frames := pma_free_frames p + 1,
               pma_available_frames := pma_available_frames p + 1\<rparr>))"

definition mm_pma_unmark_reserved :: "u32 \<Rightarrow> u32 \<Rightarrow> pma \<Rightarrow> (status \<times> pma) outcome" where
  "mm_pma_unmark_reserved base_pfn limit_pfn p =
     (let base = (if base_pfn < pma_base_pfn p then pma_base_pfn p else base_pfn);
          limit = (if pma_limit_pfn p < limit_pfn then pma_limit_pfn p else limit_pfn)
      in obind (for_le unmark_reserved_step (base - pma_base_pfn p) (limit - pma_base_pfn p) p)
           (\<lambda>p'. Ok (STATUS_SUCCESS, p')))"

section \<open>Allocating and freeing frames\<close>

text \<open>
  The first-fit scan of \<^verbatim>\<open>mm_pma_allocate_frame\<close>: the list holds the indices still to
  visit, \<open>fc\<close> is \<^verbatim>\<open>free_count\<close> and \<open>st\<close> is \<^verbatim>\<open>alloc_start_idx\<close>.
\<close>

fun alloc_scan :: "pma \<Rightarrow> u32 \<Rightarrow> u32 list \<Rightarrow> u32 \<Rightarrow> u32 \<Rightarrow> (u32 \<times> u32) outcome" where
  "alloc_scan p count [] fc st = Ok (fc, st)"
| "alloc_scan p count (i # is) fc st =
     (if pma_base_pfn p + i < 0x100 then alloc_scan p count is fc st
      else obind (PBM_GET p i) (\<lambda>v.
        if v \<noteq> PBM_FREE then alloc_scan p count is 0 st
        else
          let st' = (if fc = 0 then i else st); fc' = fc + 1
          in if count \<le> fc' then Ok (fc', st') else alloc_scan p count is fc' st'))"

definition alloc_mark_step :: "u32 \<Rightarrow> pma \<Rightarrow> pma outcome" where
  "alloc_mark_step i p = obind (PBM_SET i PBM_ALLOCATED p)
     (\<lambda>p'. Ok (p'\<lparr>pma_free_frames := pma_free_frames p' - 1\<rparr>))"

text \<open>The returned frame number is \<open>None\<close> where the source leaves \<^verbatim>\<open>*pfn\<close> unwritten.\<close>

definition mm_pma_allocate_frame :: "u32 \<Rightarrow> pma \<Rightarrow> (status \<times> u32 option \<times> pma) outcome" where
  "mm_pma_allocate_frame count p =
     obind (alloc_scan p count (map of_nat [0 ..< unat (pma_frame_desc_count p)]) 0 0)
       (\<lambda>(fc, st).
          if fc < count then Ok (STATUS_INSUFFICIENT_MEMORY, None, p)
          else obind (for_lt alloc_mark_step st (st + count) p)
                 (\<lambda>p'. Ok (STATUS_SUCCESS, Some (pma_base_pfn p + st), p')))"

definition free_frame_step :: "u32 \<Rightarrow> pma \<Rightarrow> pma outcome" where
  "free_frame_step i p = obind (PBM_GET p i) (\<lambda>v.
     if v \<noteq> PBM_ALLOCATED then Panic STATUS_CONFLICTING_STATE
     else obind (PBM_SET i PBM_FREE p)
            (\<lambda>p'. Ok (p'\<lparr>pma_free_frames := pma_free_frames p' + 1\<rparr>)))"

definition mm_pma_free_frame :: "u32 \<Rightarrow> u32 \<Rightarrow> pma \<Rightarrow> pma outcome" where
  "mm_pma_free_frame pfn frame_count p =
     (if pfn < pma_base_pfn p \<or> pma_limit_pfn p + 1 < pfn + frame_count
      then Panic STATUS_CONFLICTING_STATE
      else
        let s = pfn - pma_base_pfn p
        in for_lt free_frame_step s (s + frame_count) p)"

definition mm_pma_get_available_frame_count :: "pma \<Rightarrow> status \<times> u32" where
  "mm_pma_get_available_frame_count p = (STATUS_SUCCESS, pma_available_frames p)"

definition mm_pma_get_free_frame_count :: "pma \<Rightarrow> status \<times> u32" where
  "mm_pma_get_free_frame_count p = (STATUS_SUCCESS, pma_free_frames p)"

section \<open>The view of the bitmap as an array of frame states\<close>

definition frame_state :: "pma \<Rightarrow> nat \<Rightarrow> u8" where
  "frame_state p i = drop_bit (2 * (i mod 4)) (pma_bitmap p ! (i div 4)) AND 3"

abbreviation frame_count :: "pma \<Rightarrow> nat" where
  "frame_count p \<equiv> unat (pma_frame_desc_count p)"

definition count_frames :: "(u8 \<Rightarrow> bool) \<Rightarrow> pma \<Rightarrow> nat" where
  "count_frames Q p = card {i. i < frame_count p \<and> Q (frame_state p i)}"

text \<open>
  The invariant: the range is a range of 32-bit physical addresses, the bitmap has room for it,
  every frame has one of the three states, and the two counters say how many frames are free
  and how many are not reserved.
\<close>

definition pma_inv :: "pma \<Rightarrow> bool" where
  "pma_inv p \<longleftrightarrow>
     pma_base_pfn p \<le> pma_limit_pfn p \<and> pma_limit_pfn p < 2 ^ 20 \<and>
     frame_count p = unat (pma_limit_pfn p) - unat (pma_base_pfn p) + 1 \<and>
     length (pma_bitmap p) = (frame_count p + 3) div 4 \<and>
     (\<forall>i < frame_count p. frame_state p i < 3) \<and>
     unat (pma_free_frames p) = count_frames (\<lambda>v. v = PBM_FREE) p \<and>
     unat (pma_available_frames p) = count_frames (\<lambda>v. v \<noteq> PBM_RESERVED) p"

definition same_range :: "pma \<Rightarrow> pma \<Rightarrow> bool" where
  "same_range p' p \<longleftrightarrow>
     pma_base_pfn p' = pma_base_pfn p \<and> pma_limit_pfn p' = pma_limit_pfn p \<and>
     pma_frame_desc_count p' = pma_frame_desc_count p \<and>
     length (pma_bitmap p') = length (pma_bitmap p) \<and>
     pma_bitmap_size p' = pma_bitmap_size p \<and>
     pma_bitmap_pfn_list p' = pma_bitmap_pfn_list p \<and>
     pma_bitmap_pfn_count p' = pma_bitmap_pfn_count p"

text \<open>\<open>frames_to p g p'\<close>: from \<open>p\<close> to \<open>p'\<close> the state of every frame \<open>j\<close> became \<open>g j\<close>.\<close>

definition frames_to :: "pma \<Rightarrow> (nat \<Rightarrow> u8) \<Rightarrow> pma \<Rightarrow> bool" where
  "frames_to p g p' \<longleftrightarrow> pma_inv p' \<and> same_range p' p \<and> (\<forall>j < frame_count p. frame_state p' j = g j)"

definition set_frame :: "nat \<Rightarrow> u8 \<Rightarrow> pma \<Rightarrow> pma" where
  "set_frame i v p = p\<lparr>pma_bitmap := (pma_bitmap p)
     [i div 4 := (pma_bitmap p ! (i div 4) AND NOT (push_bit (2 * (i mod 4)) 3))
                   OR push_bit (2 * (i mod 4)) v]\<rparr>"

text \<open>Frames that the allocator may hand out, and runs of them.\<close>

definition elig :: "pma \<Rightarrow> nat \<Rightarrow> bool" where
  "elig p j \<longleftrightarrow> j < frame_count p \<and> frame_state p j = PBM_FREE \<and> 0x100 \<le> unat (pma_base_pfn p) + j"

definition free_run :: "pma \<Rightarrow> nat \<Rightarrow> nat \<Rightarrow> bool" where
  "free_run p s n \<longleftrightarrow> (\<forall>j. s \<le> j \<and> j < s + n \<longrightarrow> elig p j)"

text \<open>
  The state of the scan before index \<open>k\<close>: \<open>fc\<close> is the length of the longest run of usable frames
  that ends at \<open>k\<close>, \<open>st\<close> its start, and no run of \<open>count\<close> frames ends at or before \<open>k\<close>.
\<close>

definition scan_inv :: "pma \<Rightarrow> u32 \<Rightarrow> nat \<Rightarrow> u32 \<Rightarrow> u32 \<Rightarrow> bool" where
  "scan_inv p count k fc st \<longleftrightarrow>
     (fc \<noteq> 0 \<longrightarrow> unat st + unat fc = k \<and> free_run p (unat st) (unat fc)) \<and> fc < count \<and>
     (\<forall>s \<le> k. free_run p s (k - s) \<longrightarrow> k - s \<le> unat fc) \<and>
     (\<forall>s. s + unat count \<le> k \<longrightarrow> \<not> free_run p s (unat count))"

text \<open>A small allocator: eight frames from \<open>0x100\<close>, the first reserved, the second allocated.\<close>

definition pma_example :: pma where
  "pma_example = \<lparr>pma_bitmap_pfn_list = replicate 64 0, pma_bitmap_pfn_count = 1,
     pma_bitmap = [0x06, 0x00], pma_bitmap_size = 2, pma_frame_desc_count = 8,
     pma_available_frames = 7, pma_free_frames = 6, pma_base_pfn = 0x100, pma_limit_pfn = 0x107\<rparr>"

section \<open>Lemmas: the bitmap\<close>

lemma PBM_GET_state:
  "unat i < 4 * length (pma_bitmap p) \<Longrightarrow> PBM_GET p i = Ok (frame_state p (unat i))"
  by (simp add: PBM_GET_def frame_state_def unat_drop_bit_2 unat_and_3_times_2 Let_def)

lemma PBM_SET_set_frame:
  "unat i < 4 * length (pma_bitmap p) \<Longrightarrow> PBM_SET i v p = Ok (set_frame (unat i) v p)"
  by (simp add: PBM_SET_def set_frame_def unat_drop_bit_2 unat_and_3_times_2 Let_def)

lemma set_frame_sel [simp]:
  "pma_base_pfn (set_frame i v p) = pma_base_pfn p"
  "pma_limit_pfn (set_frame i v p) = pma_limit_pfn p"
  "pma_frame_desc_count (set_frame i v p) = pma_frame_desc_count p"
  "length (pma_bitmap (set_frame i v p)) = length (pma_bitmap p)"
  "pma_bitmap_size (set_frame i v p) = pma_bitmap_size p"
  "pma_bitmap_pfn_list (set_frame i v p) = pma_bitmap_pfn_list p"
  "pma_bitmap_pfn_count (set_frame i v p) = pma_bitmap_pfn_count p"
  "pma_free_frames (set_frame i v p) = pma_free_frames p"
  "pma_available_frames (set_frame i v p) = pma_available_frames p"
  by (simp_all add: set_frame_def)

lemma set_frame_counters [simp]:
  "set_frame i v (pma_free_frames_update f p) = pma_free_frames_update f (set_frame i v p)"
  "set_frame i v (pma_available_frames_update f p) = pma_available_frames_update f (set_frame i v p)"
  by (simp_all add: set_frame_def)

lemma frame_state_counters [simp]:
  "frame_state (pma_free_frames_update f p) = frame_state p"
  "frame_state (pma_available_frames_update f p) = frame_state p"
  by (simp_all add: fun_eq_iff frame_state_def)

lemma frame_state_set_frame:
  assumes "i < 4 * length (pma_bitmap p)" and "v < 4"
  shows "frame_state (set_frame i v p) j = (if j = i then v else frame_state p j)"
proof (cases "j div 4 = i div 4")
  case True
  moreover have "(j mod 4 = i mod 4) = (j = i)"
    using True by (metis div_mult_mod_eq)
  moreover have "i div 4 < length (pma_bitmap p)" using assms(1) by simp
  ultimately show ?thesis
    using two_bit_field_update [of "j mod 4" "i mod 4" v "pma_bitmap p ! (i div 4)"] assms(2)
    by (auto simp: frame_state_def set_frame_def)
next
  case False
  then show ?thesis by (auto simp: frame_state_def set_frame_def)
qed

lemma card_point_update:
  assumes "k < (n :: nat)"
  shows "card {i. i < n \<and> Q ((f(k := v)) i)} + of_bool (Q (f k)) =
         card {i. i < n \<and> Q (f i)} + of_bool (Q v)"
proof -
  let ?A = "{i. i < n \<and> i \<noteq> k \<and> Q (f i)}"
  have fin: "finite ?A" "k \<notin> ?A" by auto
  have 1: "{i. i < n \<and> Q ((f(k := v)) i)} = (if Q v then insert k ?A else ?A)"
    using assms by auto
  have 2: "{i. i < n \<and> Q (f i)} = (if Q (f k) then insert k ?A else ?A)"
    using assms by auto
  show ?thesis unfolding 1 2 using fin by simp
qed

lemma pma_inv_room: "pma_inv p \<Longrightarrow> i < frame_count p \<Longrightarrow> i < 4 * length (pma_bitmap p)"
  by (simp add: pma_inv_def)

lemma count_frames_le: "count_frames Q p \<le> frame_count p"
proof -
  have "count_frames Q p \<le> card {..< frame_count p}"
    unfolding count_frames_def by (intro card_mono) auto
  then show ?thesis by simp
qed

lemma pma_inv_frame_count: "pma_inv p \<Longrightarrow> frame_count p \<le> 2 ^ 20"
  unfolding pma_inv_def by (auto simp: word_less_nat_alt)

lemma unat_step:
  fixes w :: u32
  assumes "unat w + of_bool a < 2 ^ 32" and "b \<longrightarrow> 0 < unat w + of_bool a"
  shows "unat (w + of_bool a - of_bool b) + of_bool b = unat w + of_bool a"
proof -
  have 1: "unat (w + of_bool a) = unat w + of_bool a"
    using assms(1) by (cases a) (simp_all add: unat_word_ariths)
  show ?thesis
  proof (cases b)
    case True
    then have "1 \<le> w + of_bool a" using assms 1 by (auto simp: word_le_nat_alt)
    then show ?thesis using True 1 by (auto simp: unat_sub word_le_nat_alt)
  next
    case False
    then show ?thesis using 1 by simp
  qed
qed

lemma count_frames_eqI:
  assumes "frame_count p' = frame_count p" 
    and "\<forall>j < frame_count p. frame_state p' j = ((frame_state p)(i := v)) j" and "i < frame_count p"
  shows "count_frames Q p' + of_bool (Q (frame_state p i)) = count_frames Q p + of_bool (Q v)"
proof -
  have "{j. j < frame_count p' \<and> Q (frame_state p' j)} =
        {j. j < frame_count p \<and> Q (((frame_state p)(i := v)) j)}"
    using assms(1,2) by auto
  then show ?thesis
    unfolding count_frames_def using card_point_update [OF assms(3), of Q "frame_state p" v] by simp
qed

lemma set_frame_to:
  assumes inv: "pma_inv p" and i: "i < frame_count p" and v: "v < 3"
    and bm: "pma_bitmap p' = pma_bitmap (set_frame i v p)" and rng: "same_range p' p"
    and fr: "pma_free_frames p' =
      pma_free_frames p + of_bool (v = PBM_FREE) - of_bool (frame_state p i = PBM_FREE)"
    and av: "pma_available_frames p' =
      pma_available_frames p + of_bool (v \<noteq> PBM_RESERVED) - of_bool (frame_state p i \<noteq> PBM_RESERVED)"
  shows "frames_to p ((frame_state p)(i := v)) p'"
proof -
  have len: "i < 4 * length (pma_bitmap p)" using inv i by (rule pma_inv_room)
  have v4: "v < 4" using v by (simp add: word_less_nat_alt)
  have st: "frame_state p' j = ((frame_state p)(i := v)) j" for j
    using frame_state_set_frame [OF len v4, of j] by (simp add: frame_state_def bm)
  have cnt: "count_frames Q p' + of_bool (Q (frame_state p i)) = count_frames Q p + of_bool (Q v)" for Q
    using st i rng by (intro count_frames_eqI) (auto simp: same_range_def)
  have bound: "count_frames Q p < 2 ^ 31" for Q
    using count_frames_le [of Q p] pma_inv_frame_count [OF inv] by simp
  have f: "unat (pma_free_frames p') = count_frames (\<lambda>v. v = PBM_FREE) p'"
    using unat_step [of "pma_free_frames p" "v = 0" "frame_state p i = 0"]
      cnt [of "\<lambda>v. v = 0"] bound [of "\<lambda>v. v = 0"] inv
    by (auto simp: fr pma_inv_def)
  have a: "unat (pma_available_frames p') = count_frames (\<lambda>v. v \<noteq> PBM_RESERVED) p'"
    using unat_step [of "pma_available_frames p" "v \<noteq> 2" "frame_state p i \<noteq> 2"]
      cnt [of "\<lambda>v. v \<noteq> 2"] bound [of "\<lambda>v. v \<noteq> 2"] inv
    by (auto simp: av pma_inv_def)
  have "pma_inv p'"
    unfolding pma_inv_def using f a inv rng st v by (auto simp: pma_inv_def same_range_def)
  then show ?thesis using rng st by (simp add: frames_to_def)
qed

section \<open>Loops that update a range of frames\<close>

text \<open>
  The four loops of the allocator visit a range of indices and change the state of each frame
  they visit.  The contract of one step is the locale; the effect of the loop over a range is
  proved once and each loop body is an interpretation.
\<close>

locale frame_update =
  fixes step :: "u32 \<Rightarrow> pma \<Rightarrow> pma outcome"
    and pre :: "u8 \<Rightarrow> bool"
    and upd :: "u8 \<Rightarrow> u8"
  assumes step_ok: "pma_inv p \<Longrightarrow> unat i < frame_count p \<Longrightarrow> pre (frame_state p (unat i)) \<Longrightarrow>
    \<exists>p'. step i p = Ok p' \<and>
         frames_to p ((frame_state p)(unat i := upd (frame_state p (unat i)))) p'"
begin

lemma range_ok:
  assumes inv: "pma_inv p" and ab: "b \<le> frame_count p"
    and pre: "\<forall>j. a \<le> j \<and> j < b \<longrightarrow> pre (frame_state p j)"
  shows "\<exists>p'. ofold step (map of_nat [a ..< b]) p = Ok p' \<and>
    frames_to p (\<lambda>j. if a \<le> j \<and> j < b then upd (frame_state p j) else frame_state p j) p'"
proof (cases "a \<le> b")
  case True
  let ?I = "\<lambda>k s. frames_to p (\<lambda>j. if a \<le> j \<and> j < a + k then upd (frame_state p j) else frame_state p j) s"
  have lt: "frame_count p < 2 ^ 32" using pma_inv_frame_count [OF inv] by simp
  have "\<exists>p'. ofold step (map of_nat [a ..< b]) p = Ok p' \<and> ?I (length (map of_nat [a ..< b] :: u32 list)) p'"
  proof (rule ofold_total)
    show "?I 0 p" using inv by (auto simp: frames_to_def same_range_def)
  next
    fix k s
    assume k: "k < length (map of_nat [a ..< b] :: u32 list)" and I: "?I k s"
    let ?i = "of_nat (a + k) :: u32"
    have ui: "unat ?i = a + k" using k ab lt by (intro unat_of_nat_u32) simp
    have st: "frame_state s j = (if a \<le> j \<and> j < a + k then upd (frame_state p j) else frame_state p j)"
      if "j < frame_count p" for j using I that by (simp add: frames_to_def)
    have fc: "frame_count s = frame_count p" and si: "pma_inv s"
      using I by (auto simp: frames_to_def same_range_def)
    have ak: "a + k < frame_count p" using k ab by simp
    have now: "frame_state s (a + k) = frame_state p (a + k)" using st [OF ak] by simp
    have "pre (frame_state s (unat ?i))" using now pre k ui by simp
    then obtain s' where s': "step ?i s = Ok s'"
        "frames_to s ((frame_state s)(unat ?i := upd (frame_state s (unat ?i)))) s'"
      using step_ok [of s ?i] si fc ak ui by auto
    have "?I (Suc k) s'"
      using s'(2) I st now ui fc by (auto simp: frames_to_def same_range_def)
    then show "\<exists>s'. step ((map of_nat [a ..< b]) ! k) s = Ok s' \<and> ?I (Suc k) s'"
      using s'(1) k by auto
  qed
  then show ?thesis using True by simp
next
  case False
  then show ?thesis using inv by (auto simp: frames_to_def same_range_def)
qed

end

lemma frames_to_refl_upd: "pma_inv p \<Longrightarrow> v = frame_state p i \<Longrightarrow> frames_to p ((frame_state p)(i := v)) p"
  by (simp add: frames_to_def same_range_def)

interpretation mark: frame_update mark_reserved_step "\<lambda>v. True" "\<lambda>v. PBM_RESERVED"
proof
  fix p :: pma and i :: u32
  assume inv: "pma_inv p" and i: "unat i < frame_count p"
  note room = pma_inv_room [OF inv i]
  show "\<exists>p'. mark_reserved_step i p = Ok p' \<and> frames_to p ((frame_state p)(unat i := PBM_RESERVED)) p'"
  proof (cases "frame_state p (unat i) = PBM_RESERVED")
    case True
    then show ?thesis using room frames_to_refl_upd [OF inv, of 2 "unat i"]
      by (simp add: mark_reserved_step_def PBM_GET_state)
  next
    case False
    then show ?thesis using room
      by (auto simp: mark_reserved_step_def PBM_GET_state PBM_SET_set_frame Let_def same_range_def
          intro!: set_frame_to [OF inv i])
  qed
qed

interpretation unmark: frame_update unmark_reserved_step "\<lambda>v. True"
  "\<lambda>v. if v = PBM_RESERVED then PBM_FREE else v"
proof
  fix p :: pma and i :: u32
  assume inv: "pma_inv p" and i: "unat i < frame_count p"
  note room = pma_inv_room [OF inv i]
  show "\<exists>p'. unmark_reserved_step i p = Ok p' \<and> frames_to p ((frame_state p)(unat i :=
      (if frame_state p (unat i) = PBM_RESERVED then PBM_FREE else frame_state p (unat i)))) p'"
  proof (cases "frame_state p (unat i) = PBM_RESERVED")
    case True
    then show ?thesis using room
      by (auto simp: unmark_reserved_step_def PBM_GET_state PBM_SET_set_frame same_range_def
          intro!: set_frame_to [OF inv i])
  next
    case False
    then show ?thesis using room frames_to_refl_upd [OF inv, of "frame_state p (unat i)" "unat i"]
      by (simp add: unmark_reserved_step_def PBM_GET_state)
  qed
qed

interpretation claim: frame_update alloc_mark_step "\<lambda>v. v = PBM_FREE" "\<lambda>v. PBM_ALLOCATED"
proof
  fix p :: pma and i :: u32
  assume inv: "pma_inv p" and i: "unat i < frame_count p"
    and pre: "frame_state p (unat i) = PBM_FREE"
  show "\<exists>p'. alloc_mark_step i p = Ok p' \<and> frames_to p ((frame_state p)(unat i := PBM_ALLOCATED)) p'"
    using pma_inv_room [OF inv i] pre
    by (auto simp: alloc_mark_step_def PBM_SET_set_frame same_range_def
        intro!: set_frame_to [OF inv i])
qed

interpretation unclaim: frame_update free_frame_step "\<lambda>v. v = PBM_ALLOCATED" "\<lambda>v. PBM_FREE"
proof
  fix p :: pma and i :: u32
  assume inv: "pma_inv p" and i: "unat i < frame_count p"
    and pre: "frame_state p (unat i) = PBM_ALLOCATED"
  show "\<exists>p'. free_frame_step i p = Ok p' \<and> frames_to p ((frame_state p)(unat i := PBM_FREE)) p'"
    using pma_inv_room [OF inv i] pre
    by (auto simp: free_frame_step_def PBM_GET_state PBM_SET_set_frame same_range_def
        intro!: set_frame_to [OF inv i])
qed


section \<open>Lemmas: the first-fit scan\<close>

lemma base_plus_less:
  assumes inv: "pma_inv p" and k: "k < frame_count p"
  shows "pma_base_pfn p + of_nat k < 0x100 \<longleftrightarrow> unat (pma_base_pfn p) + k < 0x100"
proof -
  have "unat (pma_base_pfn p) + k < 2 ^ 32"
    using assms by (auto simp: pma_inv_def word_less_nat_alt word_le_nat_alt)
  moreover have "unat (of_nat k :: u32) = k"
    using pma_inv_frame_count [OF inv] k by (intro unat_of_nat_u32) simp
  ultimately have "unat (pma_base_pfn p + of_nat k) = unat (pma_base_pfn p) + k"
    by (simp add: unat_word_ariths)
  then show ?thesis by (simp add: word_less_nat_alt)
qed

lemma free_run_Suc: "free_run p s (Suc n) \<longleftrightarrow> free_run p s n \<and> elig p (s + n)"
  by (auto simp: free_run_def less_Suc_eq)

lemma free_run_0: "free_run p s 0"
  by (auto simp: free_run_def)

lemma scan_inv_start: "0 < count \<Longrightarrow> scan_inv p count 0 0 0"
  by (auto simp: scan_inv_def word_less_nat_alt)

lemma scan_inv_end:
  assumes "scan_inv p count (frame_count p) fc st"
  shows "\<not> free_run p s (unat count)"
proof
  assume r: "free_run p s (unat count)"
  have c: "0 < unat count" using assms by (auto simp: scan_inv_def word_less_nat_alt)
  then have "elig p (s + unat count - 1)" using r by (simp add: free_run_def)
  then have "s + unat count \<le> frame_count p" using c by (auto simp: elig_def)
  then show False using assms r by (auto simp: scan_inv_def)
qed

lemma no_run_Suc:
  assumes "\<forall>s. s + n \<le> k \<longrightarrow> \<not> free_run p s n"
    and "\<And>s. s + n = Suc k \<Longrightarrow> \<not> free_run p s n"
  shows "\<forall>s. s + n \<le> Suc k \<longrightarrow> \<not> free_run p s n"
  using assms by (metis le_Suc_eq)

lemma scan_inv_skip:
  assumes inv: "scan_inv p count k fc st" and ne: "\<not> elig p k"
  shows "scan_inv p count (Suc k) 0 st'"
proof -
  have c: "0 < count" using inv by (auto simp: scan_inv_def word_less_nat_alt)
  have "\<not> free_run p s (unat count)" if "s + unat count = Suc k" for s
  proof -
    have "s \<le> k" "k < s + unat count" using that c by (auto simp: word_less_nat_alt)
    then show ?thesis using ne by (auto simp: free_run_def)
  qed
  then have "\<forall>s. s + unat count \<le> Suc k \<longrightarrow> \<not> free_run p s (unat count)"
    using inv by (intro no_run_Suc) (auto simp: scan_inv_def)
  moreover have "s = Suc k" if "s \<le> Suc k" "free_run p s (Suc k - s)" for s
    using that ne by (cases "s = Suc k") (auto simp: free_run_def)
  ultimately show ?thesis using c by (auto simp: scan_inv_def)
qed

lemma scan_run_extend:
  assumes inv: "scan_inv p count k fc st" and e: "elig p k" and k: "unat (of_nat k :: u32) = k"
  defines "st' \<equiv> if fc = 0 then of_nat k else st"
  shows "unat (fc + 1) = unat fc + 1"
    and "unat st' + unat (fc + 1) = Suc k" and "free_run p (unat st') (unat (fc + 1))"
    and "\<forall>s \<le> Suc k. free_run p s (Suc k - s) \<longrightarrow> Suc k - s \<le> unat (fc + 1)"
proof -
  have "unat fc < unat count" using inv by (simp add: scan_inv_def word_less_nat_alt)
  then show fc1: "unat (fc + 1) = unat fc + 1"
    using unat_u32_less [of count] by (simp add: unat_word_ariths)
  show "unat st' + unat (fc + 1) = Suc k"
    using inv k fc1 by (auto simp: scan_inv_def st'_def)
  show "free_run p (unat st') (unat (fc + 1))"
    using inv e k fc1 by (cases "fc = 0") (auto simp: scan_inv_def free_run_Suc st'_def free_run_0)
  show "\<forall>s \<le> Suc k. free_run p s (Suc k - s) \<longrightarrow> Suc k - s \<le> unat (fc + 1)"
  proof (intro allI impI)
    fix s assume "s \<le> Suc k" "free_run p s (Suc k - s)"
    then show "Suc k - s \<le> unat (fc + 1)"
      using inv fc1 by (cases "s = Suc k") (auto simp: scan_inv_def free_run_Suc Suc_diff_le)
  qed
qed

lemma scan_inv_extend:
  assumes inv: "scan_inv p count k fc st" and e: "elig p k" and k: "unat (of_nat k :: u32) = k"
    and more: "\<not> count \<le> fc + 1"
  shows "scan_inv p count (Suc k) (fc + 1) (if fc = 0 then of_nat k else st)"
proof -
  note ext = scan_run_extend [OF inv e k]
  have "\<not> free_run p s (unat count)" if s: "s + unat count = Suc k" for s
  proof
    assume "free_run p s (unat count)"
    moreover have "Suc k - s = unat count" using s by simp
    ultimately have "unat count \<le> unat (fc + 1)" using ext(4) s by (metis le_add1)
    then show False using more by (simp add: word_le_nat_alt)
  qed
  then have "\<forall>s. s + unat count \<le> Suc k \<longrightarrow> \<not> free_run p s (unat count)"
    using inv by (intro no_run_Suc) (auto simp: scan_inv_def)
  then show ?thesis using ext more by (auto simp: scan_inv_def not_le)
qed

lemma scan_hit:
  assumes inv: "scan_inv p count k fc st" and e: "elig p k" and k: "unat (of_nat k :: u32) = k"
    and hit: "count \<le> fc + 1"
  defines "st' \<equiv> if fc = 0 then of_nat k else st"
  shows "free_run p (unat st') (unat count)" and "\<forall>s < unat st'. \<not> free_run p s (unat count)"
proof -
  note ext = scan_run_extend [OF inv e k, folded st'_def]
  have cnt: "unat count = unat (fc + 1)"
    using hit inv ext(1) by (simp add: scan_inv_def word_le_nat_alt word_less_nat_alt)
  show "free_run p (unat st') (unat count)" using ext(3) cnt by simp
  show "\<forall>s < unat st'. \<not> free_run p s (unat count)"
    using ext(2) cnt inv by (auto simp: scan_inv_def)
qed

lemma elig_iff_scan:
  assumes inv: "pma_inv p" and k: "k < frame_count p"
  shows "elig p k \<longleftrightarrow> \<not> pma_base_pfn p + of_nat k < 0x100 \<and> frame_state p k = PBM_FREE"
  using base_plus_less [OF inv k] k by (auto simp: elig_def)

lemma alloc_scan_ok:
  assumes inv: "pma_inv p"
  shows "k \<le> frame_count p \<Longrightarrow> scan_inv p count k fc st \<Longrightarrow>
    \<exists>fc' st'. alloc_scan p count (map of_nat [k ..< frame_count p]) fc st = Ok (fc', st') \<and>
      (if count \<le> fc'
       then free_run p (unat st') (unat count) \<and> (\<forall>s < unat st'. \<not> free_run p s (unat count))
       else (\<forall>s. \<not> free_run p s (unat count)))"
proof (induction "frame_count p - k" arbitrary: k fc st)
  case 0
  then show ?case using scan_inv_end [of p count fc st] by (auto simp: scan_inv_def)
next
  case (Suc n)
  then have k: "k < frame_count p" by simp
  then have list: "[k ..< frame_count p] = k # [Suc k ..< frame_count p]"
    by (simp add: upt_conv_Cons)
  have uk: "unat (of_nat k :: u32) = k"
    using pma_inv_frame_count [OF inv] k by (intro unat_of_nat_u32) simp
  have get: "PBM_GET p (of_nat k) = Ok (frame_state p k)"
    using PBM_GET_state [of "of_nat k" p] pma_inv_room [OF inv k] uk by simp
  have n: "n = frame_count p - Suc k" and k': "Suc k \<le> frame_count p"
    using Suc.hyps(2) k by auto
  note IH = Suc.hyps(1) [OF n k'] and si = Suc.prems(2) and el = elig_iff_scan [OF inv k]
  show ?case
  proof (cases "elig p k")
    case True
    then show ?thesis
      using IH [OF scan_inv_extend [OF si True uk]] scan_hit [OF si True uk] el
      by (cases "count \<le> fc + 1") (auto simp: list get Let_def)
  next
    case False
    have "fc = 0" if "pma_base_pfn p + of_nat k < 0x100"
    proof (rule ccontr)
      assume "fc \<noteq> 0"
      then have "elig p (k - 1)" using si unat_eq_zero [of fc]
        by (auto simp: scan_inv_def free_run_def)
      then show False using that base_plus_less [OF inv k] by (auto simp: elig_def)
    qed
    then show ?thesis
      using IH [OF scan_inv_skip [OF si False]] False el by (auto simp: list get)
  qed
qed


lemma pma_range_unat:
  assumes inv: "pma_inv p" and "a + n \<le> frame_count p"
  shows "unat (of_nat a + of_nat n :: u32) = a + n" and "unat (of_nat a :: u32) = a"
  using pma_inv_frame_count [OF inv] assms(2)
  by (auto simp: unat_of_nat_u32 simp flip: of_nat_add)

lemma free_run_bound: "free_run p s n \<Longrightarrow> 0 < n \<Longrightarrow> s + n \<le> frame_count p"
proof -
  assume "free_run p s n" "0 < n"
  then have "elig p (s + n - 1)" by (simp add: free_run_def)
  then show ?thesis using \<open>0 < n\<close> by (auto simp: elig_def)
qed

lemma free_frame_step_panic:
  assumes inv: "pma_inv p" and k: "unat i < frame_count p"
    and na: "frame_state p (unat i) \<noteq> PBM_ALLOCATED"
  shows "free_frame_step i p = Panic STATUS_CONFLICTING_STATE"
  using pma_inv_room [OF inv k] na by (simp add: free_frame_step_def PBM_GET_state)

lemma free_range_panic:
  assumes inv: "pma_inv p" and b: "b \<le> frame_count p" and k: "a \<le> k" "k < b"
    and na: "frame_state p k \<noteq> PBM_ALLOCATED"
  shows "ofold free_frame_step (map of_nat [a ..< b]) p = Panic STATUS_CONFLICTING_STATE"
proof -
  define m where "m = (LEAST k. a \<le> k \<and> k < b \<and> frame_state p k \<noteq> PBM_ALLOCATED)"
  have m: "a \<le> m" "m < b" "frame_state p m \<noteq> PBM_ALLOCATED"
    unfolding m_def using LeastI [of "\<lambda>k. a \<le> k \<and> k < b \<and> frame_state p k \<noteq> PBM_ALLOCATED" k] k na by auto
  have before: "\<forall>j. a \<le> j \<and> j < m \<longrightarrow> frame_state p j = PBM_ALLOCATED"
    unfolding m_def using not_less_Least m(2) m_def by fastforce
  obtain p' where p': "ofold free_frame_step (map of_nat [a ..< m]) p = Ok p'"
      "frames_to p (\<lambda>j. if a \<le> j \<and> j < m then PBM_FREE else frame_state p j) p'"
    using unclaim.range_ok [OF inv, of m a] before m(2) b by auto
  have um: "unat (of_nat m :: u32) = m"
    using pma_inv_frame_count [OF inv] m(2) b by (intro unat_of_nat_u32) simp
  have "free_frame_step (of_nat m) p' = Panic STATUS_CONFLICTING_STATE"
    using p'(2) m b um by (intro free_frame_step_panic) (auto simp: frames_to_def same_range_def)
  moreover have "[a ..< b] = [a ..< m] @ m # [Suc m ..< b]"
    using m upt_add_eq_append [of a m "b - m"] by (simp add: upt_conv_Cons)
  ultimately show ?thesis by (simp add: ofold_append p'(1))
qed

lemma mark_reserved_range:
  assumes inv: "pma_inv p" and le: "base \<le> limit"
    and meets: "base \<le> pma_limit_pfn p" "pma_base_pfn p \<le> limit"
  defines "a \<equiv> max (unat base) (unat (pma_base_pfn p)) - unat (pma_base_pfn p)"
    and "b \<equiv> min (unat limit) (unat (pma_limit_pfn p)) - unat (pma_base_pfn p)"
  shows "\<exists>p'. mm_pma_mark_reserved base limit p = Ok (STATUS_SUCCESS, p') \<and>
    frames_to p (\<lambda>j. if a \<le> j \<and> j \<le> b then PBM_RESERVED else frame_state p j) p'"
proof -
  let ?base = "if base < pma_base_pfn p then pma_base_pfn p else base"
  let ?limit = "if pma_limit_pfn p < limit then pma_limit_pfn p else limit"
  have ua: "unat (?base - pma_base_pfn p) = a"
    by (auto simp: a_def unat_sub word_le_nat_alt word_less_nat_alt)
  have bl: "pma_base_pfn p \<le> ?limit"
    using meets inv by (auto simp: pma_inv_def)
  then have ub: "unat (?limit - pma_base_pfn p) = b"
    by (auto simp: b_def unat_sub word_le_nat_alt word_less_nat_alt min_def)
  have bound: "Suc b \<le> frame_count p"
    using inv by (auto simp: b_def pma_inv_def word_le_nat_alt)
  have "?limit - pma_base_pfn p \<noteq> -1"
    using ub bound pma_inv_frame_count [OF inv] by (auto simp: unat_minus_one_u32)
  then show ?thesis
    using mark.range_ok [OF inv bound, of a]
    by (auto simp: mm_pma_mark_reserved_def for_le_def ua ub Let_def less_Suc_eq_le)
qed

lemma mark_reserved_step_length:
  "mark_reserved_step i p = Ok p' \<Longrightarrow> length (pma_bitmap p') = length (pma_bitmap p)"
  by (auto simp: mark_reserved_step_def PBM_SET_def outcome_simps Let_def split: if_splits)

lemma mark_reserved_below:
  assumes inv: "pma_inv p" and le: "base \<le> limit" and below: "limit < pma_base_pfn p"
  shows "mm_pma_mark_reserved base limit p \<noteq> Ok r"
proof
  assume ok: "mm_pma_mark_reserved base limit p = Ok r"
  let ?n = "4 * length (pma_bitmap p)" and ?d = "limit - pma_base_pfn p"
  have n: "?n \<le> 2 ^ 20 + 3"
    using inv pma_inv_frame_count [OF inv] by (auto simp: pma_inv_def)
  have "unat ?d = 2 ^ 32 + unat limit - unat (pma_base_pfn p)"
    using below by (simp add: unat_sub_if' word_less_nat_alt)
  then have d: "?n \<le> unat ?d"
    using n inv by (auto simp: pma_inv_def word_less_nat_alt word_le_nat_alt)
  obtain p' where run: "ofold mark_reserved_step (map of_nat [0 ..< Suc (unat ?d)]) p = Ok p'"
    using ok le below inv
    by (auto simp: mm_pma_mark_reserved_def for_le_def outcome_simps pma_inv_def Let_def split: if_splits)
  have mem: "of_nat ?n \<in> set (map of_nat [0 ..< Suc (unat ?d)] :: u32 list)"
    using d by (metis atLeastLessThan_iff image_eqI less_Suc_eq_le list.set_map set_upt zero_le)
  have "\<exists>p1 p2. length (pma_bitmap p1) = length (pma_bitmap p) \<and>
          mark_reserved_step (of_nat ?n) p1 = Ok p2"
    by (rule ofold_Ok_step [OF run mem]) (simp_all add: mark_reserved_step_length)
  then obtain p1 p2 where "length (pma_bitmap p1) = length (pma_bitmap p)"
    and "mark_reserved_step (of_nat ?n) p1 = Ok p2" by blast
  moreover have "unat (of_nat ?n :: u32) = ?n"
    using n by (intro unat_of_nat_u32) simp
  ultimately show False
    by (simp add: mark_reserved_step_def PBM_GET_def unat_drop_bit_2 Let_def)
qed

lemma allocate_frame_spec:
  assumes inv: "pma_inv p" and c: "0 < count"
  shows "if \<exists>s. free_run p s (unat count)
     then \<exists>s p'. mm_pma_allocate_frame count p = Ok (STATUS_SUCCESS, Some (pma_base_pfn p + of_nat s), p') \<and>
            free_run p s (unat count) \<and> (\<forall>s' < s. \<not> free_run p s' (unat count)) \<and>
            frames_to p (\<lambda>j. if s \<le> j \<and> j < s + unat count then PBM_ALLOCATED else frame_state p j) p'
     else mm_pma_allocate_frame count p = Ok (STATUS_INSUFFICIENT_MEMORY, None, p)"
proof -
  obtain fc st where scan: "alloc_scan p count (map of_nat [0 ..< frame_count p]) 0 0 = Ok (fc, st)"
    and res: "if count \<le> fc
       then free_run p (unat st) (unat count) \<and> (\<forall>s < unat st. \<not> free_run p s (unat count))
       else (\<forall>s. \<not> free_run p s (unat count))"
    using alloc_scan_ok [OF inv _ scan_inv_start [OF c]] by auto
  show ?thesis
  proof (cases "count \<le> fc")
    case True
    then have run: "free_run p (unat st) (unat count)" "\<forall>s < unat st. \<not> free_run p s (unat count)"
      using res by auto
    have bound: "unat st + unat count \<le> frame_count p"
      using free_run_bound [OF run(1)] c by (simp add: word_less_nat_alt)
    then have sum: "unat (st + count) = unat st + unat count"
      using pma_range_unat(1) [OF inv bound] by simp
    obtain p' where "for_lt alloc_mark_step st (st + count) p = Ok p'"
      and "frames_to p (\<lambda>j. if unat st \<le> j \<and> j < unat st + unat count then PBM_ALLOCATED
                             else frame_state p j) p'"
      using claim.range_ok [OF inv bound, of "unat st"] run(1)
      by (auto simp: for_lt_def sum free_run_def elig_def)
    then show ?thesis using True run scan
      by (auto simp: mm_pma_allocate_frame_def not_less intro!: exI [of _ "unat st"])
  next
    case False
    then have "fc < count" by simp
    then show ?thesis using False res scan by (simp add: mm_pma_allocate_frame_def)
  qed
qed

lemma free_frame_spec:
  assumes inv: "pma_inv p" and nowrap: "unat pfn + unat n < 2 ^ 32"
  defines "a \<equiv> unat pfn - unat (pma_base_pfn p)"
  shows "if pma_base_pfn p \<le> pfn \<and> unat pfn + unat n \<le> unat (pma_limit_pfn p) + 1 \<and>
            (\<forall>j. a \<le> j \<and> j < a + unat n \<longrightarrow> frame_state p j = PBM_ALLOCATED)
     then \<exists>p'. mm_pma_free_frame pfn n p = Ok p' \<and>
            frames_to p (\<lambda>j. if a \<le> j \<and> j < a + unat n then PBM_FREE else frame_state p j) p'
     else mm_pma_free_frame pfn n p = Panic STATUS_CONFLICTING_STATE"
proof -
  have lim: "unat (pma_limit_pfn p + 1) = unat (pma_limit_pfn p) + 1"
    using inv by (auto simp: pma_inv_def word_less_nat_alt unat_word_ariths)
  have sum: "unat (pfn + n) = unat pfn + unat n"
    using nowrap by (simp add: unat_word_ariths)
  show ?thesis
  proof (cases "pma_base_pfn p \<le> pfn \<and> unat pfn + unat n \<le> unat (pma_limit_pfn p) + 1")
    case False
    then show ?thesis
      using lim sum by (auto simp: mm_pma_free_frame_def word_less_nat_alt word_le_nat_alt)
  next
    case True
    have ua: "unat (pfn - pma_base_pfn p) = a"
      using True by (simp add: a_def unat_sub)
    have bound: "a + unat n \<le> frame_count p"
      using True inv by (auto simp: a_def pma_inv_def word_le_nat_alt)
    have ub: "unat (pfn - pma_base_pfn p + n) = a + unat n"
      using pma_range_unat(1) [OF inv bound] by (simp flip: ua)
    have run: "mm_pma_free_frame pfn n p = ofold free_frame_step (map of_nat [a ..< a + unat n]) p"
      using True lim sum
      by (auto simp: mm_pma_free_frame_def word_less_nat_alt word_le_nat_alt for_lt_def Let_def ua ub)
    then show ?thesis
      using unclaim.range_ok [OF inv bound, of a] free_range_panic [OF inv bound, of a] True by auto
  qed
qed


lemma free_frame_step_length:
  "free_frame_step i p = Ok p' \<Longrightarrow> length (pma_bitmap p') = length (pma_bitmap p)"
  by (auto simp: free_frame_step_def PBM_SET_def outcome_simps Let_def split: if_splits)

lemma free_past_bitmap:
  assumes b: "b \<le> 2 ^ 32" and past: "4 * length (pma_bitmap p) < b" and ab: "a < b"
  shows "ofold free_frame_step (map of_nat [a ..< b]) p \<noteq> Ok r"
proof
  assume run: "ofold free_frame_step (map of_nat [a ..< b]) p = Ok r"
  let ?n = "max a (4 * length (pma_bitmap p))"
  have mem: "of_nat ?n \<in> set (map of_nat [a ..< b] :: u32 list)"
    using past ab by auto
  have "\<exists>p1 p2. length (pma_bitmap p1) = length (pma_bitmap p) \<and> free_frame_step (of_nat ?n) p1 = Ok p2"
    by (rule ofold_Ok_step [OF run mem]) (simp_all add: free_frame_step_length)
  then obtain p1 p2 where "length (pma_bitmap p1) = length (pma_bitmap p)"
    and "free_frame_step (of_nat ?n) p1 = Ok p2" by blast
  moreover have "unat (of_nat ?n :: u32) = ?n"
    using b past ab by (intro unat_of_nat_u32) simp
  moreover have "\<not> ?n div 4 < length (pma_bitmap p)"
    by (simp add: div_less_iff_less_mult)
  ultimately show False
    by (simp add: free_frame_step_def PBM_GET_def unat_drop_bit_2 Let_def)
qed

text \<open>
  What the release does when \<^verbatim>\<open>pfn + frame_count\<close> does not fit in 32 bits, so that the range check
  sees a small sum: a sum that wraps below the base still sends the loop past the bitmap, one that
  wraps into the managed frames makes the bound of the loop wrap too, and the loop is empty.
\<close>

lemma free_frame_wrapped:
  assumes inv: "pma_inv p" and wrap: "2 ^ 32 \<le> unat pfn + unat n"
  shows "if pma_base_pfn p \<le> pfn \<and> unat pfn + unat n < 2 ^ 32 + unat (pma_base_pfn p)
     then mm_pma_free_frame pfn n p \<noteq> Ok r
     else if pma_base_pfn p \<le> pfn \<and> unat pfn + unat n \<le> 2 ^ 32 + unat (pma_limit_pfn p) + 1
     then mm_pma_free_frame pfn n p = Ok p
     else mm_pma_free_frame pfn n p = Panic STATUS_CONFLICTING_STATE"
proof -
  let ?base = "pma_base_pfn p" and ?limit = "pma_limit_pfn p"
  have lim: "unat (?limit + 1) = unat ?limit + 1" and bl: "unat ?base \<le> unat ?limit" "unat ?limit < 2 ^ 20"
    using inv by (auto simp: pma_inv_def word_less_nat_alt word_le_nat_alt unat_word_ariths)
  have lt: "unat pfn < 2 ^ 32" "unat n < 2 ^ 32"
    using unsigned_less [of pfn] unsigned_less [of n] by simp_all
  then have sum: "unat (pfn + n) = unat pfn + unat n - 2 ^ 32"
    using wrap by (simp add: unat_word_ariths mod_if)
  have ua: "unat (pfn - ?base) = unat pfn - unat ?base" if "?base \<le> pfn"
    using that by (simp add: unat_sub)
  consider (out) "\<not> (?base \<le> pfn \<and> unat pfn + unat n \<le> 2 ^ 32 + unat ?limit + 1)"
    | (past) "?base \<le> pfn" "unat pfn + unat n < 2 ^ 32 + unat ?base"
    | (empty) "?base \<le> pfn" "2 ^ 32 + unat ?base \<le> unat pfn + unat n"
        "unat pfn + unat n \<le> 2 ^ 32 + unat ?limit + 1"
    by linarith
  then show ?thesis
  proof cases
    case out
    then show ?thesis
      using wrap lim sum bl by (auto simp: mm_pma_free_frame_def word_less_nat_alt word_le_nat_alt)
  next
    case past
    have ub: "unat (pfn - ?base + n) = unat pfn - unat ?base + unat n"
      using past lt wrap by (simp add: unat_word_ariths ua word_le_nat_alt)
    have "4 * length (pma_bitmap p) \<le> 2 ^ 20 + 3"
      using inv pma_inv_frame_count [OF inv] by (auto simp: pma_inv_def)
    then have "ofold free_frame_step (map of_nat [unat pfn - unat ?base ..< unat pfn - unat ?base + unat n]) p \<noteq> Ok r"
      using past wrap lt bl by (intro free_past_bitmap) (auto simp: word_le_nat_alt)
    then show ?thesis
      using past lim sum bl
      by (auto simp: mm_pma_free_frame_def word_less_nat_alt word_le_nat_alt for_lt_def Let_def ub ua)
  next
    case empty
    have "unat (pfn - ?base + n) = unat pfn - unat ?base + unat n - 2 ^ 32"
      using empty lt wrap by (simp add: unat_word_ariths ua word_le_nat_alt mod_if)
    then have "unat (pfn - ?base + n) \<le> unat (pfn - ?base)"
      using empty lt by (simp add: ua)
    then show ?thesis
      using empty lim sum bl
      by (auto simp: mm_pma_free_frame_def word_less_nat_alt word_le_nat_alt for_lt_def Let_def)
  qed
qed

lemma count_frames_code:
  "count_frames Q p = length (filter (\<lambda>i. Q (frame_state p i)) [0 ..< frame_count p])"
proof -
  have "{i. i < frame_count p \<and> Q (frame_state p i)} = set (filter (\<lambda>i. Q (frame_state p i)) [0 ..< frame_count p])"
    by auto
  then show ?thesis unfolding count_frames_def by (simp only: distinct_card distinct_filter distinct_upt)
qed

lemma pma_inv_code:
  "pma_inv p \<longleftrightarrow>
     pma_base_pfn p \<le> pma_limit_pfn p \<and> pma_limit_pfn p < 2 ^ 20 \<and>
     frame_count p = unat (pma_limit_pfn p) - unat (pma_base_pfn p) + 1 \<and>
     length (pma_bitmap p) = (frame_count p + 3) div 4 \<and>
     list_all (\<lambda>i. frame_state p i < 3) [0 ..< frame_count p] \<and>
     unat (pma_free_frames p) = length (filter (\<lambda>i. frame_state p i = PBM_FREE) [0 ..< frame_count p]) \<and>
     unat (pma_available_frames p) =
       length (filter (\<lambda>i. frame_state p i \<noteq> PBM_RESERVED) [0 ..< frame_count p])"
  by (auto simp: pma_inv_def count_frames_code list_all_iff)

lemma pma_example_inv: "pma_inv pma_example"
  unfolding pma_inv_code by code_simp

lemma frames_to_cong:
  "frames_to p g p' \<Longrightarrow> (\<And>j. j < frame_count p \<Longrightarrow> g j = h j) \<Longrightarrow> frames_to p h p'"
  by (simp add: frames_to_def)

lemma frames_to_counters:
  assumes "pma_inv p" "frames_to p (frame_state p) p'"
  shows "pma_free_frames p' = pma_free_frames p" "pma_available_frames p' = pma_available_frames p"
proof -
  have "{i. i < frame_count p' \<and> Q (frame_state p' i)} = {i. i < frame_count p \<and> Q (frame_state p i)}" for Q
    using assms(2) by (auto simp: frames_to_def same_range_def)
  then have "count_frames Q p' = count_frames Q p" for Q by (simp add: count_frames_def)
  then show "pma_free_frames p' = pma_free_frames p" "pma_available_frames p' = pma_available_frames p"
    using assms by (auto simp: frames_to_def pma_inv_def word_unat_eq_iff)
qed

lemma free_run_code:
  "free_run p s n \<longleftrightarrow> list_all (elig p) [s ..< s + n]"
  by (auto simp: free_run_def list_all_iff)

section \<open>Properties of the frame allocator\<close>

text \<open>
  C1: First-fit allocation is correct and complete.  When a run of \<open>count\<close> consecutive free
  frames at or above frame \<open>0x100\<close> exists, \<^verbatim>\<open>mm_pma_allocate_frame\<close> succeeds, returns the lowest
  such run, makes exactly its frames allocated and keeps the counters equal to the bitmap;
  otherwise it reports insufficient memory and changes nothing.  It never faults.
\<close>

theorem mm_pma_allocate_frame_correct:
  assumes inv: "pma_inv p" and c: "0 < count"
  shows "if \<exists>s. free_run p s (unat count)
     then \<exists>s p'. mm_pma_allocate_frame count p = Ok (STATUS_SUCCESS, Some (pma_base_pfn p + of_nat s), p') \<and>
            free_run p s (unat count) \<and> (\<forall>s' < s. \<not> free_run p s' (unat count)) \<and>
            frames_to p (\<lambda>j. if s \<le> j \<and> j < s + unat count then PBM_ALLOCATED else frame_state p j) p'
     else mm_pma_allocate_frame count p = Ok (STATUS_INSUFFICIENT_MEMORY, None, p)"
  using assms by (rule allocate_frame_spec)

theorem mm_pma_allocate_frame_witness:
  "free_run pma_example 2 3 \<and>
   (\<exists>s p'. mm_pma_allocate_frame 3 pma_example = Ok (STATUS_SUCCESS, Some (pma_base_pfn pma_example + of_nat s), p') \<and>
      free_run pma_example s 3 \<and> (\<forall>s' < s. \<not> free_run pma_example s' 3) \<and>
      frames_to pma_example (\<lambda>j. if s \<le> j \<and> j < s + 3 then PBM_ALLOCATED else frame_state pma_example j) p')"
proof -
  have "free_run pma_example 2 3" unfolding free_run_code by code_simp
  then show ?thesis
    using mm_pma_allocate_frame_correct [OF pma_example_inv, of 3] by (auto split: if_splits)
qed

text \<open>
  C2: What a release does, for every frame number and every count.  When the range lies in the
  managed frames and all its frames are allocated, it becomes free, no other frame changes, and the
  counters stay exact.  A range outside the managed frames, or one that holds a frame that is not
  allocated (a double free, a reserved frame), panics with \<^verbatim>\<open>STATUS_CONFLICTING_STATE\<close>; but when
  \<^verbatim>\<open>pfn + frame_count\<close> wraps around 32 bits the range check at \<^verbatim>\<open>pma.c:296\<close> is deceived: a sum that
  wraps below the managed base passes it and the call never returns normally (the loop leaves the
  bitmap, or panics on the way), and a sum that wraps into the managed range passes it and the call
  returns having freed nothing.
\<close>

theorem mm_pma_free_frame_correct:
  fixes pfn n :: u32
  assumes inv: "pma_inv p"
  defines "a \<equiv> unat pfn - unat (pma_base_pfn p)" and "e \<equiv> unat pfn + unat n"
  shows "if pma_base_pfn p \<le> pfn \<and> e \<le> unat (pma_limit_pfn p) + 1 \<and>
            (\<forall>j. a \<le> j \<and> j < a + unat n \<longrightarrow> frame_state p j = PBM_ALLOCATED)
     then \<exists>p'. mm_pma_free_frame pfn n p = Ok p' \<and>
            frames_to p (\<lambda>j. if a \<le> j \<and> j < a + unat n then PBM_FREE else frame_state p j) p'
     else if pma_base_pfn p \<le> pfn \<and> 2 ^ 32 \<le> e \<and> e < 2 ^ 32 + unat (pma_base_pfn p)
     then \<forall>r. mm_pma_free_frame pfn n p \<noteq> Ok r
     else if pma_base_pfn p \<le> pfn \<and> 2 ^ 32 \<le> e \<and> e \<le> 2 ^ 32 + unat (pma_limit_pfn p) + 1
     then mm_pma_free_frame pfn n p = Ok p
     else mm_pma_free_frame pfn n p = Panic STATUS_CONFLICTING_STATE"
proof (cases "e < 2 ^ 32")
  case True
  then show ?thesis
    using free_frame_spec [OF inv, of pfn n] unfolding a_def e_def by auto
next
  case False
  moreover have "unat (pma_limit_pfn p) + 1 < 2 ^ 32"
    using inv by (auto simp: pma_inv_def word_less_nat_alt)
  ultimately show ?thesis
    using free_frame_wrapped [OF inv, of pfn n] unfolding e_def by (auto split: if_splits)
qed

theorem mm_pma_free_frame_witness:
  "frame_state pma_example 1 = PBM_ALLOCATED \<and>
   (\<exists>p'. mm_pma_free_frame 0x101 1 pma_example = Ok p' \<and> frames_to pma_example
      (\<lambda>j. if 1 \<le> j \<and> j < 1 + 1 then PBM_FREE else frame_state pma_example j) p') \<and>
   mm_pma_free_frame 0x100 1 pma_example = Panic STATUS_CONFLICTING_STATE \<and>
   (\<forall>r. mm_pma_free_frame 0xFFFFFFFF 1 pma_example \<noteq> Ok r) \<and>
   mm_pma_free_frame 0x101 0xFFFFFFFF pma_example = Ok pma_example"
proof -
  have ex: "frame_state pma_example 1 = PBM_ALLOCATED" "frame_state pma_example 0 = PBM_RESERVED"
    "pma_base_pfn pma_example = 0x100" "pma_limit_pfn pma_example = 0x107" by code_simp+
  show ?thesis
    using mm_pma_free_frame_correct [OF pma_example_inv, of "0x101" 1]
      mm_pma_free_frame_correct [OF pma_example_inv, of "0x100" 1]
      mm_pma_free_frame_correct [OF pma_example_inv, of "0xFFFFFFFF" 1]
      mm_pma_free_frame_correct [OF pma_example_inv, of "0x101" "0xFFFFFFFF"] ex
    by (auto simp: less_Suc_eq_le dest!: le_antisym split: if_splits)
qed

text \<open>
  C8: Reserving a range of frames that meets the managed range reserves exactly the managed
  frames in it, whatever their state was, and keeps the counters exact.
\<close>

theorem mm_pma_mark_reserved_correct:
  assumes "pma_inv p" and "base \<le> limit" and "base \<le> pma_limit_pfn p" "pma_base_pfn p \<le> limit"
  shows "\<exists>p'. mm_pma_mark_reserved base limit p = Ok (STATUS_SUCCESS, p') \<and>
    frames_to p (\<lambda>j. if base \<le> pma_base_pfn p + of_nat j \<and> pma_base_pfn p + of_nat j \<le> limit
                     then PBM_RESERVED else frame_state p j) p'"
proof -
  have w: "unat (pma_base_pfn p + of_nat j) = unat (pma_base_pfn p) + j" if "j < frame_count p" for j
    using that assms(1) pma_inv_frame_count [OF assms(1)]
    by (simp add: pma_inv_def unat_word_ariths word_less_nat_alt word_le_nat_alt)
  let ?a = "max (unat base) (unat (pma_base_pfn p)) - unat (pma_base_pfn p)"
  let ?b = "min (unat limit) (unat (pma_limit_pfn p)) - unat (pma_base_pfn p)"
  have "(?a \<le> j \<and> j \<le> ?b) = (base \<le> pma_base_pfn p + of_nat j \<and> pma_base_pfn p + of_nat j \<le> limit)"
    if j: "j < frame_count p" for j
  proof -
    have "unat (pma_base_pfn p) + j \<le> unat (pma_limit_pfn p)"
      using j assms(1) by (auto simp: pma_inv_def word_le_nat_alt)
    then show ?thesis using w [OF j] assms(4) by (auto simp: word_le_nat_alt)
  qed
  then show ?thesis
    using mark_reserved_range [OF assms] by (auto elim!: frames_to_cong)
qed

theorem mm_pma_mark_reserved_witness:
  "\<exists>p'. mm_pma_mark_reserved 0xF0 0x101 pma_example = Ok (STATUS_SUCCESS, p') \<and>
    frames_to pma_example (\<lambda>j. if 0xF0 \<le> pma_base_pfn pma_example + of_nat j \<and>
                                  pma_base_pfn pma_example + of_nat j \<le> 0x101
                               then PBM_RESERVED else frame_state pma_example j) p'"
  using mm_pma_mark_reserved_correct [OF pma_example_inv, of "0xF0" "0x101"]
  by (simp add: pma_example_def)

text \<open>
  Reserving a range that lies wholly below the managed frames never returns: the unsigned
  difference of the limit and the base wraps around and the loop walks past the bitmap.
\<close>

theorem mm_pma_mark_reserved_below_range:
  assumes "pma_inv p" and "base \<le> limit" and "limit < pma_base_pfn p"
  shows "mm_pma_mark_reserved base limit p \<noteq> Ok r"
  using assms by (rule mark_reserved_below)

theorem mm_pma_mark_reserved_below_range_witness:
  "mm_pma_mark_reserved 0x10 0x20 pma_example \<noteq> Ok (STATUS_SUCCESS, pma_example)"
  using mm_pma_mark_reserved_below_range [OF pma_example_inv, of "0x10" "0x20"]
  by (simp add: pma_example_def)

text \<open>
  C3: Allocating frames and then freeing the same frames succeeds and gives back the state of
  every frame, and both counters, of before.
\<close>

theorem pma_allocate_free_roundtrip:
  assumes inv: "pma_inv p" and c: "0 < count"
    and al: "mm_pma_allocate_frame count p = Ok (STATUS_SUCCESS, Some pfn, p1)"
  shows "\<exists>p2. mm_pma_free_frame pfn count p1 = Ok p2 \<and> frames_to p (frame_state p) p2 \<and>
    pma_free_frames p2 = pma_free_frames p \<and> pma_available_frames p2 = pma_available_frames p"
proof -
  obtain s where s: "pfn = pma_base_pfn p + of_nat s" "free_run p s (unat count)"
    and to1: "frames_to p (\<lambda>j. if s \<le> j \<and> j < s + unat count then PBM_ALLOCATED else frame_state p j) p1"
    using allocate_frame_spec [OF inv c] al by (auto split: if_splits)
  have bound: "s + unat count \<le> frame_count p"
    using free_run_bound [OF s(2)] c by (simp add: word_less_nat_alt)
  have us: "unat pfn = unat (pma_base_pfn p) + s"
    using inv bound pma_inv_frame_count [OF inv] s(1)
    by (simp add: pma_inv_def unat_word_ariths word_less_nat_alt word_le_nat_alt)
  have p1: "pma_inv p1" "same_range p1 p"
    and st1: "\<forall>j < frame_count p. frame_state p1 j = (if s \<le> j \<and> j < s + unat count then PBM_ALLOCATED else frame_state p j)"
    using to1 by (auto simp: frames_to_def)
  have base: "pma_base_pfn p1 = pma_base_pfn p" "pma_limit_pfn p1 = pma_limit_pfn p"
    using p1(2) by (simp_all add: same_range_def)
  have room: "unat pfn + unat count \<le> unat (pma_limit_pfn p) + 1" "unat (pma_limit_pfn p) < 1048576"
    using bound us inv by (auto simp: pma_inv_def word_less_nat_alt word_le_nat_alt)
  have nowrap: "unat pfn + unat count < 2 ^ 32" using room by simp
  have off: "unat pfn - unat (pma_base_pfn p1) = s" using us base by simp
  have ge: "pma_base_pfn p1 \<le> pfn" using us base by (simp add: word_le_nat_alt)
  have all: "\<forall>j. s \<le> j \<and> j < s + unat count \<longrightarrow> frame_state p1 j = PBM_ALLOCATED"
    using st1 bound by auto
  have "\<exists>p2. mm_pma_free_frame pfn count p1 = Ok p2 \<and>
      frames_to p1 (\<lambda>j. if s \<le> j \<and> j < s + unat count then PBM_FREE else frame_state p1 j) p2"
    using free_frame_spec [OF p1(1) nowrap] off ge all room(1) base(2) by simp
  then obtain p2 where p2: "mm_pma_free_frame pfn count p1 = Ok p2"
      "frames_to p1 (\<lambda>j. if s \<le> j \<and> j < s + unat count then PBM_FREE else frame_state p1 j) p2" by blast
  have restored: "frames_to p (frame_state p) p2"
    using p2(2) p1(2) st1 s(2) by (auto simp: frames_to_def same_range_def free_run_def elig_def)
  then show ?thesis using p2(1) frames_to_counters [OF inv restored] by auto
qed

theorem pma_allocate_free_roundtrip_witness:
  "\<exists>p1 p2. mm_pma_allocate_frame 2 pma_example = Ok (STATUS_SUCCESS, Some 0x102, p1) \<and>
     mm_pma_free_frame 0x102 2 p1 = Ok p2 \<and> frames_to pma_example (frame_state pma_example) p2"
proof -
  have "case mm_pma_allocate_frame 2 pma_example of
      Ok r \<Rightarrow> fst r = STATUS_SUCCESS \<and> fst (snd r) = Some 0x102 | _ \<Rightarrow> False"
    by code_simp
  from outcome_case_Ok [OF this]
  obtain p1 where "mm_pma_allocate_frame 2 pma_example = Ok (STATUS_SUCCESS, Some 0x102, p1)"
    by auto
  then show ?thesis using pma_allocate_free_roundtrip [OF pma_example_inv, of 2] by auto
qed

end
