(* ===== verification/PmaInit.thy ===== *)
theory PmaInit
  imports Pma
begin

text \<open>
  The initialisation of the kernel's frame allocator, \<^verbatim>\<open>pma_allocate_bitmap_frame\<close>,
  \<^verbatim>\<open>pma_bitmap_init\<close> and \<^verbatim>\<open>mm_pma_init\<close> of \<^verbatim>\<open>kernel/mm/pma.c\<close>: the range of free memory, the
  frames that hold the bitmap, the page table that maps it, and the first reservations.
\<close>

section \<open>Initialisation\<close>

text \<open>
  The boot information: memory map entries and the list of frames that the boot loader uses
  (raw 64-bit entries whose low 52 bits are the frame number).
\<close>

record memory_map_entry =
  mme_base :: u64
  mme_size :: u64
  mme_type :: u32

abbreviation (input) BEMT_FREE :: u32 where "BEMT_FREE \<equiv> 1"

definition uf_pfn :: "u64 \<Rightarrow> u64" where
  "uf_pfn e = take_bit 52 e"

text \<open>\<^verbatim>\<open>ALIGN_DIV(pma_bitmap_size, PAGE_SIZE)\<close>: the number of frames the bitmap needs.\<close>

definition bitmap_frames_needed :: "pma \<Rightarrow> u32" where
  "bitmap_frames_needed p = ALIGN_DIV (pma_bitmap_size p) PAGE_SIZE"

text \<open>The inner loop of \<^verbatim>\<open>pma_allocate_bitmap_frame\<close>: it stores at most 64 frame numbers.\<close>

function bitmap_frame_fill :: "u32 \<Rightarrow> u64 \<Rightarrow> pma \<Rightarrow> pma outcome" where
  "bitmap_frame_fill pfn lim p =
     (if ucast pfn < lim then
        if unat (pma_bitmap_pfn_count p) < 64 \<and> unat (pma_bitmap_pfn_count p) < length (pma_bitmap_pfn_list p) then
          let p' = p\<lparr>pma_bitmap_pfn_list := (pma_bitmap_pfn_list p)[unat (pma_bitmap_pfn_count p) := pfn],
                     pma_bitmap_pfn_count := pma_bitmap_pfn_count p + 1\<rparr>
          in if bitmap_frames_needed p' \<le> pma_bitmap_pfn_count p' then Ok p'
             else if 64 \<le> pma_bitmap_pfn_count p' then Ok p'
             else bitmap_frame_fill (pfn + 1) lim p'
        else Fault
      else Ok p)"
  by pat_completeness auto
termination
  by (relation "measure (\<lambda>(pfn, lim, p). 64 - unat (pma_bitmap_pfn_count p))")
    (auto simp: unat_word_ariths)

declare bitmap_frame_fill.simps [simp del]

fun pma_allocate_bitmap_frame :: "u32 \<Rightarrow> u32 \<Rightarrow> u64 list \<Rightarrow> pma \<Rightarrow> pma outcome" where
  "pma_allocate_bitmap_frame base_pfn limit_pfn [] p = Ok p"
| "pma_allocate_bitmap_frame base_pfn limit_pfn (e # es) p =
     (if uf_pfn e < ucast base_pfn then pma_allocate_bitmap_frame base_pfn limit_pfn es p
      else if limit_pfn < base_pfn then Ok p
      else if bitmap_frames_needed p \<le> pma_bitmap_pfn_count p then Ok p
      else if 64 \<le> pma_bitmap_pfn_count p then Ok p
      else obind (bitmap_frame_fill base_pfn (uf_pfn e) p)
             (pma_allocate_bitmap_frame (ucast (uf_pfn e + 1)) limit_pfn es))"

definition memory_range_step :: "memory_map_entry \<Rightarrow> u32 \<times> u32 \<Rightarrow> u32 \<times> u32" where
  "memory_range_step e = (\<lambda>(base_paddr, limit_paddr).
     if mme_type e \<noteq> BEMT_FREE then (base_paddr, limit_paddr)
     else ((if base_paddr = -1 then ucast (mme_base e) else base_paddr),
           (if ucast limit_paddr < mme_base e + mme_size e - 1
            then ucast (mme_base e + mme_size e - 1) else limit_paddr)))"

definition memory_range :: "memory_map_entry list \<Rightarrow> u32 \<times> u32" where
  "memory_range mment = fold memory_range_step mment (-1, 0)"

fun bitmap_frames_from_map :: "memory_map_entry list \<Rightarrow> u64 list \<Rightarrow> pma \<Rightarrow> pma outcome" where
  "bitmap_frames_from_map [] ufent p = Ok p"
| "bitmap_frames_from_map (e # es) ufent p =
     (if mme_base e < 0x00100000 then bitmap_frames_from_map es ufent p
      else if mme_type e \<noteq> BEMT_FREE then bitmap_frames_from_map es ufent p
      else obind (pma_allocate_bitmap_frame (ucast (mme_base e div 4096))
                    (ucast ((mme_base e + mme_size e) div 4096)) ufent p)
             (\<lambda>p'. if bitmap_frames_needed p' \<le> pma_bitmap_pfn_count p' then Ok p'
                   else bitmap_frames_from_map es ufent p'))"

text \<open>
  The \<^verbatim>\<open>unmap lower area\<close> loop over the page directory: the entry is cleared before its frame
  number is read back.
\<close>

fun unmap_lower_area :: "nat list \<Rightarrow> u32 list \<Rightarrow> pma \<Rightarrow> (status \<times> u32 list \<times> pma) outcome" where
  "unmap_lower_area [] pd p = Ok (STATUS_SUCCESS, pd, p)"
| "unmap_lower_area (i # is) pd p =
     (if \<not> entry_p (pd ! i) then unmap_lower_area is pd p
      else
        let pd' = pd[i := 0] in
        obind (mm_pma_unmark_reserved (entry_base (pd' ! i)) (entry_base (pd' ! i)) p)
          (\<lambda>(st, p'). if \<not> CHECK_SUCCESS st then Ok (st, pd', p')
                     else unmap_lower_area is pd' p'))"

text \<open>
  \<^verbatim>\<open>pma_bitmap_init\<close>: \<open>bpt\<close> is the frame of \<^verbatim>\<open>pma_bitmap_page_table\<close> read through the
  recursive mapping, \<open>pd\<close> the page directory (1024 raw entries), the last component of the
  result the page table that maps the bitmap.  Until the final assignment \<^verbatim>\<open>pma_bitmap\<close> is the
  null pointer of its static storage, so the bitmap of the state passed in is empty.
\<close>

definition pma_bitmap_init ::
  "u32 \<Rightarrow> memory_map_entry list \<Rightarrow> u64 list \<Rightarrow> u32 list \<Rightarrow> pma
     \<Rightarrow> (status \<times> pma \<times> u32 list \<times> u32 list) outcome" where
  "pma_bitmap_init bpt mment ufent pd p =
     (let (base_paddr, limit_paddr) = memory_range mment;
          base_pfn = base_paddr div PAGE_SIZE; limit_pfn = limit_paddr div PAGE_SIZE;
          desc_count = limit_pfn - base_pfn + 1;
          p1 = p\<lparr>pma_frame_desc_count := desc_count, pma_available_frames := desc_count,
                 pma_free_frames := desc_count, pma_bitmap_size := (desc_count + 3) div 4,
                 pma_base_pfn := base_pfn, pma_limit_pfn := limit_pfn,
                 pma_bitmap_pfn_count := 0\<rparr>
      in obind (bitmap_frames_from_map mment ufent p1) (\<lambda>p2.
        if pma_bitmap_pfn_count p2 < bitmap_frames_needed p2 then Hang
        else
          let p3 = p2\<lparr>pma_bitmap_pfn_count := bitmap_frames_needed p2\<rparr>;
              pd1 = pd[0x301 := set_entry_bit RW_BIT (set_entry_bit P_BIT (set_entry_base bpt (pd ! 0x301)))];
              n = unat (pma_bitmap_pfn_count p3)
          in if length (pma_bitmap_pfn_list p3) < n then Fault
             else
               let pt = map (\<lambda>b. set_entry_bit RW_BIT (set_entry_bit P_BIT (set_entry_base b 0)))
                          (take n (pma_bitmap_pfn_list p3)) @ replicate (1024 - n) 0
               in obind (unmap_lower_area [1 ..< 768] pd1 p3) (\<lambda>(st, pd2, p4).
                    if \<not> CHECK_SUCCESS st then Ok (st, p4, pd2, pt)
                    else Ok (STATUS_SUCCESS,
                             p4\<lparr>pma_bitmap := replicate (unat (pma_bitmap_size p4)) 0\<rparr>, pd2, pt))))"

fun mark_frames :: "u32 list \<Rightarrow> pma \<Rightarrow> (status \<times> pma) outcome" where
  "mark_frames [] p = Ok (STATUS_SUCCESS, p)"
| "mark_frames (f # fs) p = obind (mm_pma_mark_reserved f f p)
     (\<lambda>(st, p'). if \<not> CHECK_SUCCESS st then Ok (st, p') else mark_frames fs p')"

fun mark_unavailable :: "u64 list \<Rightarrow> pma \<Rightarrow> (status \<times> pma) outcome" where
  "mark_unavailable [] p = Ok (STATUS_SUCCESS, p)"
| "mark_unavailable (e # es) p =
     (if uf_pfn e < ucast (pma_base_pfn p) then mark_unavailable es p
      else if ucast (pma_limit_pfn p) < uf_pfn e then Ok (STATUS_SUCCESS, p)
      else obind (mm_pma_mark_reserved (ucast (uf_pfn e)) (ucast (uf_pfn e)) p)
             (\<lambda>(st, p'). if \<not> CHECK_SUCCESS st then Ok (st, p') else mark_unavailable es p'))"

definition mm_pma_init ::
  "u32 \<Rightarrow> memory_map_entry list \<Rightarrow> u64 list \<Rightarrow> u32 list \<Rightarrow> pma
     \<Rightarrow> (status \<times> pma \<times> u32 list \<times> u32 list) outcome" where
  "mm_pma_init bpt mment ufent pd p =
     obind (pma_bitmap_init bpt mment ufent pd p) (\<lambda>(st, p1, pd1, pt).
       if \<not> CHECK_SUCCESS st then Ok (st, p1, pd1, pt)
       else obind (mark_frames (take (unat (pma_bitmap_pfn_count p1)) (pma_bitmap_pfn_list p1)) p1)
         (\<lambda>(st, p2). if \<not> CHECK_SUCCESS st then Ok (st, p2, pd1, pt)
           else obind (mark_unavailable ufent p2) (\<lambda>(st, p3). Ok (st, p3, pd1, pt))))"

section \<open>Auxiliary notions\<close>

definition same_core :: "pma \<Rightarrow> pma \<Rightarrow> bool" where
  "same_core p' p \<longleftrightarrow>
     pma_bitmap p' = pma_bitmap p \<and> pma_bitmap_size p' = pma_bitmap_size p \<and>
     pma_frame_desc_count p' = pma_frame_desc_count p \<and>
     pma_available_frames p' = pma_available_frames p \<and> pma_free_frames p' = pma_free_frames p \<and>
     pma_base_pfn p' = pma_base_pfn p \<and> pma_limit_pfn p' = pma_limit_pfn p"

text \<open>Marking one frame, in terms of the whole range.\<close>

definition reserve_in :: "pma \<Rightarrow> nat set \<Rightarrow> nat \<Rightarrow> u8" where
  "reserve_in p F j = (if unat (pma_base_pfn p) + j \<in> F then PBM_RESERVED else frame_state p j)"

text \<open>
  The entries of the list of unavailable frames that the last loop of \<^verbatim>\<open>mm_pma_init\<close> gets to: those
  before the first one above the highest managed frame, where it breaks off.
\<close>

definition entries_before_break :: "u32 \<Rightarrow> u64 list \<Rightarrow> u64 list" where
  "entries_before_break limit = takeWhile (\<lambda>e. uf_pfn e \<le> ucast limit)"

definition pma_init_map :: "memory_map_entry list" where
  "pma_init_map = [\<lparr>mme_base = 0x100000, mme_size = 0x40000, mme_type = 1\<rparr>]"

definition pma_init_state :: pma where
  "pma_init_state = \<lparr>pma_bitmap_pfn_list = replicate 64 0, pma_bitmap_pfn_count = 0,
     pma_bitmap = [], pma_bitmap_size = 0, pma_frame_desc_count = 0,
     pma_available_frames = 0, pma_free_frames = 0, pma_base_pfn = 0, pma_limit_pfn = 0\<rparr>"

definition pma_init_collected :: pma where
  "pma_init_collected = pma_init_state\<lparr>pma_frame_desc_count := 64, pma_available_frames := 64,
     pma_free_frames := 64, pma_bitmap_size := 16, pma_base_pfn := 0x100, pma_limit_pfn := 0x13F,
     pma_bitmap_pfn_count := 1, pma_bitmap_pfn_list := 0x100 # replicate 63 0\<rparr>"

section \<open>Lemmas\<close>

lemma bitmap_frame_fill_core: "bitmap_frame_fill pfn lim p = Ok p' \<Longrightarrow> same_core p' p"
proof (induction pfn lim p rule: bitmap_frame_fill.induct)
  case (1 pfn lim p)
  then show ?case
    by (subst (asm) (2) bitmap_frame_fill.simps)
      (fastforce simp: same_core_def Let_def split: if_splits)
qed

lemma pma_allocate_bitmap_frame_core:
  "pma_allocate_bitmap_frame b l ufent p = Ok p' \<Longrightarrow> same_core p' p"
proof (induction b l ufent p rule: pma_allocate_bitmap_frame.induct)
  case 1
  then show ?case by (simp add: same_core_def)
next
  case (2 b l e es p)
  then show ?case
    using bitmap_frame_fill_core [of b "uf_pfn e" p]
    by (fastforce simp: same_core_def outcome_simps split: if_splits)
qed

lemma bitmap_frames_from_map_core:
  "bitmap_frames_from_map mment ufent p = Ok p' \<Longrightarrow> same_core p' p"
proof (induction mment ufent p rule: bitmap_frames_from_map.induct)
  case 1
  then show ?case by (simp add: same_core_def)
next
  case (2 e es ufent p)
  then show ?case
    using pma_allocate_bitmap_frame_core
    by (fastforce simp: same_core_def outcome_simps split: if_splits)
qed

lemma unmark_null_bitmap:
  "pma_bitmap p = [] \<Longrightarrow> mm_pma_unmark_reserved 0 0 p = Fault"
  by (simp add: mm_pma_unmark_reserved_def for_le_def Let_def unmark_reserved_step_def PBM_GET_def
      upt_conv_Cons del: upt_Suc)

lemma unmap_lower_area_null_bitmap:
  assumes "pma_bitmap p = []" "\<forall>i \<in> set is. i < length pd"
  shows "unmap_lower_area is pd p =
    (if \<exists>i \<in> set is. entry_p (pd ! i) then Fault else Ok (STATUS_SUCCESS, pd, p))"
  using assms by (induction "is" pd p rule: unmap_lower_area.induct)
    (auto simp: Let_def entry_base_def unmark_null_bitmap)

lemma frame_state_zero:
  "pma_bitmap p = replicate n 0 \<Longrightarrow> i < 4 * n \<Longrightarrow> frame_state p i = PBM_FREE"
  by (auto simp: frame_state_def)

lemma pma_inv_fresh:
  assumes "pma_base_pfn p \<le> pma_limit_pfn p" "pma_limit_pfn p < 2 ^ 20"
    and "pma_frame_desc_count p = pma_limit_pfn p - pma_base_pfn p + 1"
    and "pma_available_frames p = pma_frame_desc_count p" "pma_free_frames p = pma_frame_desc_count p"
    and "pma_bitmap p = replicate (unat ((pma_frame_desc_count p + 3) div 4)) 0"
  shows "pma_inv p \<and> (\<forall>j < frame_count p. frame_state p j = PBM_FREE)"
proof -
  have fc: "frame_count p = unat (pma_limit_pfn p) - unat (pma_base_pfn p) + 1"
    using assms(1-3) by (simp add: unat_word_ariths unat_sub word_le_nat_alt word_less_nat_alt)
  have len: "unat ((pma_frame_desc_count p + 3) div 4) = (frame_count p + 3) div 4"
    using fc assms(2) by (simp add: unat_div unat_word_ariths word_less_nat_alt)
  have st: "frame_state p j = PBM_FREE" if "j < frame_count p" for j
    using that by (intro frame_state_zero [OF assms(6)]) (simp add: len)
  have "{i. i < frame_count p \<and> Q (frame_state p i)} = (if Q 0 then {..< frame_count p} else {})" for Q
    using st by auto
  then have "count_frames Q p = (if Q 0 then frame_count p else 0)" for Q
    by (simp add: count_frames_def)
  then show ?thesis
    using assms fc len st by (simp add: pma_inv_def)
qed

lemma pma_bitmap_init_ok:
  assumes ok: "pma_bitmap_init bpt mment ufent pd p = Ok (st, p', pd', pt)"
    and null: "pma_bitmap p = []" and pd: "length pd = 1024"
    and range: "memory_range mment = (b, l)" "b div PAGE_SIZE \<le> l div PAGE_SIZE"
  shows "st = STATUS_SUCCESS" "pma_inv p'" "\<forall>j < frame_count p'. frame_state p' j = PBM_FREE"
    and "\<forall>i. 1 \<le> i \<and> i < 768 \<longrightarrow> \<not> entry_p (pd ! i)"
proof -
  let ?d = "l div PAGE_SIZE - b div PAGE_SIZE + 1"
  let ?p1 = "p\<lparr>pma_frame_desc_count := ?d, pma_available_frames := ?d, pma_free_frames := ?d,
     pma_bitmap_size := (?d + 3) div 4, pma_base_pfn := b div PAGE_SIZE,
     pma_limit_pfn := l div PAGE_SIZE, pma_bitmap_pfn_count := 0\<rparr>"
  let ?pd = "pd[0x301 := set_entry_bit RW_BIT (set_entry_bit P_BIT (set_entry_base bpt (pd ! 0x301)))]"
  obtain p2 where p2: "bitmap_frames_from_map mment ufent ?p1 = Ok p2"
    using ok range(1) by (auto simp: pma_bitmap_init_def Let_def outcome_simps)
  let ?p3 = "p2\<lparr>pma_bitmap_pfn_count := bitmap_frames_needed p2\<rparr>"
  have core: "same_core p2 ?p1" using bitmap_frames_from_map_core [OF p2] .
  have um: "unmap_lower_area [1 ..< 768] ?pd ?p3 =
    (if \<exists>i \<in> set [1 ..< 768]. entry_p (?pd ! i) then Fault else Ok (STATUS_SUCCESS, ?pd, ?p3))"
    using core null pd by (intro unmap_lower_area_null_bitmap) (auto simp: same_core_def)
  have p': "st = STATUS_SUCCESS \<and> p' = ?p3\<lparr>pma_bitmap := replicate (unat (pma_bitmap_size p2)) 0\<rparr> \<and>
      \<not> (\<exists>i \<in> set [1 ..< 768]. entry_p (?pd ! i))"
    using ok range(1) p2 um by (simp add: pma_bitmap_init_def Let_def outcome_simps split: if_splits)
  then show "st = STATUS_SUCCESS" by simp
  show "\<forall>i. 1 \<le> i \<and> i < 768 \<longrightarrow> \<not> entry_p (pd ! i)"
  proof (intro allI impI)
    fix i :: nat assume "1 \<le> i \<and> i < 768"
    then show "\<not> entry_p (pd ! i)" using p' by (auto dest: bspec [of _ _ i])
  qed
  have "l div PAGE_SIZE < 2 ^ 20"
    using unat_u32_less [of l] by (simp add: word_less_nat_alt unat_div div_less_iff_less_mult)
  then have "pma_inv p' \<and> (\<forall>j < frame_count p'. frame_state p' j = PBM_FREE)"
    using p' core range(2) by (intro pma_inv_fresh) (auto simp: same_core_def)
  then show "pma_inv p'" "\<forall>j < frame_count p'. frame_state p' j = PBM_FREE" by auto
qed

lemma mark_one:
  assumes inv: "pma_inv p" and ok: "mm_pma_mark_reserved f f p = Ok (st, p')"
  shows "st = STATUS_SUCCESS \<and> frames_to p (reserve_in p {unat f}) p'"
proof (cases "f < pma_base_pfn p")
  case True
  then show ?thesis using mark_reserved_below [OF inv, of f f] ok by auto
next
  case ge: False
  show ?thesis
  proof (cases "pma_limit_pfn p < f")
    case True
    have "unat (pma_limit_pfn p - pma_base_pfn p) < unat (f - pma_base_pfn p)"
      using True ge inv by (auto simp: pma_inv_def unat_sub word_le_nat_alt word_less_nat_alt)
    then have "[unat (f - pma_base_pfn p) ..< Suc (unat (pma_limit_pfn p - pma_base_pfn p))] = []"
      by simp
    then have "st = STATUS_SUCCESS \<and> p' = p"
      using ok True ge by (simp add: mm_pma_mark_reserved_def for_le_def Let_def split: if_splits del: upt_Suc)
    then show ?thesis
      using inv True
      by (auto simp: frames_to_def same_range_def reserve_in_def pma_inv_def word_le_nat_alt word_less_nat_alt)
  next
    case False
    have mm: "max (unat f) (unat (pma_base_pfn p)) = unat f" "min (unat f) (unat (pma_limit_pfn p)) = unat f"
      using False ge by (auto simp: word_less_nat_alt)
    obtain q where q: "mm_pma_mark_reserved f f p = Ok (STATUS_SUCCESS, q)"
      "frames_to p (\<lambda>j. if unat f - unat (pma_base_pfn p) \<le> j \<and> j \<le> unat f - unat (pma_base_pfn p)
                       then PBM_RESERVED else frame_state p j) q"
      using mark_reserved_range [OF inv, of f f] False ge unfolding mm by (auto simp: not_less)
    have "(unat f - unat (pma_base_pfn p) \<le> j \<and> j \<le> unat f - unat (pma_base_pfn p)) =
        (unat (pma_base_pfn p) + j = unat f)" for j
      using ge by (auto simp: word_less_nat_alt)
    then show ?thesis using q ok by (simp add: frames_to_def reserve_in_def)
  qed
qed

lemma reserve_in_trans:
  assumes "frames_to p (reserve_in p F) p1" "frames_to p1 (reserve_in p1 G) p2"
  shows "frames_to p (reserve_in p (F \<union> G)) p2"
  using assms by (auto simp: frames_to_def same_range_def reserve_in_def)

lemma mark_frames_ok:
  "mark_frames fs p = Ok (st, p') \<Longrightarrow> pma_inv p \<Longrightarrow>
     st = STATUS_SUCCESS \<and> frames_to p (reserve_in p (unat ` set fs)) p'"
proof (induction fs p rule: mark_frames.induct)
  case (1 p)
  then show ?case by (auto simp: frames_to_def same_range_def reserve_in_def)
next
  case (2 f fs p)
  then obtain st1 p1 where m: "mm_pma_mark_reserved f f p = Ok (st1, p1)"
    by (auto simp: outcome_simps)
  have one: "st1 = STATUS_SUCCESS" "frames_to p (reserve_in p {unat f}) p1"
    using mark_one [OF "2.prems"(2) m] by auto
  have "st = STATUS_SUCCESS \<and> frames_to p1 (reserve_in p1 (unat ` set fs)) p'"
    using "2.IH" [OF m refl] "2.prems" m one by (auto simp: frames_to_def)
  then show ?case using reserve_in_trans [OF one(2)] by auto
qed

lemma uf_pfn_small:
  assumes "\<not> ucast (l :: u32) < uf_pfn e"
  shows "unat (ucast (uf_pfn e) :: u32) = unat (uf_pfn e)"
proof -
  have "unat (uf_pfn e) \<le> unat l"
    using assms unat_u32_less [of l] by (simp add: word_less_nat_alt unsigned_ucast_eq take_bit_nat_eq_self)
  then have "unat (uf_pfn e) < 2 ^ 32" using unat_u32_less [of l] by simp
  then show ?thesis by (simp add: unsigned_ucast_eq take_bit_nat_eq_self)
qed

lemma unat_ucast_u32_u64 [simp]: "unat (ucast (w :: u32) :: u64) = unat w"
  using unat_u32_less [of w] by (simp add: unsigned_ucast_eq take_bit_nat_eq_self)

lemma mark_unavailable_ok:
  "mark_unavailable es p = Ok (st, p') \<Longrightarrow> pma_inv p \<Longrightarrow>
     st = STATUS_SUCCESS \<and>
     frames_to p (reserve_in p (unat ` uf_pfn ` set (entries_before_break (pma_limit_pfn p) es))) p'"
proof (induction es p rule: mark_unavailable.induct)
  case (1 p)
  then show ?case by (auto simp: frames_to_def same_range_def reserve_in_def entries_before_break_def)
next
  case (2 e es p)
  have bl: "unat (pma_base_pfn p) \<le> unat (pma_limit_pfn p)"
    using "2.prems"(2) by (auto simp: pma_inv_def word_le_nat_alt)
  consider (below) "uf_pfn e < ucast (pma_base_pfn p)"
    | (above) "\<not> uf_pfn e < ucast (pma_base_pfn p)" "ucast (pma_limit_pfn p) < uf_pfn e"
    | (within) "\<not> uf_pfn e < ucast (pma_base_pfn p)" "\<not> ucast (pma_limit_pfn p) < uf_pfn e" by blast
  then show ?case
  proof cases
    case below
    have "frames_to p (reserve_in p (unat ` uf_pfn ` set (entries_before_break (pma_limit_pfn p) es))) p'"
      "st = STATUS_SUCCESS"
      using "2.IH"(1) [OF below] "2.prems" below by auto
    moreover have "uf_pfn e \<le> ucast (pma_limit_pfn p)"
      using below bl by (simp add: word_less_nat_alt word_le_nat_alt)
    ultimately show ?thesis using below
      by (auto simp: frames_to_def reserve_in_def word_less_nat_alt entries_before_break_def)
  next
    case above
    then show ?thesis using "2.prems"
      by (auto simp: frames_to_def same_range_def reserve_in_def entries_before_break_def)
  next
    case within
    let ?f = "ucast (uf_pfn e) :: u32"
    obtain st1 p1 where m: "mm_pma_mark_reserved ?f ?f p = Ok (st1, p1)"
      using "2.prems"(1) within by (auto simp: outcome_simps)
    have one: "st1 = STATUS_SUCCESS" "frames_to p (reserve_in p {unat (uf_pfn e)}) p1"
      using mark_one [OF "2.prems"(2) m] uf_pfn_small [OF within(2)] by auto
    then have lim: "pma_limit_pfn p1 = pma_limit_pfn p" by (simp add: frames_to_def same_range_def)
    have "st = STATUS_SUCCESS \<and>
        frames_to p1 (reserve_in p1 (unat ` uf_pfn ` set (entries_before_break (pma_limit_pfn p) es))) p'"
      using "2.IH"(2) [OF within m refl] "2.prems" m one within lim by (auto simp: frames_to_def)
    then show ?thesis using reserve_in_trans [OF one(2)] within(2)
      by (auto simp: entries_before_break_def not_less)
  qed
qed

lemma entries_before_break_all:
  assumes "sorted (map uf_pfn es) \<or> list_all (\<lambda>e. uf_pfn e \<le> ucast limit) es" and "f \<le> unat limit"
  shows "f \<in> unat ` uf_pfn ` set (entries_before_break limit es) \<longleftrightarrow> f \<in> unat ` uf_pfn ` set es"
  using assms
proof (induction es)
  case (Cons e es)
  show ?case
  proof (cases "uf_pfn e \<le> ucast limit")
    case True
    then have "entries_before_break limit (e # es) = e # entries_before_break limit es"
      by (simp add: entries_before_break_def)
    moreover have "f \<in> unat ` uf_pfn ` set (entries_before_break limit es) \<longleftrightarrow> f \<in> unat ` uf_pfn ` set es"
      using Cons by auto
    ultimately show ?thesis by simp
  next
    case False
    then have "f \<notin> unat ` uf_pfn ` set (e # es)"
      using Cons.prems by (force simp: word_le_nat_alt)
    then show ?thesis using False by (simp add: entries_before_break_def)
  qed
qed (simp add: entries_before_break_def)

text \<open>
  C9: Initialisation.  If \<^verbatim>\<open>mm_pma_init\<close> returns, from the null bitmap of its static storage and a
  memory map whose range is not empty, it reports success, the invariant holds, and a frame is
  reserved exactly when it holds a part of the bitmap or is listed as unavailable before the first
  listed frame above the managed range, where the loop breaks off; every other frame is free.  The
  list may come in any order: when no listed frame is above the managed range, or when the list is
  sorted, every managed frame of it is reserved.
\<close>

theorem mm_pma_init_correct:
  assumes ok: "mm_pma_init bpt mment ufent pd p = Ok (st, p', pd', pt)"
    and null: "pma_bitmap p = []" and pd: "length pd = 1024"
    and range: "memory_range mment = (b, l)" "b div PAGE_SIZE \<le> l div PAGE_SIZE"
  defines "bitmap_frames \<equiv> unat ` set (take (unat (pma_bitmap_pfn_count p')) (pma_bitmap_pfn_list p'))"
  shows "st = STATUS_SUCCESS \<and> pma_inv p' \<and>
    (\<forall>j < frame_count p'. frame_state p' j =
       (if unat (pma_base_pfn p') + j \<in>
             bitmap_frames \<union> unat ` uf_pfn ` set (entries_before_break (pma_limit_pfn p') ufent)
        then PBM_RESERVED else PBM_FREE)) \<and>
    (sorted (map uf_pfn ufent) \<or> list_all (\<lambda>e. uf_pfn e \<le> ucast (pma_limit_pfn p')) ufent \<longrightarrow>
      (\<forall>j < frame_count p'. frame_state p' j =
         (if unat (pma_base_pfn p') + j \<in> bitmap_frames \<union> unat ` uf_pfn ` set ufent
          then PBM_RESERVED else PBM_FREE)))"
proof -
  obtain st1 p1 pd1 pt1 where init: "pma_bitmap_init bpt mment ufent pd p = Ok (st1, p1, pd1, pt1)"
    using ok by (auto simp: mm_pma_init_def outcome_simps)
  note p1 = pma_bitmap_init_ok [OF init null pd range]
  let ?fs = "take (unat (pma_bitmap_pfn_count p1)) (pma_bitmap_pfn_list p1)"
  let ?us = "entries_before_break (pma_limit_pfn p') ufent"
  obtain st2 p2 where m: "mark_frames ?fs p1 = Ok (st2, p2)"
    using ok init p1(1) by (auto simp: mm_pma_init_def outcome_simps)
  note p2 = mark_frames_ok [OF m p1(2)]
  obtain st3 where u: "mark_unavailable ufent p2 = Ok (st3, p')" "st3 = st"
    using ok init p1(1) m p2 by (auto simp: mm_pma_init_def outcome_simps)
  have inv2: "pma_inv p2" using p2 by (simp add: frames_to_def)
  note p3 = mark_unavailable_ok [OF u(1) inv2]
  then have "pma_limit_pfn p2 = pma_limit_pfn p'" by (simp add: frames_to_def same_range_def)
  then have "frames_to p1 (reserve_in p1 (unat ` set ?fs \<union> unat ` uf_pfn ` set ?us)) p'"
    using reserve_in_trans p2 p3 by metis
  then have res: "frame_state p' j =
       (if unat (pma_base_pfn p') + j \<in> bitmap_frames \<union> unat ` uf_pfn ` set ?us then PBM_RESERVED else PBM_FREE)"
    if "j < frame_count p'" for j
    using that p1(3) by (auto simp: frames_to_def same_range_def reserve_in_def bitmap_frames_def)
  have inv: "pma_inv p'" using p3 by (simp add: frames_to_def)
  moreover have "unat (pma_base_pfn p') + j \<le> unat (pma_limit_pfn p')" if "j < frame_count p'" for j
    using that inv by (auto simp: pma_inv_def word_le_nat_alt)
  ultimately show ?thesis
    using p3 u(2) res entries_before_break_all [of ufent "pma_limit_pfn p'"] by auto
qed

lemma pma_init_frames:
  "bitmap_frames_from_map pma_init_map [0x120, 0x104] (pma_init_state\<lparr>pma_frame_desc_count := 64,
     pma_available_frames := 64, pma_free_frames := 64, pma_bitmap_size := 16,
     pma_base_pfn := 0x100, pma_limit_pfn := 0x13F, pma_bitmap_pfn_count := 0\<rparr>) = Ok pma_init_collected"
  by code_simp

lemma pma_init_range: "memory_range pma_init_map = (0x100000, 0x13FFFF)"
  by code_simp

lemma pma_init_bitmap:
  "\<exists>pd' pt. pma_bitmap_init 5 pma_init_map [0x120, 0x104] (replicate 1024 0) pma_init_state =
     Ok (STATUS_SUCCESS, pma_init_collected\<lparr>pma_bitmap := replicate 16 0\<rparr>, pd', pt)"
proof -
  have need: "bitmap_frames_needed pma_init_collected = 1" "length (pma_bitmap_pfn_list pma_init_collected) = 64"
    "pma_bitmap_size pma_init_collected = 16" "pma_bitmap_pfn_count pma_init_collected = 1"
    by code_simp+
  have same: "pma_init_collected\<lparr>pma_bitmap_pfn_count := 1\<rparr> = pma_init_collected" by (simp add: pma_init_collected_def)
  have "unmap_lower_area [1 ..< 768] ((replicate 1024 0)[769 := x]) pma_init_collected =
      Ok (STATUS_SUCCESS, (replicate 1024 0)[769 := x], pma_init_collected)" for x
    by (subst unmap_lower_area_null_bitmap) (auto simp: pma_init_collected_def pma_init_state_def entry_p_def)
  then show ?thesis
    using pma_init_frames pma_init_range need
    by (simp add: pma_bitmap_init_def Let_def same)
qed

lemma pma_init_returns:
  "\<exists>st p' pd' pt. mm_pma_init 5 pma_init_map [0x120, 0x104] (replicate 1024 0) pma_init_state =
     Ok (st, p', pd', pt) \<and> pma_limit_pfn p' = 0x13F"
proof -
  let ?p = "pma_init_collected\<lparr>pma_bitmap := replicate 16 0\<rparr>"
  let ?fs = "take (unat (pma_bitmap_pfn_count ?p)) (pma_bitmap_pfn_list ?p)"
  have "case mark_frames ?fs ?p of Ok r \<Rightarrow> fst r = STATUS_SUCCESS \<and>
      (case mark_unavailable [0x120, 0x104] (snd r) of Ok q \<Rightarrow> pma_limit_pfn (snd q) = 0x13F | _ \<Rightarrow> False)
    | _ \<Rightarrow> False"
    by code_simp
  from outcome_case_Ok [OF this]
  obtain r where r: "mark_frames ?fs ?p = Ok r" "fst r = STATUS_SUCCESS"
    "case mark_unavailable [0x120, 0x104] (snd r) of Ok q \<Rightarrow> pma_limit_pfn (snd q) = 0x13F | _ \<Rightarrow> False"
    by blast
  from outcome_case_Ok [OF r(3)]
  obtain q where "mark_unavailable [0x120, 0x104] (snd r) = Ok q" "pma_limit_pfn (snd q) = 0x13F"
    by blast
  then obtain st p2 p3 where "mark_frames ?fs ?p = Ok (STATUS_SUCCESS, p2)"
    "mark_unavailable [0x120, 0x104] p2 = Ok (st, p3)" "pma_limit_pfn p3 = 0x13F"
    using r(1,2) by (metis prod.collapse)
  then show ?thesis using pma_init_bitmap
    by (auto simp: mm_pma_init_def simp del: mark_unavailable.simps split: prod.splits)
qed

theorem mm_pma_init_witness:
  "\<exists>p' pd' pt. mm_pma_init 5 pma_init_map [0x120, 0x104] (replicate 1024 0) pma_init_state = Ok (STATUS_SUCCESS, p', pd', pt) \<and>
     pma_inv p' \<and>
     (\<forall>j < frame_count p'. frame_state p' j =
       (if unat (pma_base_pfn p') + j \<in>
             unat ` set (take (unat (pma_bitmap_pfn_count p')) (pma_bitmap_pfn_list p')) \<union>
             unat ` uf_pfn ` set [0x120, 0x104]
        then PBM_RESERVED else PBM_FREE))"
proof -
  obtain st p' pd' pt where r:
    "mm_pma_init 5 pma_init_map [0x120, 0x104] (replicate 1024 0) pma_init_state = Ok (st, p', pd', pt)"
    and lim: "pma_limit_pfn p' = 0x13F"
    using pma_init_returns by blast
  have null: "pma_bitmap pma_init_state = []" by (simp add: pma_init_state_def)
  have "list_all (\<lambda>e. uf_pfn e \<le> ucast (pma_limit_pfn p')) [0x120, 0x104]"
    unfolding lim by code_simp
  then show ?thesis
    using mm_pma_init_correct [OF r null _ pma_init_range] r by (simp only: length_replicate) auto
qed

text \<open>
  The search for the frames of the bitmap does presume a sorted list: with the unavailable frames
  \<open>0x120\<close> and \<open>0x100\<close> listed in this order it places the bitmap on frame \<open>0x100\<close>.
\<close>

lemma pma_bitmap_on_unavailable_frame:
  "case bitmap_frames_from_map pma_init_map [0x120, 0x100] (pma_init_state\<lparr>pma_frame_desc_count := 64,
     pma_available_frames := 64, pma_free_frames := 64, pma_bitmap_size := 16,
     pma_base_pfn := 0x100, pma_limit_pfn := 0x13F, pma_bitmap_pfn_count := 0\<rparr>) of
     Ok p \<Rightarrow> take (unat (pma_bitmap_pfn_count p)) (pma_bitmap_pfn_list p) = [0x100] | _ \<Rightarrow> False"
  by code_simp

end
