(* ===== verification/FrameAlloc.thy ===== *)
theory FrameAlloc
  imports Pma "HOL-Library.Multiset"
begin

text \<open>
  The interface of a physical frame allocator as its clients use it: one frame at a time is taken
  and given back.  The locale states the contract over a set of free and a set of used frames;
  clients (the page mapper, sequences of requests) rely on nothing else.  The kernel's bitmap
  allocator implements it.
\<close>

section \<open>Frames by number\<close>

definition frame_in :: "u8 \<Rightarrow> pma \<Rightarrow> u32 \<Rightarrow> bool" where
  "frame_in v p f \<longleftrightarrow> pma_base_pfn p \<le> f \<and> f \<le> pma_limit_pfn p \<and>
     frame_state p (unat f - unat (pma_base_pfn p)) = v"

abbreviation frame_free :: "pma \<Rightarrow> u32 \<Rightarrow> bool" where "frame_free \<equiv> frame_in PBM_FREE"
abbreviation frame_used :: "pma \<Rightarrow> u32 \<Rightarrow> bool" where "frame_used \<equiv> frame_in PBM_ALLOCATED"

text \<open>Successive requests for one frame, until \<open>n\<close> frames were handed out or a request failed.\<close>

fun pma_grab :: "nat \<Rightarrow> pma \<Rightarrow> (u32 list \<times> pma) outcome" where
  "pma_grab 0 p = Ok ([], p)"
| "pma_grab (Suc n) p = obind (mm_pma_allocate_frame 1 p) (\<lambda>(st, f, p1).
     case f of None \<Rightarrow> Ok ([], p1)
     | Some f \<Rightarrow> obind (pma_grab n p1) (\<lambda>(fs, p2). Ok (f # fs, p2)))"

definition pma_release :: "u32 list \<Rightarrow> pma \<Rightarrow> pma outcome" where
  "pma_release fs p = ofold (\<lambda>f. mm_pma_free_frame f 1) fs p"

section \<open>The interface\<close>

locale frame_allocator =
  fixes alloc :: "'s \<Rightarrow> (status \<times> u32 option \<times> 's) outcome"
    and release :: "u32 \<Rightarrow> 's \<Rightarrow> 's outcome"
    and inv :: "'s \<Rightarrow> bool"
    and free :: "'s \<Rightarrow> u32 \<Rightarrow> bool"
    and used :: "'s \<Rightarrow> u32 \<Rightarrow> bool"
  assumes alloc_law: "inv s \<Longrightarrow>
      (\<exists>f s'. alloc s = Ok (STATUS_SUCCESS, Some f, s') \<and> inv s' \<and> free s f \<and>
         (\<forall>g. free s' g \<longleftrightarrow> free s g \<and> g \<noteq> f) \<and> (\<forall>g. used s' g \<longleftrightarrow> used s g \<or> g = f)) \<or>
      alloc s = Ok (STATUS_INSUFFICIENT_MEMORY, None, s)"
    and free_not_used: "inv s \<Longrightarrow> free s f \<Longrightarrow> \<not> used s f"
    and release_law: "inv s \<Longrightarrow> used s f \<Longrightarrow>
      \<exists>s'. release f s = Ok s' \<and> inv s' \<and>
         (\<forall>g. free s' g \<longleftrightarrow> free s g \<or> g = f) \<and> (\<forall>g. used s' g \<longleftrightarrow> used s g \<and> g \<noteq> f)"
begin

fun grab :: "nat \<Rightarrow> 's \<Rightarrow> (u32 list \<times> 's) outcome" where
  "grab 0 s = Ok ([], s)"
| "grab (Suc n) s = obind (alloc s) (\<lambda>(st, f, s1).
     case f of None \<Rightarrow> Ok ([], s1)
     | Some f \<Rightarrow> obind (grab n s1) (\<lambda>(fs, s2). Ok (f # fs, s2)))"

text \<open>Frames handed out one after the other are distinct, were free, and are free no longer.\<close>

lemma grab_exclusive:
  "inv s \<Longrightarrow> \<exists>fs s'. grab n s = Ok (fs, s') \<and> inv s' \<and> distinct fs \<and> (\<forall>f \<in> set fs. free s f) \<and>
     (\<forall>g. free s' g \<longleftrightarrow> free s g \<and> g \<notin> set fs) \<and> (\<forall>g. used s' g \<longleftrightarrow> used s g \<or> g \<in> set fs)"
proof (induction n arbitrary: s)
  case 0
  then show ?case by simp
next
  case (Suc n)
  consider (some) f s1 where "alloc s = Ok (STATUS_SUCCESS, Some f, s1)" "inv s1" "free s f"
      "\<And>g. free s1 g \<longleftrightarrow> free s g \<and> g \<noteq> f" "\<And>g. used s1 g \<longleftrightarrow> used s g \<or> g = f"
    | (none) "alloc s = Ok (STATUS_INSUFFICIENT_MEMORY, None, s)"
    using alloc_law [OF Suc.prems] by blast
  then show ?case
  proof cases
    case some
    obtain fs s' where *: "grab n s1 = Ok (fs, s')" "inv s'" "distinct fs" "\<forall>f \<in> set fs. free s1 f"
      "\<forall>g. free s' g \<longleftrightarrow> free s1 g \<and> g \<notin> set fs" "\<forall>g. used s' g \<longleftrightarrow> used s1 g \<or> g \<in> set fs"
      using Suc.IH [OF some(2)] by auto
    have "grab (Suc n) s = Ok (f # fs, s')" using some(1) *(1) by simp
    moreover have "distinct (f # fs)" using *(3,4) some(4) by auto
    ultimately show ?thesis using * some(3-5) by (intro exI [of _ "f # fs"] exI [of _ s']) auto
  next
    case none
    then show ?thesis using Suc.prems by simp
  qed
qed

text \<open>Giving back used frames, in any order, makes exactly these free again.\<close>

lemma release_all:
  "inv s \<Longrightarrow> distinct fs \<Longrightarrow> \<forall>f \<in> set fs. used s f \<Longrightarrow> \<exists>s'. ofold release fs s = Ok s' \<and> inv s' \<and>
     (\<forall>g. free s' g \<longleftrightarrow> free s g \<or> g \<in> set fs) \<and> (\<forall>g. used s' g \<longleftrightarrow> used s g \<and> g \<notin> set fs)"
proof (induction fs arbitrary: s)
  case Nil
  then show ?case by simp
next
  case (Cons f fs)
  obtain s1 where s1: "release f s = Ok s1" "inv s1" "\<forall>g. free s1 g \<longleftrightarrow> free s g \<or> g = f"
    "\<forall>g. used s1 g \<longleftrightarrow> used s g \<and> g \<noteq> f"
    using release_law [OF Cons.prems(1), of f] Cons.prems(3) by auto
  have u: "\<forall>f \<in> set fs. used s1 f" using s1(4) Cons.prems(2,3) by auto
  obtain s' where s': "ofold release fs s1 = Ok s'" "inv s'"
    "\<forall>g. free s' g \<longleftrightarrow> free s1 g \<or> g \<in> set fs" "\<forall>g. used s' g \<longleftrightarrow> used s1 g \<and> g \<notin> set fs"
    using Cons.IH [OF s1(2) _ u] Cons.prems(2) by auto
  then show ?case using s1 by auto
qed

end

section \<open>The kernel's allocator implements it\<close>

lemma frame_in_index:
  assumes "pma_inv p"
  shows "frame_in v p f \<longleftrightarrow>
    (\<exists>j < frame_count p. unat f = unat (pma_base_pfn p) + j \<and> frame_state p j = v)"
proof
  assume "frame_in v p f"
  then show "\<exists>j < frame_count p. unat f = unat (pma_base_pfn p) + j \<and> frame_state p j = v"
    using assms
    by (intro exI [of _ "unat f - unat (pma_base_pfn p)"])
      (auto simp: frame_in_def pma_inv_def word_le_nat_alt)
next
  assume "\<exists>j < frame_count p. unat f = unat (pma_base_pfn p) + j \<and> frame_state p j = v"
  then show "frame_in v p f"
    using assms by (auto simp: frame_in_def pma_inv_def word_le_nat_alt)
qed

text \<open>What a change of one frame of the bitmap means by frame number.\<close>

lemma frame_in_changed:
  assumes inv: "pma_inv p" and k: "k < frame_count p" and uf: "unat f = unat (pma_base_pfn p) + k"
    and to: "frames_to p (\<lambda>j. if k \<le> j \<and> j < k + 1 then w else frame_state p j) p'"
  shows "frame_in v p' g \<longleftrightarrow> (if g = f then v = w else frame_in v p g)"
proof -
  have p': "pma_inv p'" "frame_count p' = frame_count p" "pma_base_pfn p' = pma_base_pfn p"
    using to by (auto simp: frames_to_def same_range_def)
  have st: "frame_state p' j = (if j = k then w else frame_state p j)" if "j < frame_count p" for j
    using to that by (auto simp: frames_to_def)
  show ?thesis
  proof (cases "g = f")
    case True
    then show ?thesis using p' st [OF k] k uf by (auto simp: frame_in_index)
  next
    case False
    then have "unat g \<noteq> unat (pma_base_pfn p) + k" using uf by (metis word_unat_eq_iff)
    then show ?thesis
      using False p' st by (auto simp: frame_in_index [OF p'(1)] frame_in_index [OF inv])
  qed
qed

lemma elig_frame:
  assumes "pma_inv p" "elig p s"
  shows "unat (pma_base_pfn p + of_nat s) = unat (pma_base_pfn p) + s" "s < frame_count p"
    "frame_free p (pma_base_pfn p + of_nat s)"
proof -
  show s: "s < frame_count p" using assms(2) by (simp add: elig_def)
  show u: "unat (pma_base_pfn p + of_nat s) = unat (pma_base_pfn p) + s"
    using assms s pma_inv_frame_count [OF assms(1)]
    by (simp add: pma_inv_def unat_word_ariths word_less_nat_alt word_le_nat_alt)
  show "frame_free p (pma_base_pfn p + of_nat s)"
    using assms(2) s u frame_in_index [OF assms(1)] by (auto simp: elig_def)
qed

interpretation kernel_frames: frame_allocator "mm_pma_allocate_frame 1" "\<lambda>f. mm_pma_free_frame f 1"
    pma_inv frame_free frame_used
proof (unfold_locales, goal_cases)
  case (1 p)
  show ?case
  proof (cases "\<exists>s. free_run p s (unat (1 :: u32))")
    case True
    then obtain s p' where s: "mm_pma_allocate_frame 1 p = Ok (STATUS_SUCCESS, Some (pma_base_pfn p + of_nat s), p')"
        "free_run p s 1" "frames_to p (\<lambda>j. if s \<le> j \<and> j < s + 1 then PBM_ALLOCATED else frame_state p j) p'"
      using allocate_frame_spec [OF 1, of 1] by auto
    have el: "elig p s" using s(2) by (simp add: free_run_def)
    have "pma_inv p'" using s(3) by (simp add: frames_to_def)
    then show ?thesis
      using s(1) elig_frame(3) [OF 1 el]
        frame_in_changed [OF 1 elig_frame(2) [OF 1 el] elig_frame(1) [OF 1 el] s(3)]
      by auto
  next
    case False
    then show ?thesis using allocate_frame_spec [OF 1, of 1] by simp
  qed
next
  case (2 p f)
  then show ?case by (simp add: frame_in_def)
next
  case (3 p f)
  obtain k where k: "k < frame_count p" "unat f = unat (pma_base_pfn p) + k" "frame_state p k = PBM_ALLOCATED"
    using 3 frame_in_index by blast
  have room: "unat f + 1 \<le> unat (pma_limit_pfn p) + 1" "unat f + 1 < 2 ^ 32" "pma_base_pfn p \<le> f"
    using 3 k by (auto simp: pma_inv_def word_less_nat_alt word_le_nat_alt)
  have off: "unat f - unat (pma_base_pfn p) = k" using k(2) by simp
  have all: "\<forall>j. k \<le> j \<and> j < k + 1 \<longrightarrow> frame_state p j = PBM_ALLOCATED" using k(3) by (auto simp: less_Suc_eq_le)
  obtain p' where p': "mm_pma_free_frame f 1 p = Ok p'"
      "frames_to p (\<lambda>j. if k \<le> j \<and> j < k + 1 then PBM_FREE else frame_state p j) p'"
    using free_frame_spec [OF 3(1), of f 1] room off all by auto
  have "pma_inv p'" using p'(2) by (simp add: frames_to_def)
  then show ?case
    using p'(1) frame_in_changed [OF 3(1) k(1,2) p'(2)] by auto
qed

lemma pma_grab_eq: "pma_grab n p = kernel_frames.grab n p"
  by (induction n arbitrary: p) (auto simp: obind_def split: outcome.splits option.splits prod.splits)

text \<open>
  C11: Frames taken one after the other are pairwise distinct and were all free; giving them back in
  any order succeeds, and then exactly the frames that were free before the first request are free
  again.
\<close>

theorem pma_frames_exclusive:
  assumes "pma_inv p" and "mset fs' = mset fs" and "pma_grab n p = Ok (fs, p1)"
  shows "distinct fs \<and> (\<forall>f \<in> set fs. frame_free p f \<and> \<not> frame_free p1 f) \<and>
    (\<exists>p2. pma_release fs' p1 = Ok p2 \<and> pma_inv p2 \<and> (\<forall>g. frame_free p2 g \<longleftrightarrow> frame_free p g))"
proof -
  have g: "pma_inv p1" "distinct fs" "\<forall>f \<in> set fs. frame_free p f"
    "\<forall>g. frame_free p1 g \<longleftrightarrow> frame_free p g \<and> g \<notin> set fs" "\<forall>f \<in> set fs. frame_used p1 f"
    using kernel_frames.grab_exclusive [OF assms(1), of n] assms(3) by (auto simp: pma_grab_eq)
  have "distinct fs'" "set fs' = set fs"
    using assms(2) g(2) by (metis mset_eq_imp_distinct_iff, metis mset_eq_setD)
  then show ?thesis
    using kernel_frames.release_all [OF g(1), of fs'] g by (auto simp: pma_release_def)
qed

theorem pma_frames_exclusive_witness:
  "\<exists>p1 p2. pma_grab 2 pma_example = Ok ([0x102, 0x103], p1) \<and> pma_release [0x103, 0x102] p1 = Ok p2"
proof -
  have "case pma_grab 2 pma_example of Ok r \<Rightarrow> fst r = [0x102, 0x103] | _ \<Rightarrow> False"
    by code_simp
  from outcome_case_Ok [OF this] obtain p1 where p1: "pma_grab 2 pma_example = Ok ([0x102, 0x103], p1)"
    by auto
  moreover have "\<exists>p2. pma_release [0x103, 0x102] p1 = Ok p2"
    using pma_frames_exclusive [OF pma_example_inv _ p1, of "[0x103, 0x102]"] by auto
  ultimately show ?thesis by auto
qed

end
