(* ===== verification/Vma.thy ===== *)
theory Vma
  imports Prelude
begin

text \<open>
  The allocator of virtual pages, \<^verbatim>\<open>kernel/mm/vma.c\<close>: two bump allocators, one for the
  user area and one for the kernel area, over static page-number bounds.  The locale
  \<open>page_arena\<close> states what either area promises to its clients and is interpreted on both.
\<close>

section \<open>State and operations\<close>

record vma =
  vma_user_base_vpn :: u32
  vma_user_limit_vpn :: u32
  vma_user_alloc_vpn :: u32
  vma_kernel_base_vpn :: u32
  vma_kernel_limit_vpn :: u32
  vma_kernel_alloc_vpn :: u32

abbreviation (input) VAF_DEFAULT :: u32 where "VAF_DEFAULT \<equiv> 0"
abbreviation (input) VAF_KERNEL :: u32 where "VAF_KERNEL \<equiv> 1"

definition mm_vma_init :: "u32 \<Rightarrow> u32 \<Rightarrow> u32 \<Rightarrow> u32 \<Rightarrow> vma \<Rightarrow> status \<times> vma" where
  "mm_vma_init user_base_vpn user_limit_vpn kernel_base_vpn kernel_limit_vpn v =
     (STATUS_SUCCESS,
      v\<lparr>vma_user_base_vpn := user_base_vpn, vma_user_limit_vpn := user_limit_vpn,
        vma_user_alloc_vpn := user_base_vpn, vma_kernel_base_vpn := kernel_base_vpn,
        vma_kernel_limit_vpn := kernel_limit_vpn, vma_kernel_alloc_vpn := kernel_base_vpn\<rparr>)"

definition mm_vma_get_available_kernel_page_count :: "vma \<Rightarrow> status \<times> u32" where
  "mm_vma_get_available_kernel_page_count v =
     (STATUS_SUCCESS, vma_kernel_limit_vpn v - vma_kernel_base_vpn v + 1)"

definition mm_vma_get_free_kernel_page_count :: "vma \<Rightarrow> status \<times> u32" where
  "mm_vma_get_free_kernel_page_count v =
     (STATUS_SUCCESS, vma_kernel_limit_vpn v - vma_kernel_alloc_vpn v + 1)"

definition mm_vma_get_available_user_page_count :: "vma \<Rightarrow> status \<times> u32" where
  "mm_vma_get_available_user_page_count v =
     (STATUS_SUCCESS, vma_user_limit_vpn v - vma_user_base_vpn v + 1)"

definition mm_vma_get_free_user_page_count :: "vma \<Rightarrow> status \<times> u32" where
  "mm_vma_get_free_user_page_count v =
     (STATUS_SUCCESS, vma_user_limit_vpn v - vma_user_alloc_vpn v + 1)"

text \<open>The out parameter \<^verbatim>\<open>*vpn\<close> is \<open>None\<close> when the function returns without writing it.\<close>

definition mm_vma_allocate_page :: "u32 \<Rightarrow> u32 \<Rightarrow> vma \<Rightarrow> status \<times> u32 option \<times> vma" where
  "mm_vma_allocate_page page_count alloc_flags v =
     (if alloc_flags AND VAF_KERNEL \<noteq> 0 then
        if vma_kernel_limit_vpn v \<le> vma_kernel_alloc_vpn v + page_count
        then (STATUS_INSUFFICIENT_MEMORY, None, v)
        else (STATUS_SUCCESS, Some (vma_kernel_alloc_vpn v),
              v\<lparr>vma_kernel_alloc_vpn := vma_kernel_alloc_vpn v + page_count\<rparr>)
      else
        if vma_user_limit_vpn v \<le> vma_user_alloc_vpn v + page_count
        then (STATUS_INSUFFICIENT_MEMORY, None, v)
        else (STATUS_SUCCESS, Some (vma_user_alloc_vpn v),
              v\<lparr>vma_user_alloc_vpn := vma_user_alloc_vpn v + page_count\<rparr>))"

text \<open>\<^verbatim>\<open>mm_vma_free_page\<close> has an empty body.\<close>

definition mm_vma_free_page :: "u32 \<Rightarrow> u32 \<Rightarrow> vma \<Rightarrow> vma" where
  "mm_vma_free_page vpn page_count v = v"

section \<open>Invariant and histories\<close>

definition vma_inv :: "vma \<Rightarrow> bool" where
  "vma_inv v \<longleftrightarrow>
     vma_user_base_vpn v \<le> vma_user_alloc_vpn v \<and> vma_user_alloc_vpn v \<le> vma_user_limit_vpn v \<and>
     vma_kernel_base_vpn v \<le> vma_kernel_alloc_vpn v \<and>
     vma_kernel_alloc_vpn v \<le> vma_kernel_limit_vpn v \<and>
     vma_user_limit_vpn v < 2 ^ 20 \<and> vma_kernel_limit_vpn v < 2 ^ 20"

text \<open>A history of requests to one area and the page ranges that the successful ones were given.\<close>

fun vma_run :: "u32 \<Rightarrow> u32 list \<Rightarrow> vma \<Rightarrow> (u32 \<times> u32) list \<times> vma" where
  "vma_run flags [] v = ([], v)"
| "vma_run flags (n # ns) v =
     (case mm_vma_allocate_page n flags v of
        (st, Some vpn, v') \<Rightarrow> (let (rs, v'') = vma_run flags ns v' in ((vpn, n) # rs, v''))
      | (st, None, v') \<Rightarrow> vma_run flags ns v')"

definition vma_example :: vma where
  "vma_example = snd (mm_vma_init 0x400 0x80000 0xC0800 0xFF000
     \<lparr>vma_user_base_vpn = 0, vma_user_limit_vpn = 0, vma_user_alloc_vpn = 0,
      vma_kernel_base_vpn = 0, vma_kernel_limit_vpn = 0, vma_kernel_alloc_vpn = 0\<rparr>)"

section \<open>One area as an interface\<close>

locale page_arena =
  fixes alloc :: "u32 \<Rightarrow> 's \<Rightarrow> status \<times> u32 option \<times> 's"
    and nxt :: "'s \<Rightarrow> u32"
    and lim :: "'s \<Rightarrow> u32"
    and inv :: "'s \<Rightarrow> bool"
  assumes success: "inv s \<Longrightarrow> unat (nxt s) + unat n < unat (lim s) \<Longrightarrow>
      \<exists>s'. alloc n s = (STATUS_SUCCESS, Some (nxt s), s') \<and> inv s' \<and> lim s' = lim s \<and>
           unat (nxt s') = unat (nxt s) + unat n"
    and failure: "inv s \<Longrightarrow> unat n \<le> 0xFFF00000 \<Longrightarrow> unat (lim s) \<le> unat (nxt s) + unat n \<Longrightarrow>
      alloc n s = (STATUS_INSUFFICIENT_MEMORY, None, s)"
begin

fun hist :: "u32 list \<Rightarrow> 's \<Rightarrow> (u32 \<times> u32) list \<times> 's" where
  "hist [] v = ([], v)"
| "hist (n # ns) v =
     (case alloc n v of
        (st, Some vpn, v') \<Rightarrow> (let (rs, v'') = hist ns v' in ((vpn, n) # rs, v''))
      | (st, None, v') \<Rightarrow> hist ns v')"

lemma hist_ranges:
  assumes "inv s" and "\<forall>n \<in> set ns. unat n \<le> 0xFFF00000" and "hist ns s = (rs, s')"
  shows "inv s' \<and> unat (nxt s) \<le> unat (nxt s') \<and>
    (\<forall>(b, n) \<in> set rs. unat (nxt s) \<le> unat b \<and> unat b + unat n \<le> unat (nxt s')) \<and>
    sorted_wrt (\<lambda>(b, n) (b', n'). unat b + unat n \<le> unat b') rs"
  using assms
proof (induction ns arbitrary: s rs s')
  case Nil
  then show ?case by simp
next
  case (Cons n ns)
  show ?case
  proof (cases "unat (nxt s) + unat n < unat (lim s)")
    case True
    then obtain s1 where s1: "alloc n s = (STATUS_SUCCESS, Some (nxt s), s1)" "inv s1"
      "unat (nxt s1) = unat (nxt s) + unat n" using success Cons.prems(1) by blast
    obtain rs1 where rs: "hist ns s1 = (rs1, s')" "rs = (nxt s, n) # rs1"
      using Cons.prems(3) by (auto simp: s1(1) split: prod.splits)
    then show ?thesis
      using Cons.IH [OF s1(2) _ rs(1)] Cons.prems(2) s1(3) by fastforce
  next
    case False
    have "hist ns s = (rs, s')"
      using Cons.prems(2,3) False by (simp add: failure [OF Cons.prems(1)])
    then show ?thesis using Cons.IH [OF Cons.prems(1)] Cons.prems(2) by simp
  qed
qed

end

section \<open>The two areas implement it\<close>

lemma vma_no_overflow:
  "vma_inv v \<Longrightarrow> unat (n :: u32) \<le> 0xFFF00000 \<Longrightarrow>
    unat (vma_user_alloc_vpn v + n) = unat (vma_user_alloc_vpn v) + unat n \<and>
    unat (vma_kernel_alloc_vpn v + n) = unat (vma_kernel_alloc_vpn v) + unat n"
  by (auto simp: vma_inv_def word_less_nat_alt word_le_nat_alt unat_word_ariths)

interpretation user_area: page_arena "\<lambda>n. mm_vma_allocate_page n VAF_DEFAULT"
    vma_user_alloc_vpn vma_user_limit_vpn vma_inv
proof (unfold_locales, goal_cases)
  case (1 s n)
  then have "unat n \<le> 0xFFF00000" by (simp add: vma_inv_def word_less_nat_alt)
  then show ?case
    using 1 vma_no_overflow [of s n]
    by (auto simp: mm_vma_allocate_page_def vma_inv_def word_le_nat_alt)
next
  case (2 s n)
  then show ?case
    using vma_no_overflow [of s n] by (auto simp: mm_vma_allocate_page_def word_le_nat_alt)
qed

interpretation kernel_area: page_arena "\<lambda>n. mm_vma_allocate_page n VAF_KERNEL"
    vma_kernel_alloc_vpn vma_kernel_limit_vpn vma_inv
proof (unfold_locales, goal_cases)
  case (1 s n)
  then have "unat n \<le> 0xFFF00000" by (simp add: vma_inv_def word_less_nat_alt)
  then show ?case
    using 1 vma_no_overflow [of s n]
    by (auto simp: mm_vma_allocate_page_def vma_inv_def word_le_nat_alt)
next
  case (2 s n)
  then show ?case
    using vma_no_overflow [of s n] by (auto simp: mm_vma_allocate_page_def word_le_nat_alt)
qed

lemma vma_run_user: "vma_run VAF_DEFAULT ns v = user_area.hist ns v"
  by (induction ns arbitrary: v) (auto split: prod.splits option.splits)

lemma vma_run_kernel: "vma_run VAF_KERNEL ns v = kernel_area.hist ns v"
  by (induction ns arbitrary: v) (auto split: prod.splits option.splits)

lemma vma_example_inv: "vma_inv vma_example"
  by (simp add: vma_example_def mm_vma_init_def vma_inv_def)

text \<open>Of the flags only the kernel bit selects the area.\<close>

lemma vma_run_flags:
  "vma_run flags ns v = (if flags AND VAF_KERNEL \<noteq> 0 then kernel_area.hist ns v else user_area.hist ns v)"
proof -
  have "mm_vma_allocate_page n flags v =
      mm_vma_allocate_page n (if flags AND VAF_KERNEL \<noteq> 0 then VAF_KERNEL else VAF_DEFAULT) v" for n v
    by (simp add: mm_vma_allocate_page_def)
  then have "vma_run flags ns v = vma_run (if flags AND VAF_KERNEL \<noteq> 0 then VAF_KERNEL else VAF_DEFAULT) ns v"
    by (induction ns arbitrary: v) (simp_all split: prod.splits option.splits)
  then show ?thesis by (simp add: vma_run_user vma_run_kernel)
qed

text \<open>
  C23: For any sequence of requests to one area, of at most \<open>0xFFF00000\<close> pages each (so that no
  page number wraps around 32 bits), the page ranges handed out lie one after the other inside the
  area, so no page is ever given to two requests, and the invariant of the allocator is kept.
\<close>

theorem vma_allocations_disjoint:
  fixes flags :: u32
  assumes "vma_inv v" and "\<forall>n \<in> set ns. unat n \<le> 0xFFF00000" and "vma_run flags ns v = (rs, v')"
  defines "in_kernel \<equiv> flags AND VAF_KERNEL \<noteq> 0"
  shows "vma_inv v' \<and> sorted_wrt (\<lambda>(b, n) (b', n'). unat b + unat n \<le> unat b') rs \<and>
    (\<forall>(b, n) \<in> set rs.
       unat (if in_kernel then vma_kernel_alloc_vpn v else vma_user_alloc_vpn v) \<le> unat b \<and>
       unat b + unat n \<le> unat (if in_kernel then vma_kernel_limit_vpn v' else vma_user_limit_vpn v'))"
proof (cases in_kernel)
  case True
  then show ?thesis
    using kernel_area.hist_ranges [OF assms(1,2), of rs v'] assms(3)
    by (fastforce simp: vma_run_flags in_kernel_def vma_inv_def word_le_nat_alt)
next
  case False
  then show ?thesis
    using user_area.hist_ranges [OF assms(1,2), of rs v'] assms(3)
    by (fastforce simp: vma_run_flags in_kernel_def vma_inv_def word_le_nat_alt)
qed

theorem vma_allocations_disjoint_witness:
  "\<exists>v'. vma_run VAF_KERNEL [4, 0xFFF00000, 2] vma_example = ([(0xC0800, 4), (0xC0804, 2)], v') \<and> vma_inv v'"
proof -
  have "fst (vma_run VAF_KERNEL [4, 0xFFF00000, 2] vma_example) = [(0xC0800, 4), (0xC0804, 2)]"
    by code_simp
  then obtain v' where "vma_run VAF_KERNEL [4, 0xFFF00000, 2] vma_example = ([(0xC0800, 4), (0xC0804, 2)], v')"
    by (metis prod.collapse)
  then show ?thesis
    using vma_allocations_disjoint [OF vma_example_inv, of "[4, 0xFFF00000, 2]" VAF_KERNEL] by auto
qed

text \<open>
  The bound cannot be dropped: a request that makes \<^verbatim>\<open>alloc_vpn + page_count\<close> wrap around below the
  limit succeeds and moves the pointer back, and the pages handed out before are given out again.
\<close>

lemma vma_wrapping_request:
  assumes "2 ^ 32 \<le> unat (vma_kernel_alloc_vpn v) + unat n"
    and "unat (vma_kernel_alloc_vpn v) + unat n < 2 ^ 32 + unat (vma_kernel_limit_vpn v)"
  shows "\<exists>v'. mm_vma_allocate_page n VAF_KERNEL v = (STATUS_SUCCESS, Some (vma_kernel_alloc_vpn v), v') \<and>
    vma_kernel_alloc_vpn v' < vma_kernel_alloc_vpn v"
proof -
  have "unat (vma_kernel_alloc_vpn v + n) = unat (vma_kernel_alloc_vpn v) + unat n - 2 ^ 32"
    using assms unat_u32_less [of n] unat_u32_less [of "vma_kernel_alloc_vpn v"]
    by (simp add: unat_word_ariths mod_if)
  then show ?thesis
    using assms unat_u32_less [of n]
    by (auto simp: mm_vma_allocate_page_def word_le_nat_alt word_less_nat_alt)
qed

lemma vma_pages_given_twice:
  "fst (vma_run VAF_KERNEL [4, 0xFFFFFFFC, 4] vma_example) =
     [(0xC0800, 4), (0xC0804, 0xFFFFFFFC), (0xC0800, 4)]"
  by code_simp

end
