(* ===== verification/Mm.thy ===== *)
theory Mm
  imports Page FrameAlloc Vma
begin

text \<open>
  The page mapper of the kernel, \<^verbatim>\<open>kernel/mm/mm.c\<close>, over a model of the i686 paging unit.
  Physical memory is a function from a frame number and a word index to a 32-bit word; the
  processor finds the frame of a virtual page by the two-level walk \<open>mmu_walk\<close> from the page
  directory that CR3 names.  The code reaches the page tables through virtual addresses only, by
  the recursive directory slot 1023; its reads and writes are modelled as accesses to virtual
  pages (\<open>vread\<close>, \<open>vwrite\<close>) that go through the same walk, and fault when it fails.  Cached
  translations are not modelled: the code invalidates a page after each change.
\<close>

section \<open>The paging unit\<close>

record mm =
  mm_pma :: pma
  mm_vma :: vma
  phys :: "u32 \<Rightarrow> u32 \<Rightarrow> u32"
  cr3_pfn :: u32

definition pde_index :: "u32 \<Rightarrow> u32" where
  "pde_index vpn = drop_bit 10 (vpn AND 0x000FFC00)"

definition pt_index :: "u32 \<Rightarrow> u32" where
  "pt_index vpn = vpn AND 0x000003FF"

definition mmu_walk :: "mm \<Rightarrow> u32 \<Rightarrow> u32 option" where
  "mmu_walk m vpn =
     (let e = phys m (cr3_pfn m) (pde_index vpn) in
      if \<not> entry_p e then None
      else let t = phys m (entry_base e) (pt_index vpn) in
           if \<not> entry_p t then None else Some (entry_base t))"

definition vread :: "u32 \<Rightarrow> u32 \<Rightarrow> mm \<Rightarrow> u32 outcome" where
  "vread vpn i m = (case mmu_walk m vpn of None \<Rightarrow> Fault | Some f \<Rightarrow> Ok (phys m f i))"

definition put :: "u32 \<Rightarrow> u32 \<Rightarrow> u32 \<Rightarrow> mm \<Rightarrow> mm" where
  "put f i w m = m\<lparr>phys := (phys m)(f := (phys m f)(i := w))\<rparr>"

definition vwrite :: "u32 \<Rightarrow> u32 \<Rightarrow> u32 \<Rightarrow> mm \<Rightarrow> mm outcome" where
  "vwrite vpn i w m = (case mmu_walk m vpn of None \<Rightarrow> Fault | Some f \<Rightarrow> Ok (put f i w m))"

section \<open>Operations\<close>

abbreviation (input) PMF_DEFAULT :: u32 where "PMF_DEFAULT \<equiv> 0"
abbreviation (input) PMF_READONLY :: u32 where "PMF_READONLY \<equiv> 1"
abbreviation (input) PMF_USER :: u32 where "PMF_USER \<equiv> 2"
abbreviation (input) PMF_NOCACHE :: u32 where "PMF_NOCACHE \<equiv> 4"
abbreviation (input) PMF_WTCACHE :: u32 where "PMF_WTCACHE \<equiv> 8"

text \<open>
  The page directory at virtual address 0xFFFFF000, and the page that holds the page table of a
  given page, at 0xFFC00000 plus the directory index times the page size.
\<close>

abbreviation (input) page_dir_vpn :: u32 where "page_dir_vpn \<equiv> 0xFFFFF"

definition pt_vpn :: "u32 \<Rightarrow> u32" where
  "pt_vpn vpn = drop_bit 12 (0xFFC00000 + push_bit 2 (vpn AND 0x000FFC00))"

definition mm_vpn_to_pfn :: "u32 \<Rightarrow> mm \<Rightarrow> (status \<times> u32 option) outcome" where
  "mm_vpn_to_pfn vpn m =
     obind (vread page_dir_vpn (pde_index vpn) m) (\<lambda>e.
       if \<not> entry_p e then Ok (STATUS_PAGE_NOT_PRESENT, None)
       else obind (vread (pt_vpn vpn) (pt_index vpn) m) (\<lambda>t.
         if \<not> entry_p t then Ok (STATUS_PAGE_NOT_PRESENT, None)
         else Ok (STATUS_SUCCESS, Some (entry_base t))))"

definition mm_vaddr_to_paddr :: "u32 \<Rightarrow> mm \<Rightarrow> (status \<times> u32 option) outcome" where
  "mm_vaddr_to_paddr vaddr m =
     obind (mm_vpn_to_pfn (drop_bit 12 vaddr) m) (\<lambda>(st, pfn).
       if \<not> CHECK_SUCCESS st then Ok (st, None)
       else Ok (STATUS_SUCCESS, Some (the pfn * PAGE_SIZE + (vaddr AND (PAGE_SIZE - 1)))))"

text \<open>Read, modify and write of one entry through the recursive mapping.\<close>

definition pt_update :: "u32 \<Rightarrow> u32 \<Rightarrow> (u32 \<Rightarrow> u32) \<Rightarrow> mm \<Rightarrow> mm outcome" where
  "pt_update pv i f m = obind (vread pv i m) (\<lambda>t. vwrite pv i (f t) m)"

definition clear_page_table :: "u32 \<Rightarrow> mm \<Rightarrow> mm outcome" where
  "clear_page_table pv m = ofold (\<lambda>i. vwrite pv i 0) (map of_nat [0 ..< 1024]) m"

text \<open>The first part of \<^verbatim>\<open>map\<close>: a page table for the page, created when it is missing.\<close>

definition ensure_page_table :: "u32 \<Rightarrow> mm \<Rightarrow> (status \<times> mm) outcome" where
  "ensure_page_table vpn m =
     obind (vread page_dir_vpn (pde_index vpn) m) (\<lambda>e.
       if \<not> entry_p e then
         obind (mm_pma_allocate_frame 1 (mm_pma m)) (\<lambda>(st, new_pt_pfn, p).
           if \<not> CHECK_SUCCESS st then Ok (st, m\<lparr>mm_pma := p\<rparr>)
           else obind (vwrite page_dir_vpn (pde_index vpn)
                         (0x00000003 OR push_bit 12 (the new_pt_pfn)) (m\<lparr>mm_pma := p\<rparr>))
             (\<lambda>m1. obind (clear_page_table (pt_vpn vpn) m1) (\<lambda>m2. Ok (STATUS_SUCCESS, m2))))
       else Ok (STATUS_SUCCESS, m))"

text \<open>The second part: the stores that make the entry, one bit field after the other.\<close>

definition write_entry :: "u32 \<Rightarrow> u32 \<Rightarrow> u32 \<Rightarrow> mm \<Rightarrow> mm outcome" where
  "write_entry pfn vpn flags m =
     (let pv = pt_vpn vpn; i = pt_index vpn in
      obind (vwrite pv i (push_bit 12 pfn) m) (\<lambda>m.
      obind (if flags AND PMF_READONLY = 0 then pt_update pv i (set_entry_bit RW_BIT) m else Ok m) (\<lambda>m.
      obind (if flags AND PMF_USER \<noteq> 0 then pt_update pv i (set_entry_bit US_BIT) m else Ok m) (\<lambda>m.
      obind (if flags AND PMF_NOCACHE \<noteq> 0 \<or> flags AND PMF_WTCACHE \<noteq> 0
             then obind (pt_update pv i (set_entry_bit PAT_BIT) m) (\<lambda>m.
                  obind (if flags AND PMF_NOCACHE \<noteq> 0 then pt_update pv i (set_entry_bit PCD_BIT) m else Ok m) (\<lambda>m.
                  if flags AND PMF_WTCACHE \<noteq> 0 then pt_update pv i (set_entry_bit PWT_BIT) m else Ok m))
             else Ok m) (\<lambda>m.
      pt_update pv i (set_entry_bit P_BIT) m)))))"

definition map_page :: "u32 \<Rightarrow> u32 \<Rightarrow> u32 \<Rightarrow> mm \<Rightarrow> (status \<times> mm) outcome" where
  "map_page pfn vpn flags m =
     obind (ensure_page_table vpn m) (\<lambda>(st, m1).
       if \<not> CHECK_SUCCESS st then Ok (st, m1)
       else obind (vread (pt_vpn vpn) (pt_index vpn) m1) (\<lambda>t.
         if entry_p t then Ok (STATUS_CONFLICTING_STATE, m1)
         else obind (write_entry pfn vpn flags m1) (\<lambda>m2. Ok (STATUS_SUCCESS, m2))))"

definition mm_map :: "u32 \<Rightarrow> u32 \<Rightarrow> u32 \<Rightarrow> u32 \<Rightarrow> mm \<Rightarrow> (status \<times> mm) outcome" where
  "mm_map pfn vpn page_count flags m =
     status_loop (\<lambda>i. map_page (pfn + i) (vpn + i) flags) (indices page_count) m"

definition unmap_page :: "u32 \<Rightarrow> mm \<Rightarrow> mm outcome" where
  "unmap_page vpn m =
     obind (vread page_dir_vpn (pde_index vpn) m) (\<lambda>e.
       if \<not> entry_p e then Ok m
       else obind (vread (pt_vpn vpn) (pt_index vpn) m) (\<lambda>t.
         if \<not> entry_p t then Ok m else vwrite (pt_vpn vpn) (pt_index vpn) 0 m))"

definition mm_unmap :: "u32 \<Rightarrow> u32 \<Rightarrow> mm \<Rightarrow> (status \<times> mm) outcome" where
  "mm_unmap vpn page_count m =
     obind (ofold (\<lambda>i. unmap_page (vpn + i)) (indices page_count) m) (\<lambda>m'. Ok (STATUS_SUCCESS, m'))"

text \<open>The loop body that \<^verbatim>\<open>mm_allocate_pages\<close> and \<^verbatim>\<open>mm_allocate_pages_to\<close> share.\<close>

definition back_page :: "u32 \<Rightarrow> mm \<Rightarrow> (status \<times> mm) outcome" where
  "back_page vpn m =
     obind (mm_vpn_to_pfn vpn m) (\<lambda>(st, _).
       if \<not> CHECK_SUCCESS st \<and> st \<noteq> STATUS_PAGE_NOT_PRESENT then Ok (st, m)
       else if st = STATUS_PAGE_NOT_PRESENT then
         obind (mm_pma_allocate_frame 1 (mm_pma m)) (\<lambda>(st, allocated_pfn, p).
           if \<not> CHECK_SUCCESS st then Ok (st, m\<lparr>mm_pma := p\<rparr>)
           else mm_map (the allocated_pfn) vpn 1 PMF_DEFAULT (m\<lparr>mm_pma := p\<rparr>))
       else Ok (STATUS_SUCCESS, m))"

definition mm_allocate_pages_to :: "u32 \<Rightarrow> u32 \<Rightarrow> mm \<Rightarrow> (status \<times> mm) outcome" where
  "mm_allocate_pages_to vpn page_count m =
     status_loop (\<lambda>i. back_page (vpn + i)) (indices page_count) m"

text \<open>
  \<^verbatim>\<open>mm_allocate_pages\<close> does not look at the status of the page allocator: when that fails,
  the local variable it should have set keeps the value \<open>garbage\<close> that was on the stack.
\<close>

definition mm_allocate_pages :: "u32 \<Rightarrow> u32 \<Rightarrow> mm \<Rightarrow> (status \<times> u32 option \<times> mm) outcome" where
  "mm_allocate_pages garbage page_count m =
     (let (_, vpn, v) = mm_vma_allocate_page page_count VAF_DEFAULT (mm_vma m);
          allocated_vpn = (case vpn of Some b \<Rightarrow> b | None \<Rightarrow> garbage)
      in obind (mm_allocate_pages_to allocated_vpn page_count (m\<lparr>mm_vma := v\<rparr>)) (\<lambda>(st, m1).
           if \<not> CHECK_SUCCESS st then Ok (st, None, m1)
           else Ok (STATUS_SUCCESS, Some allocated_vpn, m1)))"

definition free_page :: "u32 \<Rightarrow> mm \<Rightarrow> mm outcome" where
  "free_page vpn m =
     obind (mm_vpn_to_pfn vpn m) (\<lambda>(st, pfn).
       if \<not> CHECK_SUCCESS st then Ok m
       else obind (mm_unmap vpn 1 m) (\<lambda>(st, m1).
         if \<not> CHECK_SUCCESS st then Ok m1
         else obind (mm_pma_free_frame (the pfn) 1 (mm_pma m1)) (\<lambda>p. Ok (m1\<lparr>mm_pma := p\<rparr>))))"

definition mm_free_pages :: "u32 \<Rightarrow> u32 \<Rightarrow> mm \<Rightarrow> mm outcome" where
  "mm_free_pages vpn page_count m = ofold (\<lambda>i. free_page (vpn + i)) (indices page_count) m"

section \<open>Specification\<close>

abbreviation (input) pde :: "mm \<Rightarrow> u32 \<Rightarrow> u32" where
  "pde m d \<equiv> phys m (cr3_pfn m) d"

text \<open>
  The invariant: the allocator's own, the recursive slot, and page tables in frames of their own
  that the allocator does not consider free.
\<close>

definition mm_inv :: "mm \<Rightarrow> bool" where
  "mm_inv m \<longleftrightarrow> pma_inv (mm_pma m) \<and>
     entry_p (pde m 1023) \<and> entry_base (pde m 1023) = cr3_pfn m \<and>
     (\<forall>d < 1024. \<forall>d' < 1024. entry_p (pde m d) \<longrightarrow> entry_p (pde m d') \<longrightarrow>
        entry_base (pde m d) = entry_base (pde m d') \<longrightarrow> d = d') \<and>
     (\<forall>d < 1024. entry_p (pde m d) \<longrightarrow> \<not> frame_free (mm_pma m) (entry_base (pde m d)))"

text \<open>The page table entry that a mapping with the given flags gets.\<close>

definition map_entry :: "u32 \<Rightarrow> u32 \<Rightarrow> u32" where
  "map_entry pfn flags = ((((((push_bit 12 pfn
     OR (if flags AND PMF_READONLY = 0 then 2 else 0))
     OR (if flags AND PMF_USER \<noteq> 0 then 4 else 0))
     OR (if flags AND PMF_NOCACHE \<noteq> 0 \<or> flags AND PMF_WTCACHE \<noteq> 0 then 128 else 0))
     OR (if flags AND PMF_NOCACHE \<noteq> 0 then 16 else 0))
     OR (if flags AND PMF_WTCACHE \<noteq> 0 then 8 else 0)) OR 1)"

text \<open>Clearing a page table.\<close>

definition cleared :: "u32 \<Rightarrow> nat \<Rightarrow> mm \<Rightarrow> mm" where
  "cleared f k m = m\<lparr>phys := (phys m)(f := \<lambda>i. if unat i < k then 0 else phys m f i)\<rparr>"

definition table_frame :: "mm \<Rightarrow> u32 \<Rightarrow> bool" where
  "table_frame m f \<longleftrightarrow> (\<exists>d < 1024. entry_p (pde m d) \<and> entry_base (pde m d) = f)"

text \<open>
  What a step of the page mapper keeps: the directory it works in, that frames become used,
  never free, and that a frame becomes a page table only if it was free.
\<close>

definition mm_kept :: "mm \<Rightarrow> mm \<Rightarrow> bool" where
  "mm_kept m m' \<longleftrightarrow> mm_inv m' \<and> cr3_pfn m' = cr3_pfn m \<and> mm_vma m' = mm_vma m \<and>
     (\<forall>f. frame_free (mm_pma m') f \<longrightarrow> frame_free (mm_pma m) f) \<and>
     (\<forall>f. frame_used (mm_pma m) f \<longrightarrow> frame_used (mm_pma m') f) \<and>
     (\<forall>f. table_frame m' f \<longrightarrow> table_frame m f \<or> frame_free (mm_pma m) f)"

text \<open>Pages whose translation does not go through the recursive slot.\<close>

abbreviation (input) ordinary :: "u32 \<Rightarrow> bool" where "ordinary vpn \<equiv> pde_index vpn \<noteq> 1023"

text \<open>The abstract state of the mapper: the partial map from ordinary pages to frames.\<close>

definition page_map :: "mm \<Rightarrow> u32 \<Rightarrow> u32 option" where
  "page_map m vpn = (if vpn < 2 ^ 20 \<and> ordinary vpn then mmu_walk m vpn else None)"

definition leaf_entry :: "mm \<Rightarrow> u32 \<Rightarrow> u32" where
  "leaf_entry m vpn = phys m (entry_base (pde m (pde_index vpn))) (pt_index vpn)"

definition in_range :: "u32 \<Rightarrow> nat \<Rightarrow> u32 \<Rightarrow> bool" where
  "in_range vpn n v \<longleftrightarrow> unat vpn \<le> unat v \<and> unat v < unat vpn + n"

text \<open>The page map after the first \<open>k\<close> pages of a range were mapped.\<close>

definition mapped_to :: "u32 \<Rightarrow> u32 \<Rightarrow> nat \<Rightarrow> (u32 \<Rightarrow> u32 option) \<Rightarrow> u32 \<Rightarrow> u32 option" where
  "mapped_to pfn vpn k M v = (if in_range vpn k v then Some (pfn + (v - vpn)) else M v)"

text \<open>
  An example: a page directory in frame \<open>0x101\<close> with the recursive slot and one empty page table,
  for the pages from \<open>0x400\<close>, in frame \<open>0x100\<close>.
\<close>

definition mm_example :: mm where
  "mm_example = \<lparr>mm_pma = pma_example, mm_vma = vma_example,
     phys = (\<lambda>f i. if f = 0x101 \<and> i = 1023 then 0x101003 else if f = 0x101 \<and> i = 1 then 0x100003 else 0),
     cr3_pfn = 0x101\<rparr>"

definition fresh_page :: "mm \<Rightarrow> u32 \<Rightarrow> nat \<Rightarrow> u32 \<Rightarrow> bool" where
  "fresh_page m vpn n v \<longleftrightarrow> in_range vpn n v \<and> page_map m v = None"

definition fresh_frame :: "mm \<Rightarrow> mm \<Rightarrow> u32 \<Rightarrow> bool" where
  "fresh_frame m m' f \<longleftrightarrow> frame_free (mm_pma m) f \<and> frame_used (mm_pma m') f \<and> \<not> table_frame m' f"

text \<open>
  The pages of a range that got a frame: the frame was free, is used now, holds no page table and
  is the frame of one such page only.
\<close>

definition backed :: "mm \<Rightarrow> mm \<Rightarrow> u32 \<Rightarrow> nat \<Rightarrow> bool" where
  "backed m m' vpn n \<longleftrightarrow>
     (\<forall>v. \<not> fresh_page m vpn n v \<longrightarrow> page_map m' v = page_map m v) \<and>
     (\<forall>v. fresh_page m vpn n v \<longrightarrow> (\<exists>f. page_map m' v = Some f \<and> fresh_frame m m' f)) \<and>
     inj_on (page_map m') {v. fresh_page m vpn n v}"

text \<open>Pages of a range that own the frame they are mapped to.\<close>

definition owned :: "mm \<Rightarrow> u32 \<Rightarrow> nat \<Rightarrow> bool" where
  "owned m vpn n \<longleftrightarrow>
     (\<forall>v f. in_range vpn n v \<and> page_map m v = Some f \<longrightarrow> frame_used (mm_pma m) f \<and> \<not> table_frame m f) \<and>
     (\<forall>v v' f. in_range vpn n v \<and> in_range vpn n v' \<and> page_map m v = Some f \<and> page_map m v' = Some f \<longrightarrow> v = v')"

section \<open>Lemmas\<close>

lemma pde_index_bound: "pde_index vpn < 1024"
proof -
  have "unat (vpn AND 0x000FFC00) \<le> unat (0x000FFC00 :: u32)"
    by (metis word_and_le1 word_le_nat_alt)
  then show ?thesis
    by (simp add: pde_index_def word_less_nat_alt drop_bit_eq_div unat_div)
qed

lemma walk_page_dir:
  assumes "mm_inv m" shows "mmu_walk m page_dir_vpn = Some (cr3_pfn m)"
proof -
  have "pde_index page_dir_vpn = 1023" "pt_index page_dir_vpn = 1023"
    by (simp_all add: pde_index_def pt_index_def)
  then show ?thesis using assms by (simp add: mmu_walk_def mm_inv_def)
qed

lemma page_mask_consts:
  "(0xFFC00000 :: u32) = push_bit 22 (mask 10)" "(0x000FFC00 :: u32) = push_bit 10 (mask 10)"
  "(0x000003FF :: u32) = mask 10"
  by (simp_all add: mask_eq_exp_minus_1 push_bit_eq_mult)

lemma pt_vpn_bits: "pt_vpn vpn = 0x000FFC00 OR pde_index vpn"
proof -
  have "0xFFC00000 + push_bit 2 (vpn AND 0x000FFC00) = (0xFFC00000 OR push_bit 2 (vpn AND 0x000FFC00))"
    unfolding page_mask_consts by (rule disjunctive_add) (auto simp: bit_simps)
  then show ?thesis
    unfolding pt_vpn_def pde_index_def
    by (simp only: page_mask_consts) (intro bit_word_eqI, auto simp: bit_simps)
qed

lemma pt_vpn_index:
  "pde_index (pt_vpn vpn) = 1023" "pt_index (pt_vpn vpn) = pde_index vpn"
proof -
  have "(1023 :: u32) = mask 10" by (simp add: mask_eq_exp_minus_1)
  then show "pde_index (pt_vpn vpn) = 1023"
    unfolding pt_vpn_bits unfolding pde_index_def
    by (simp only: page_mask_consts) (intro bit_word_eqI, auto simp: bit_simps)
  show "pt_index (pt_vpn vpn) = pde_index vpn"
    unfolding pt_vpn_bits unfolding pde_index_def pt_index_def
    by (simp only: page_mask_consts) (intro bit_word_eqI, auto simp: bit_simps)
qed

lemma walk_page_table:
  assumes "mm_inv m"
  shows "mmu_walk m (pt_vpn vpn) =
    (if entry_p (pde m (pde_index vpn)) then Some (entry_base (pde m (pde_index vpn))) else None)"
  using assms by (simp add: mmu_walk_def pt_vpn_index mm_inv_def)

lemma vread_page_dir: "mm_inv m \<Longrightarrow> vread page_dir_vpn d m = Ok (pde m d)"
  by (simp add: vread_def walk_page_dir)

lemma vread_page_table:
  assumes "mm_inv m"
  shows "vread (pt_vpn vpn) i m = (if entry_p (pde m (pde_index vpn))
     then Ok (phys m (entry_base (pde m (pde_index vpn))) i) else Fault)"
  using assms by (simp add: vread_def walk_page_table)

lemma vwrite_page_table:
  assumes "mm_inv m"
  shows "vwrite (pt_vpn vpn) i w m = (if entry_p (pde m (pde_index vpn))
     then Ok (put (entry_base (pde m (pde_index vpn))) i w m) else Fault)"
  using assms by (simp add: vwrite_def walk_page_table)

lemma vwrite_page_dir: "mm_inv m \<Longrightarrow> vwrite page_dir_vpn d w m = Ok (put (cr3_pfn m) d w m)"
  by (simp add: vwrite_def walk_page_dir)

lemma vpn_to_pfn_walk:
  assumes "mm_inv m"
  shows "mm_vpn_to_pfn vpn m = Ok (case mmu_walk m vpn of
     None \<Rightarrow> (STATUS_PAGE_NOT_PRESENT, None) | Some f \<Rightarrow> (STATUS_SUCCESS, Some f))"
  unfolding mm_vpn_to_pfn_def vread_page_dir [OF assms] vread_page_table [OF assms]
  by (simp add: mmu_walk_def Let_def)

text \<open>Two pages with the same directory and table index are the same page.\<close>

lemma page_index_inj:
  assumes "vpn < 2 ^ 20" "vpn' < 2 ^ 20" "pde_index vpn = pde_index vpn'" "pt_index vpn = pt_index vpn'"
  shows "vpn = vpn'"
proof -
  have s: "\<And>v. v < 2 ^ 20 \<Longrightarrow> v = (push_bit 10 (pde_index v) OR pt_index v)"
  proof -
    fix v :: u32 assume "v < 2 ^ 20"
    then have "take_bit 20 v = v" by (rule word_less_exp_take_bit) simp
    then have b: "\<And>n. bit v n \<Longrightarrow> n < 20" by (metis bit_take_bit_iff)
    show "v = (push_bit 10 (pde_index v) OR pt_index v)"
      unfolding pde_index_def pt_index_def page_mask_consts
      by (intro bit_word_eqI) (auto simp: bit_simps dest: b)
  qed
  show ?thesis using s [OF assms(1)] s [OF assms(2)] assms(3,4) by simp
qed

lemma pt_index_bound: "pt_index vpn < 1024"
proof -
  have "unat (vpn AND 0x3FF) \<le> unat (0x3FF :: u32)" by (metis word_and_le1 word_le_nat_alt)
  then show ?thesis by (simp add: pt_index_def word_less_nat_alt)
qed

lemma put_simps [simp]:
  "mm_pma (put f i w m) = mm_pma m" "mm_vma (put f i w m) = mm_vma m" "cr3_pfn (put f i w m) = cr3_pfn m"
  "phys (put f i w m) g j = (if g = f \<and> j = i then w else phys m g j)"
  by (simp_all add: put_def)

lemma put_put [simp]: "put f i w' (put f i w m) = put f i w' m"
  by (simp add: put_def)

text \<open>A store into a page table other than the directory keeps the invariant.\<close>

lemma mm_inv_put: "mm_inv m \<Longrightarrow> f \<noteq> cr3_pfn m \<Longrightarrow> mm_inv (put f i w m)"
  by (simp add: mm_inv_def)

lemma mm_inv_table_inj:
  "mm_inv m \<Longrightarrow> d < 1024 \<Longrightarrow> d' < 1024 \<Longrightarrow> entry_p (pde m d) \<Longrightarrow> entry_p (pde m d') \<Longrightarrow>
     entry_base (pde m d) = entry_base (pde m d') \<longleftrightarrow> d = d'"
  unfolding mm_inv_def by blast

lemma mm_inv_recursive: "mm_inv m \<Longrightarrow> entry_p (pde m 1023)" "mm_inv m \<Longrightarrow> entry_base (pde m 1023) = cr3_pfn m"
  by (simp_all add: mm_inv_def)

lemma page_table_not_dir:
  assumes "mm_inv m" "entry_p (pde m d)" "d < 1024" "d \<noteq> 1023" shows "entry_base (pde m d) \<noteq> cr3_pfn m"
  using mm_inv_table_inj [OF assms(1,3), of 1023] assms(2,4) mm_inv_recursive [OF assms(1)] by simp

text \<open>The page directory as seen after a store into one page table.\<close>

lemma pt_update_table:
  assumes "mm_inv m" "entry_p (pde m (pde_index vpn))"
  shows "pt_update (pt_vpn vpn) i f m =
    Ok (put (entry_base (pde m (pde_index vpn))) i (f (phys m (entry_base (pde m (pde_index vpn))) i)) m)"
  using assms by (simp add: pt_update_def vread_page_table vwrite_page_table)

lemma set_entry_bit_comm: "set_entry_bit a (set_entry_bit b w) = set_entry_bit b (set_entry_bit a w)"
  unfolding set_entry_bit_def by (intro bit_word_eqI) (auto simp: bit_simps)

lemma set_entry_bit_or: "set_entry_bit n w = (w OR push_bit n 1)"
  by (simp add: set_entry_bit_def set_bit_eq_or)

lemma write_entry_put:
  assumes inv: "mm_inv m" and pr: "entry_p (pde m (pde_index vpn))" and d: "pde_index vpn \<noteq> 1023"
  shows "write_entry pfn vpn flags m =
    Ok (put (entry_base (pde m (pde_index vpn))) (pt_index vpn) (map_entry pfn flags) m)"
proof -
  let ?f = "entry_base (pde m (pde_index vpn))" and ?i = "pt_index vpn"
  have nd: "?f \<noteq> cr3_pfn m" by (rule page_table_not_dir [OF inv pr pde_index_bound d])
  have st: "mm_inv (put ?f ?i w m)" "entry_p (pde (put ?f ?i w m) (pde_index vpn))"
    "entry_base (pde (put ?f ?i w m) (pde_index vpn)) = ?f" for w
    using mm_inv_put [OF inv nd] pr nd by auto
  have up: "pt_update (pt_vpn vpn) ?i g (put ?f ?i w m) = Ok (put ?f ?i (g w) m)" for g w
    using pt_update_table [OF st(1,2)] nd [symmetric] by simp
  have wr: "vwrite (pt_vpn vpn) ?i w m = Ok (put ?f ?i w m)" for w
    using vwrite_page_table [OF inv] pr by simp
  show ?thesis
    unfolding write_entry_def Let_def wr
    by (simp add: up map_entry_def set_entry_bit_or)
qed


text \<open>Fields of the entries that the code makes.\<close>

lemma entry_base_or_low:
  fixes f w :: u32
  assumes "f < 2 ^ 20" "w < 2 ^ 12"
  shows "entry_base (w OR push_bit 12 f) = f"
proof -
  have f: "take_bit 20 f = f" using assms(1) by (rule word_less_exp_take_bit) simp
  have w: "take_bit 12 w = w" using assms(2) by (rule word_less_exp_take_bit) simp
  have "\<And>n. bit f n \<Longrightarrow> n < 20" "\<And>n. bit w n \<Longrightarrow> n < 12" using f w by (metis bit_take_bit_iff)+
  then show ?thesis
    unfolding entry_base_def by (intro bit_word_eqI) (fastforce simp: bit_simps)
qed

lemma new_table_entry:
  assumes "f < 2 ^ 20"
  shows "entry_p (3 OR push_bit 12 f)" "entry_base (3 OR push_bit 12 f) = f"
proof -
  show "entry_p (3 OR push_bit 12 f)" by (simp add: entry_p_def bit_simps)
  show "entry_base (3 OR push_bit 12 f) = f" using entry_base_or_low [OF assms, of 3] by simp
qed

lemma bit_u32_power: "k < 32 \<Longrightarrow> bit ((2 :: u32) ^ k) n \<longleftrightarrow> n = k"
  by (auto simp: bit_exp_iff possible_bit_word)

lemma bit_map_entry:
  "bit (map_entry pfn flags) n \<longleftrightarrow> n < 32 \<and>
     (12 \<le> n \<and> bit pfn (n - 12) \<or> n = 0 \<or> n = 1 \<and> flags AND PMF_READONLY = 0 \<or>
      n = 2 \<and> flags AND PMF_USER \<noteq> 0 \<or> n = 3 \<and> flags AND PMF_WTCACHE \<noteq> 0 \<or>
      n = 4 \<and> flags AND PMF_NOCACHE \<noteq> 0 \<or>
      n = 7 \<and> (flags AND PMF_NOCACHE \<noteq> 0 \<or> flags AND PMF_WTCACHE \<noteq> 0))"
proof -
  have c: "bit (2 :: u32) n \<longleftrightarrow> n = 1" "bit (4 :: u32) n \<longleftrightarrow> n = 2" "bit (8 :: u32) n \<longleftrightarrow> n = 3"
    "bit (16 :: u32) n \<longleftrightarrow> n = 4" "bit (128 :: u32) n \<longleftrightarrow> n = 7" "bit (1 :: u32) n \<longleftrightarrow> n = 0"
    using bit_u32_power [of 1 n] bit_u32_power [of 2 n] bit_u32_power [of 3 n] bit_u32_power [of 4 n]
      bit_u32_power [of 7 n] bit_u32_power [of 0 n]
    by simp_all
  have b: "bit (if P then w else 0) n \<longleftrightarrow> P \<and> bit w n" for P and w :: u32 by simp
  show ?thesis
    unfolding map_entry_def bit_or_iff b c by (auto simp: bit_push_bit_iff possible_bit_word)
qed

lemma map_entry_fields:
  "entry_p (map_entry pfn flags)"
  "pfn < 2 ^ 20 \<Longrightarrow> entry_base (map_entry pfn flags) = pfn"
  "entry_r_w (map_entry pfn flags) \<longleftrightarrow> flags AND PMF_READONLY = 0"
  "entry_u_s (map_entry pfn flags) \<longleftrightarrow> flags AND PMF_USER \<noteq> 0"
  "entry_pcd (map_entry pfn flags) \<longleftrightarrow> flags AND PMF_NOCACHE \<noteq> 0"
  "entry_pwt (map_entry pfn flags) \<longleftrightarrow> flags AND PMF_WTCACHE \<noteq> 0"
proof -
  assume "pfn < 2 ^ 20"
  then have "take_bit 20 pfn = pfn" by (rule word_less_exp_take_bit) simp
  then have b: "\<And>n. bit pfn n \<Longrightarrow> n < 20" by (metis bit_take_bit_iff)
  then show "entry_base (map_entry pfn flags) = pfn"
    unfolding entry_base_def by (intro bit_word_eqI) (auto simp: bit_drop_bit_eq bit_map_entry dest: b)
qed (auto simp: entry_p_def entry_r_w_def entry_u_s_def entry_pcd_def entry_pwt_def bit_map_entry)

lemma cleared_simps [simp]:
  "mm_pma (cleared f k m) = mm_pma m" "mm_vma (cleared f k m) = mm_vma m" "cr3_pfn (cleared f k m) = cr3_pfn m"
  "phys (cleared f k m) g i = (if g = f \<and> unat i < k then 0 else phys m g i)"
  by (simp_all add: cleared_def)

lemma cleared_Suc: "k < 2 ^ 32 \<Longrightarrow> put f (of_nat k) 0 (cleared f k m) = cleared f (Suc k) m"
proof -
  assume "k < 2 ^ 32"
  then have "unat i = k \<longleftrightarrow> i = of_nat k" for i :: u32
    by (metis unat_of_nat_u32 word_unat_eq_iff)
  then show ?thesis by (auto simp: put_def cleared_def fun_eq_iff less_Suc_eq)
qed

lemma clear_page_table_ok:
  assumes inv: "mm_inv m" and pr: "entry_p (pde m (pde_index vpn))" and d: "pde_index vpn \<noteq> 1023"
  defines "f \<equiv> entry_base (pde m (pde_index vpn))"
  shows "clear_page_table (pt_vpn vpn) m = Ok (cleared f 1024 m)"
proof -
  have nd: "f \<noteq> cr3_pfn m" unfolding f_def by (rule page_table_not_dir [OF inv pr pde_index_bound d])
  have "\<exists>s'. ofold (\<lambda>i. vwrite (pt_vpn vpn) i 0) (map of_nat [0 ..< 1024]) m = Ok s' \<and>
      s' = cleared f (length (map of_nat [0 ..< 1024] :: u32 list)) m"
  proof (rule ofold_total [where I = "\<lambda>k s. s = cleared f k m"])
    show "m = cleared f 0 m" by (simp add: cleared_def)
  next
    fix k s
    assume k: "k < length (map of_nat [0 ..< 1024] :: u32 list)" and s: "s = cleared f k m"
    have "mm_inv s" using inv nd by (simp add: s mm_inv_def)
    moreover have "pde s (pde_index vpn) = pde m (pde_index vpn)" using nd by (simp add: s)
    ultimately show "\<exists>s'. vwrite (pt_vpn vpn) (map of_nat [0 ..< 1024] ! k) 0 s = Ok s' \<and> s' = cleared f (Suc k) m"
      using vwrite_page_table [of s vpn] pr k by (simp add: f_def [symmetric] s cleared_Suc)
  qed
  then show ?thesis by (simp add: clear_page_table_def)
qed

lemma frame_free_bound: "pma_inv p \<Longrightarrow> frame_in v p f \<Longrightarrow> f < 2 ^ 20"
  by (auto simp: frame_in_def pma_inv_def)

lemma mm_inv_new_table:
  assumes inv: "mm_inv m" and np: "\<not> entry_p (pde m d)" and d: "d < 1024" "d \<noteq> 1023"
    and p: "pma_inv p" "frame_free (mm_pma m) f" "\<forall>g. frame_free p g \<longleftrightarrow> frame_free (mm_pma m) g \<and> g \<noteq> f"
  shows "mm_inv (put (cr3_pfn m) d (3 OR push_bit 12 f) (m\<lparr>mm_pma := p\<rparr>))"
proof -
  have "pma_inv (mm_pma m)" using inv by (simp add: mm_inv_def)
  then have fb: "f < 2 ^ 20" using p(2) frame_free_bound by blast
  have own: "\<And>d'. d' < 1024 \<Longrightarrow> entry_p (pde m d') \<Longrightarrow> \<not> frame_free (mm_pma m) (entry_base (pde m d'))"
    using inv by (simp add: mm_inv_def)
  show ?thesis
    unfolding mm_inv_def put_simps
    using mm_inv_table_inj [OF inv] mm_inv_recursive [OF inv] own p d new_table_entry [OF fb]
    by auto
qed

lemma ensure_page_table_spec:
  assumes inv: "mm_inv m" and d: "ordinary vpn"
  shows "\<exists>st m1. ensure_page_table vpn m = Ok (st, m1) \<and> mm_kept m m1 \<and>
    page_map m1 = page_map m \<and>
    (if st = STATUS_SUCCESS then entry_p (pde m1 (pde_index vpn))
     else st = STATUS_INSUFFICIENT_MEMORY \<and> m1 = m)"
proof (cases "entry_p (pde m (pde_index vpn))")
  case True
  then show ?thesis
    using inv by (simp add: ensure_page_table_def vread_page_dir mm_kept_def)
next
  case np: False
  let ?d = "pde_index vpn"
  have pinv: "pma_inv (mm_pma m)" using inv by (simp add: mm_inv_def)
  from kernel_frames.alloc_law [OF pinv] show ?thesis
  proof (elim disjE exE conjE)
    fix f p
    assume al: "mm_pma_allocate_frame 1 (mm_pma m) = Ok (STATUS_SUCCESS, Some f, p)"
      and p: "pma_inv p" "frame_free (mm_pma m) f" "\<forall>g. frame_free p g \<longleftrightarrow> frame_free (mm_pma m) g \<and> g \<noteq> f"
      and u: "\<forall>g. frame_used p g \<longleftrightarrow> frame_used (mm_pma m) g \<or> g = f"
    define m1 where "m1 = put (cr3_pfn m) ?d (3 OR push_bit 12 f) (m\<lparr>mm_pma := p\<rparr>)"
    have i1: "mm_inv m1" unfolding m1_def by (rule mm_inv_new_table [OF inv np pde_index_bound d p])
    have fb: "f < 2 ^ 20" by (rule frame_free_bound [OF pinv p(2)])
    have e1: "pde m1 ?d = 3 OR push_bit 12 f" by (simp add: m1_def)
    have f1: "entry_p (pde m1 ?d)" "entry_base (pde m1 ?d) = f" using new_table_entry [OF fb] by (simp_all add: e1)
    have fc: "f \<noteq> cr3_pfn m1" using page_table_not_dir [OF i1 f1(1) pde_index_bound d] f1(2) by simp
    have w: "vwrite page_dir_vpn ?d (3 OR push_bit 12 f) (m\<lparr>mm_pma := p\<rparr>) = Ok m1"
    proof -
      have "mmu_walk (m\<lparr>mm_pma := p\<rparr>) page_dir_vpn = mmu_walk m page_dir_vpn" by (simp add: mmu_walk_def Let_def)
      then show ?thesis using walk_page_dir [OF inv] by (simp add: vwrite_def m1_def)
    qed
    have c: "clear_page_table (pt_vpn vpn) m1 = Ok (cleared f 1024 m1)"
      using clear_page_table_ok [OF i1 f1(1) d] f1(2) by simp
    have en: "ensure_page_table vpn m = Ok (STATUS_SUCCESS, cleared f 1024 m1)"
      using np by (simp add: ensure_page_table_def vread_page_dir [OF inv] al w c)
    have i2: "mm_inv (cleared f 1024 m1)" using i1 fc by (simp add: mm_inv_def)
    have walk: "mmu_walk (cleared f 1024 m1) v = mmu_walk m v" if v: "ordinary v" for v
    proof (cases "pde_index v = ?d")
      case True
      have "unat (pt_index v) < 1024" using pt_index_bound [of v] by (simp add: word_less_nat_alt)
      then show ?thesis
        using True np fc f1 by (simp add: mmu_walk_def entry_p_def)
    next
      case False
      have "entry_p (pde m (pde_index v)) \<Longrightarrow>
          entry_base (pde m (pde_index v)) \<noteq> f \<and> entry_base (pde m (pde_index v)) \<noteq> cr3_pfn m"
        using inv p(2) page_table_not_dir [OF inv _ pde_index_bound v] pde_index_bound by (auto simp: mm_inv_def)
      then show ?thesis
        using False fc by (auto simp: mmu_walk_def m1_def Let_def)
    qed
    have "table_frame (cleared f 1024 m1) g \<Longrightarrow> table_frame m g \<or> g = f" for g
      using new_table_entry [OF fb] fc by (auto simp: table_frame_def m1_def split: if_splits)
    then have "mm_kept m (cleared f 1024 m1)" using i2 p(2,3) u by (auto simp: mm_kept_def m1_def)
    moreover have "pde (cleared f 1024 m1) ?d = pde m1 ?d" using fc by simp
    moreover have "page_map (cleared f 1024 m1) = page_map m" using walk by (simp add: page_map_def fun_eq_iff)
    ultimately show ?thesis using en f1(1) by auto
  next
    assume "mm_pma_allocate_frame 1 (mm_pma m) = Ok (STATUS_INSUFFICIENT_MEMORY, None, mm_pma m)"
    then show ?thesis
      using np inv
      by (simp add: ensure_page_table_def vread_page_dir CHECK_SUCCESS_def mm_kept_def)
  qed
qed

lemma mm_kept_put:
  "mm_kept m m1 \<Longrightarrow> f \<noteq> cr3_pfn m1 \<Longrightarrow> mm_kept m (put f i w m1)"
  by (auto simp: mm_kept_def mm_inv_put table_frame_def)

lemma mm_kept_refl: "mm_inv m \<Longrightarrow> mm_kept m m"
  by (simp add: mm_kept_def)

lemma mm_kept_trans: "mm_kept m m1 \<Longrightarrow> mm_kept m1 m2 \<Longrightarrow> mm_kept m m2"
  unfolding mm_kept_def by metis

text \<open>A store into the entry of an ordinary page changes the translation of that page only.\<close>

lemma page_map_put:
  assumes inv: "mm_inv m" and pr: "entry_p (pde m (pde_index vpn))" and v: "vpn < 2 ^ 20" "ordinary vpn"
  shows "page_map (put (entry_base (pde m (pde_index vpn))) (pt_index vpn) w m) =
    (page_map m)(vpn := if entry_p w then Some (entry_base w) else None)"
proof (rule ext)
  fix u
  let ?f = "entry_base (pde m (pde_index vpn))"
  have nd: "?f \<noteq> cr3_pfn m" by (rule page_table_not_dir [OF inv pr pde_index_bound v(2)])
  show "page_map (put ?f (pt_index vpn) w m) u =
    ((page_map m)(vpn := if entry_p w then Some (entry_base w) else None)) u"
  proof (cases "u = vpn")
    case True
    then show ?thesis using v pr nd by (simp add: page_map_def mmu_walk_def)
  next
    case False
    then have "u < 2 ^ 20 \<Longrightarrow> entry_p (pde m (pde_index u)) \<Longrightarrow>
        \<not> (entry_base (pde m (pde_index u)) = ?f \<and> pt_index u = pt_index vpn)"
      using page_index_inj [OF _ v(1), of u] mm_inv_table_inj [OF inv pde_index_bound pde_index_bound _ pr] by blast
    then show ?thesis using False nd by (auto simp: page_map_def mmu_walk_def Let_def)
  qed
qed

lemma page_map_leaf:
  "vpn < 2 ^ 20 \<Longrightarrow> ordinary vpn \<Longrightarrow> entry_p (pde m (pde_index vpn)) \<Longrightarrow>
     page_map m vpn = (if entry_p (leaf_entry m vpn) then Some (entry_base (leaf_entry m vpn)) else None)"
  by (simp add: page_map_def mmu_walk_def leaf_entry_def)

lemma map_page_spec:
  assumes inv: "mm_inv m" and v: "vpn < 2 ^ 20" "ordinary vpn" and pfn: "pfn < 2 ^ 20"
  shows "\<exists>st m'. map_page pfn vpn flags m = Ok (st, m') \<and> mm_kept m m' \<and>
    (page_map m vpn = None \<and> st = STATUS_SUCCESS \<and> page_map m' = (page_map m)(vpn \<mapsto> pfn) \<and>
       leaf_entry m' vpn = map_entry pfn flags \<or>
     page_map m vpn \<noteq> None \<and> st = STATUS_CONFLICTING_STATE \<and> page_map m' = page_map m \<or>
     st = STATUS_INSUFFICIENT_MEMORY \<and> m' = m)"
proof -
  obtain st m1 where en: "ensure_page_table vpn m = Ok (st, m1)" "mm_kept m m1" "page_map m1 = page_map m"
    "if st = STATUS_SUCCESS then entry_p (pde m1 (pde_index vpn)) else st = STATUS_INSUFFICIENT_MEMORY \<and> m1 = m"
    using ensure_page_table_spec [OF inv v(2)] by blast
  show ?thesis
  proof (cases "st = STATUS_SUCCESS")
    case False
    then show ?thesis using en by (simp add: map_page_def CHECK_SUCCESS_def)
  next
    case True
    let ?f = "entry_base (pde m1 (pde_index vpn))"
    have i1: "mm_inv m1" using en(2) by (simp add: mm_kept_def)
    have pr: "entry_p (pde m1 (pde_index vpn))" using en(4) True by simp
    have nd: "?f \<noteq> cr3_pfn m1" by (rule page_table_not_dir [OF i1 pr pde_index_bound v(2)])
    have rd: "vread (pt_vpn vpn) (pt_index vpn) m1 = Ok (leaf_entry m1 vpn)"
      using vread_page_table [OF i1] pr by (simp add: leaf_entry_def)
    show ?thesis
    proof (cases "entry_p (leaf_entry m1 vpn)")
      case pl: True
      then have "page_map m vpn \<noteq> None" using page_map_leaf [OF v pr] en(3) by simp
      then show ?thesis using en True pl rd by (simp add: map_page_def)
    next
      case npl: False
      define m2 where "m2 = put ?f (pt_index vpn) (map_entry pfn flags) m1"
      have "map_page pfn vpn flags m = Ok (STATUS_SUCCESS, m2)"
        using en(1) True rd npl write_entry_put [OF i1 pr v(2)] by (simp add: map_page_def m2_def)
      moreover have "page_map m vpn = None" using page_map_leaf [OF v pr] npl en(3) by simp
      moreover have "page_map m2 = (page_map m)(vpn \<mapsto> pfn)"
        using page_map_put [OF i1 pr v] map_entry_fields(1,2) pfn en(3) by (simp add: m2_def)
      moreover have "leaf_entry m2 vpn = map_entry pfn flags" using nd by (simp add: leaf_entry_def m2_def)
      moreover have "mm_kept m m2"
        using mm_kept_put [OF en(2) nd] by (simp add: m2_def)
      ultimately show ?thesis by blast
    qed
  qed
qed

lemma unmap_page_spec:
  assumes inv: "mm_inv m" and v: "vpn < 2 ^ 20" "ordinary vpn"
  shows "\<exists>m'. unmap_page vpn m = Ok m' \<and> mm_kept m m' \<and> mm_pma m' = mm_pma m \<and>
     page_map m' = (page_map m)(vpn := None)"
proof (cases "entry_p (pde m (pde_index vpn))")
  case False
  then have "page_map m vpn = None" by (simp add: page_map_def mmu_walk_def)
  then have "(page_map m)(vpn := None) = page_map m" by auto
  then show ?thesis using inv False by (simp add: unmap_page_def vread_page_dir mm_kept_def)
next
  case pr: True
  let ?f = "entry_base (pde m (pde_index vpn))"
  have nd: "?f \<noteq> cr3_pfn m" by (rule page_table_not_dir [OF inv pr pde_index_bound v(2)])
  have rd: "vread (pt_vpn vpn) (pt_index vpn) m = Ok (leaf_entry m vpn)"
    using vread_page_table [OF inv] pr by (simp add: leaf_entry_def)
  show ?thesis
  proof (cases "entry_p (leaf_entry m vpn)")
    case False
    then have "page_map m vpn = None" using page_map_leaf [OF v pr] by simp
    then have "(page_map m)(vpn := None) = page_map m" by auto
    then show ?thesis using inv False pr rd by (simp add: unmap_page_def vread_page_dir mm_kept_def)
  next
    case True
    have "unmap_page vpn m = Ok (put ?f (pt_index vpn) 0 m)"
      using pr rd True by (simp add: unmap_page_def vread_page_dir [OF inv] vwrite_page_table [OF inv])
    moreover have "page_map (put ?f (pt_index vpn) 0 m) = (page_map m)(vpn := None)"
      using page_map_put [OF inv pr v, of 0] by (simp add: entry_p_def)
    ultimately show ?thesis using mm_kept_put [OF mm_kept_refl [OF inv] nd] by simp
  qed
qed

lemma low_ordinary: "unat v < 0xFFC00 \<Longrightarrow> v < 2 ^ 20 \<and> ordinary v"
proof -
  assume v: "unat v < 0xFFC00"
  have "unat (pde_index v) \<noteq> 1023"
  proof -
    have "v AND 0xFFC00 \<le> v" by (rule word_and_le2)
    then have "unat (v AND 0xFFC00) < 0xFFC00" using v by (simp add: word_le_nat_alt)
    then show ?thesis by (simp add: pde_index_def drop_bit_eq_div unat_div)
  qed
  then show ?thesis using v by (auto simp: word_less_nat_alt)
qed

lemma range_page:
  fixes vpn :: u32
  assumes "unat vpn + n \<le> 0xFFC00" "k < n"
  shows "unat (vpn + of_nat k) = unat vpn + k" "vpn + of_nat k < 2 ^ 20" "ordinary (vpn + of_nat k)"
proof -
  show u: "unat (vpn + of_nat k) = unat vpn + k" using assms by (simp add: unat_word_ariths)
  show "vpn + of_nat k < 2 ^ 20" "ordinary (vpn + of_nat k)"
    using low_ordinary [of "vpn + of_nat k"] u assms by simp_all
qed

lemma in_range_Suc:
  assumes "unat vpn + n \<le> 0xFFC00" "k < n"
  shows "in_range vpn (Suc k) v \<longleftrightarrow> in_range vpn k v \<or> v = vpn + of_nat k"
  using range_page(1) [OF assms] by (auto simp: in_range_def word_unat_eq_iff)

lemma in_range_last: "unat vpn + n \<le> 0xFFC00 \<Longrightarrow> k < n \<Longrightarrow> \<not> in_range vpn k (vpn + of_nat k)"
  using range_page(1) [of vpn n k] by (auto simp: in_range_def)

lemma in_range_0 [simp]: "\<not> in_range vpn 0 v"
  by (simp add: in_range_def)

lemma mapped_to_Suc:
  assumes "unat vpn + n \<le> 0xFFC00" "k < n"
  shows "mapped_to pfn vpn (Suc k) M = (mapped_to pfn vpn k M)(vpn + of_nat k \<mapsto> pfn + of_nat k)"
  by (rule ext) (simp add: mapped_to_def in_range_Suc [OF assms])

lemma mm_map_spec:
  assumes inv: "mm_inv m" and v: "unat vpn + unat n \<le> 0xFFC00" and pfn: "unat pfn + unat n \<le> 2 ^ 20"
  shows "\<exists>st m' k. mm_map pfn vpn n flags m = Ok (st, m') \<and> mm_kept m m' \<and> k \<le> unat n \<and>
    page_map m' = mapped_to pfn vpn k (page_map m) \<and> (\<forall>v. in_range vpn k v \<longrightarrow> page_map m v = None) \<and>
    (if st = STATUS_SUCCESS then k = unat n
     else k < unat n \<and> (st = STATUS_CONFLICTING_STATE \<and> page_map m (vpn + of_nat k) \<noteq> None \<or>
            st = STATUS_INSUFFICIENT_MEMORY))"
proof -
  let ?I = "\<lambda>k s. mm_kept m s \<and> page_map s = mapped_to pfn vpn k (page_map m) \<and>
     (\<forall>v. in_range vpn k v \<longrightarrow> page_map m v = None)"
  let ?E = "\<lambda>k st s. ?I k s \<and> (st = STATUS_CONFLICTING_STATE \<and> page_map m (vpn + of_nat k) \<noteq> None \<or>
     st = STATUS_INSUFFICIENT_MEMORY)"
  have "\<exists>st s'. status_loop (\<lambda>i. map_page (pfn + i) (vpn + i) flags) (indices n) m = Ok (st, s') \<and>
    (st = STATUS_SUCCESS \<and> ?I (length (indices n)) s' \<or>
      (\<exists>k < length (indices n). \<not> CHECK_SUCCESS st \<and> ?E k st s'))"
  proof (rule status_loop_total [where I = ?I and E = ?E])
    show "?I 0 m" using inv by (simp add: mm_kept_refl mapped_to_def fun_eq_iff)
  next
    fix k s
    assume "k < length (indices n)" and I: "?I k s"
    then have k: "k < unat n" by simp
    have ks: "mm_inv s" using I by (simp add: mm_kept_def)
    have pk: "pfn + of_nat k < 2 ^ 20" using pfn k by (simp add: word_less_nat_alt unat_word_ariths)
    have here: "page_map s (vpn + of_nat k) = page_map m (vpn + of_nat k)"
      using I in_range_last [OF v k] by (simp add: mapped_to_def)
    obtain st s' where s': "map_page (pfn + of_nat k) (vpn + of_nat k) flags s = Ok (st, s')" "mm_kept s s'"
      "page_map s (vpn + of_nat k) = None \<and> st = STATUS_SUCCESS \<and> page_map s' = (page_map s)(vpn + of_nat k \<mapsto> pfn + of_nat k) \<or>
       page_map s (vpn + of_nat k) \<noteq> None \<and> st = STATUS_CONFLICTING_STATE \<and> page_map s' = page_map s \<or>
       st = STATUS_INSUFFICIENT_MEMORY \<and> s' = s"
      using map_page_spec [OF ks range_page(2,3) [OF v k] pk, of flags] by blast
    have "mm_kept m s'" using I s'(2) mm_kept_trans by blast
    then show "\<exists>st s'. map_page (pfn + indices n ! k) (vpn + indices n ! k) flags s = Ok (st, s') \<and>
       (if CHECK_SUCCESS st then ?I (Suc k) s' else ?E k st s')"
      using s' I k here
      by (auto simp: CHECK_SUCCESS_def mapped_to_Suc [OF v k] in_range_Suc [OF v k])
  qed
  then obtain st m' where r: "mm_map pfn vpn n flags m = Ok (st, m')"
    "st = STATUS_SUCCESS \<and> ?I (unat n) m' \<or> (\<exists>k < unat n. \<not> CHECK_SUCCESS st \<and> ?E k st m')"
    by (auto simp: mm_map_def)
  then show ?thesis by (elim disjE conjE exE) (use r(1) in \<open>fastforce simp: CHECK_SUCCESS_def\<close>)+
qed

lemma mm_unmap_spec:
  assumes inv: "mm_inv m" and v: "unat vpn + unat n \<le> 0xFFC00"
  shows "\<exists>m'. mm_unmap vpn n m = Ok (STATUS_SUCCESS, m') \<and> mm_kept m m' \<and> mm_pma m' = mm_pma m \<and>
    page_map m' = (\<lambda>v. if in_range vpn (unat n) v then None else page_map m v)"
proof -
  let ?I = "\<lambda>k s. mm_kept m s \<and> mm_pma s = mm_pma m \<and>
     page_map s = (\<lambda>v. if in_range vpn k v then None else page_map m v)"
  have "\<exists>s'. ofold (\<lambda>i. unmap_page (vpn + i)) (indices n) m = Ok s' \<and> ?I (length (indices n)) s'"
  proof (rule ofold_total [where I = ?I])
    show "?I 0 m" using inv by (simp add: mm_kept_refl)
  next
    fix k s
    assume "k < length (indices n)" and I: "?I k s"
    then have k: "k < unat n" by simp
    have ks: "mm_inv s" using I by (simp add: mm_kept_def)
    obtain s' where s': "unmap_page (vpn + of_nat k) s = Ok s'" "mm_kept s s'" "mm_pma s' = mm_pma s"
      "page_map s' = (page_map s)(vpn + of_nat k := None)"
      using unmap_page_spec [OF ks range_page(2,3) [OF v k]] by blast
    have "mm_kept m s'" using I s'(2) mm_kept_trans by blast
    then show "\<exists>s'. unmap_page (vpn + indices n ! k) s = Ok s' \<and> ?I (Suc k) s'"
      using s' I k by (auto simp: in_range_Suc [OF v k] fun_eq_iff)
  qed
  then show ?thesis by (auto simp: mm_unmap_def)
qed

lemma mm_inv_pma:
  "mm_inv m \<Longrightarrow> pma_inv p \<Longrightarrow> (\<And>f. frame_free p f \<Longrightarrow> frame_free (mm_pma m) f) \<Longrightarrow> mm_inv (m\<lparr>mm_pma := p\<rparr>)"
  unfolding mm_inv_def by auto

lemma page_map_pma [simp]: "page_map (m\<lparr>mm_pma := p\<rparr>) = page_map m" "page_map (m\<lparr>mm_vma := w\<rparr>) = page_map m"
  by (auto simp: page_map_def mmu_walk_def Let_def)

lemma table_frame_pma [simp]: "table_frame (m\<lparr>mm_pma := p\<rparr>) = table_frame m" "table_frame (m\<lparr>mm_vma := w\<rparr>) = table_frame m"
  by (auto simp: table_frame_def)

lemma mm_map_one:
  assumes "mm_inv m" "unat vpn < 0xFFC00" "pfn < 2 ^ 20" "page_map m vpn = None"
  shows "\<exists>st m'. mm_map pfn vpn 1 flags m = Ok (st, m') \<and> mm_kept m m' \<and>
    (st = STATUS_SUCCESS \<and> page_map m' = (page_map m)(vpn \<mapsto> pfn) \<or>
     st = STATUS_INSUFFICIENT_MEMORY \<and> page_map m' = page_map m)"
proof -
  have ir: "in_range vpn (Suc 0) v \<longleftrightarrow> v = vpn" for v by (auto simp: in_range_def word_unat_eq_iff)
  obtain st m' k where r: "mm_map pfn vpn 1 flags m = Ok (st, m')" "mm_kept m m'" "k \<le> unat (1 :: u32)"
    "page_map m' = mapped_to pfn vpn k (page_map m)"
    "if st = STATUS_SUCCESS then k = unat (1 :: u32) else k < unat (1 :: u32) \<and>
       (st = STATUS_CONFLICTING_STATE \<and> page_map m (vpn + of_nat k) \<noteq> None \<or> st = STATUS_INSUFFICIENT_MEMORY)"
    using mm_map_spec [OF assms(1), of vpn 1 pfn flags] assms(2,3) by (auto simp: word_less_nat_alt)
  then show ?thesis
    using assms(4) by (auto simp: mapped_to_def fun_eq_iff ir split: if_splits)
qed

lemma back_page_spec:
  assumes inv: "mm_inv m" and v: "unat vpn < 0xFFC00"
  shows "\<exists>st m'. back_page vpn m = Ok (st, m') \<and> mm_kept m m' \<and>
    (case page_map m vpn of Some f \<Rightarrow> st = STATUS_SUCCESS \<and> m' = m
     | None \<Rightarrow> if st = STATUS_SUCCESS
         then (\<exists>f. fresh_frame m m' f \<and> page_map m' = (page_map m)(vpn \<mapsto> f))
         else st = STATUS_INSUFFICIENT_MEMORY \<and> page_map m' = page_map m)"
proof (cases "page_map m vpn")
  case (Some f)
  then show ?thesis
    using vpn_to_pfn_walk [OF inv, of vpn] mm_kept_refl [OF inv]
    by (simp add: back_page_def page_map_def split: if_splits)
next
  case None
  then have np: "mm_vpn_to_pfn vpn m = Ok (STATUS_PAGE_NOT_PRESENT, None)"
    using vpn_to_pfn_walk [OF inv, of vpn] low_ordinary [OF v] by (simp add: page_map_def)
  have pinv: "pma_inv (mm_pma m)" using inv by (simp add: mm_inv_def)
  from kernel_frames.alloc_law [OF pinv] show ?thesis
  proof (elim disjE exE conjE)
    fix f p
    assume al: "mm_pma_allocate_frame 1 (mm_pma m) = Ok (STATUS_SUCCESS, Some f, p)"
      and p: "pma_inv p" "frame_free (mm_pma m) f" "\<forall>g. frame_free p g \<longleftrightarrow> frame_free (mm_pma m) g \<and> g \<noteq> f"
      and u: "\<forall>g. frame_used p g \<longleftrightarrow> frame_used (mm_pma m) g \<or> g = f"
    let ?m = "m\<lparr>mm_pma := p\<rparr>"
    have i1: "mm_inv ?m" using mm_inv_pma [OF inv p(1)] p(3) by blast
    have k1: "mm_kept m ?m" using i1 p(3) u by (simp add: mm_kept_def)
    obtain st m' where m': "mm_map f vpn 1 PMF_DEFAULT ?m = Ok (st, m')" "mm_kept ?m m'"
      "st = STATUS_SUCCESS \<and> page_map m' = (page_map m)(vpn \<mapsto> f) \<or>
       st = STATUS_INSUFFICIENT_MEMORY \<and> page_map m' = page_map m"
      using mm_map_one [OF i1 v frame_free_bound [OF pinv p(2)], of PMF_DEFAULT] None by auto
    have nt: "\<not> table_frame m f" using inv p(2) by (auto simp: table_frame_def mm_inv_def)
    have "fresh_frame m m' f"
      using m'(2) nt p(2,3) u by (auto simp: mm_kept_def fresh_frame_def)
    moreover have "back_page vpn m = Ok (st, m')" using m'(1) by (simp add: back_page_def np al CHECK_SUCCESS_def)
    ultimately show ?thesis
      using m'(3) mm_kept_trans [OF k1 m'(2)] None p(2) by (auto simp: CHECK_SUCCESS_def)
  next
    assume "mm_pma_allocate_frame 1 (mm_pma m) = Ok (STATUS_INSUFFICIENT_MEMORY, None, mm_pma m)"
    then show ?thesis
      using None mm_kept_refl [OF inv] by (simp add: back_page_def np CHECK_SUCCESS_def)
  qed
qed

lemma backed_outside: "backed m s vpn k \<Longrightarrow> \<not> in_range vpn k v \<Longrightarrow> page_map s v = page_map m v"
  by (simp add: backed_def fresh_page_def)

lemma backed_inside: "backed m s vpn k \<Longrightarrow> fresh_page m vpn k v \<Longrightarrow> \<exists>f. page_map s v = Some f \<and> fresh_frame m s f"
  by (simp add: backed_def)

lemma fresh_frame_kept:
  assumes "mm_kept m s" "mm_kept s s'" "fresh_frame m s g" shows "fresh_frame m s' g"
  using assms kernel_frames.free_not_used [of "mm_pma s" g]
  by (auto simp: fresh_frame_def mm_kept_def mm_inv_def)

lemma backed_step:
  assumes b: "backed m s vpn k" and k: "mm_kept m s" "mm_kept s s'" and n: "page_map s v = None"
    and s': "page_map s' = (page_map s)(v \<mapsto> f)" "fresh_frame s s' f"
    and r: "\<And>w. in_range vpn (Suc k) w \<longleftrightarrow> in_range vpn k w \<or> w = v" "\<not> in_range vpn k v"
  shows "backed m s' vpn (Suc k)"
proof -
  have mn: "page_map m v = None" using backed_outside [OF b r(2)] n by simp
  have fp: "{w. fresh_page m vpn (Suc k) w} = insert v {w. fresh_page m vpn k w}"
    using mn r(1) by (auto simp: fresh_page_def)
  have nv: "v \<notin> {w. fresh_page m vpn k w}" using r(2) by (simp add: fresh_page_def)
  have new: "fresh_frame m s' f" using s'(2) k by (auto simp: fresh_frame_def mm_kept_def)
  have other: "page_map s w \<noteq> Some f" if w: "fresh_page m vpn k w" for w
  proof -
    obtain g where "page_map s w = Some g" "fresh_frame m s g" using backed_inside [OF b w] by blast
    then show ?thesis
      using s'(2) k(1) kernel_frames.free_not_used by (auto simp: fresh_frame_def mm_kept_def mm_inv_def)
  qed
  have same: "page_map s' w = page_map s w" if "fresh_page m vpn k w" for w
    using that nv s'(1) by auto
  have "inj_on (page_map s) {w. fresh_page m vpn k w}" using b by (simp add: backed_def)
  then have "inj_on (page_map s') {w. fresh_page m vpn k w}" using same by (simp add: inj_on_def)
  moreover have "page_map s' v \<notin> page_map s' ` {w. fresh_page m vpn k w}"
  proof
    assume "page_map s' v \<in> page_map s' ` {w. fresh_page m vpn k w}"
    then obtain w where w: "fresh_page m vpn k w" "page_map s' w = page_map s' v" by auto
    show False using other [OF w(1)] same [OF w(1)] w(2) s'(1) by simp
  qed
  ultimately have inj: "inj_on (page_map s') (insert v {w. fresh_page m vpn k w})" using nv by simp
  have fpw: "fresh_page m vpn (Suc k) w \<longleftrightarrow> w = v \<or> fresh_page m vpn k w" for w using fp by auto
  have out: "page_map s' w = page_map m w" if "\<not> fresh_page m vpn (Suc k) w" for w
    using that fpw b s'(1) by (simp add: backed_def)
  have "\<exists>f. page_map s' w = Some f \<and> fresh_frame m s' f" if "fresh_page m vpn (Suc k) w" for w
  proof (cases "w = v")
    case True
    then show ?thesis using new s'(1) by simp
  next
    case False
    then have w: "fresh_page m vpn k w" using that fpw by simp
    show ?thesis using backed_inside [OF b w] same [OF w] fresh_frame_kept [OF k] by auto
  qed
  then show ?thesis using out inj fp by (simp add: backed_def)
qed

lemma backed_keep:
  assumes "backed m s vpn k" "page_map s v \<noteq> None"
    and r: "\<And>w. in_range vpn (Suc k) w \<longleftrightarrow> in_range vpn k w \<or> w = v" "\<not> in_range vpn k v"
  shows "backed m s vpn (Suc k)"
proof -
  have "page_map m v \<noteq> None" using backed_outside [OF assms(1) r(2)] assms(2) by simp
  then have "fresh_page m vpn (Suc k) = fresh_page m vpn k"
    using r(1) by (auto simp: fresh_page_def fun_eq_iff)
  then show ?thesis using assms(1) by (simp add: backed_def)
qed

lemma backed_same_map:
  assumes "backed m s vpn k" "mm_kept m s" "mm_kept s s'" "page_map s' = page_map s"
  shows "backed m s' vpn k"
  using assms(1) fresh_frame_kept [OF assms(2,3)] assms(4) unfolding backed_def by fastforce

lemma allocate_pages_to_spec:
  assumes inv: "mm_inv m" and v: "unat vpn + unat n \<le> 0xFFC00"
  shows "\<exists>st m' k. mm_allocate_pages_to vpn n m = Ok (st, m') \<and> mm_kept m m' \<and> backed m m' vpn k \<and>
    (if st = STATUS_SUCCESS then k = unat n else k < unat n \<and> st = STATUS_INSUFFICIENT_MEMORY)"
proof -
  let ?I = "\<lambda>k s. mm_kept m s \<and> backed m s vpn k"
  let ?E = "\<lambda>k st s. mm_kept m s \<and> backed m s vpn k \<and> st = STATUS_INSUFFICIENT_MEMORY"
  have "\<exists>st s'. status_loop (\<lambda>i. back_page (vpn + i)) (indices n) m = Ok (st, s') \<and>
    (st = STATUS_SUCCESS \<and> ?I (length (indices n)) s' \<or> (\<exists>k < length (indices n). \<not> CHECK_SUCCESS st \<and> ?E k st s'))"
  proof (rule status_loop_total [where I = ?I and E = ?E])
    show "?I 0 m" using inv by (simp add: mm_kept_refl backed_def fresh_page_def)
  next
    fix k s
    assume "k < length (indices n)" and I: "?I k s"
    then have k: "k < unat n" by simp
    have ks: "mm_inv s" using I by (simp add: mm_kept_def)
    have low: "unat (vpn + of_nat k) < 0xFFC00" using range_page(1) [OF v k] v k by simp
    note r = in_range_Suc [OF v k] in_range_last [OF v k]
    obtain st s' where s': "back_page (vpn + of_nat k) s = Ok (st, s')" "mm_kept s s'"
      "case page_map s (vpn + of_nat k) of Some f \<Rightarrow> st = STATUS_SUCCESS \<and> s' = s
     | None \<Rightarrow> if st = STATUS_SUCCESS
         then (\<exists>f. fresh_frame s s' f \<and> page_map s' = (page_map s)(vpn + of_nat k \<mapsto> f))
         else st = STATUS_INSUFFICIENT_MEMORY \<and> page_map s' = page_map s"
      using back_page_spec [OF ks low] by blast
    have kk: "mm_kept m s'" using I s'(2) mm_kept_trans by blast
    have "if CHECK_SUCCESS st then ?I (Suc k) s' else ?E k st s'"
    proof (cases "page_map s (vpn + of_nat k)")
      case None
      show ?thesis
      proof (cases "st = STATUS_SUCCESS")
        case True
        then show ?thesis using s'(3) None I kk backed_step [OF _ _ s'(2) None _ _ r] by auto
      next
        case False
        then have st: "st = STATUS_INSUFFICIENT_MEMORY" "page_map s' = page_map s" using s'(3) None by auto
        have "backed m s' vpn k" using I st(2) s'(2) backed_same_map by blast
        then show ?thesis using st(1) kk by (simp add: CHECK_SUCCESS_def)
      qed
    next
      case (Some f)
      then show ?thesis using s'(3) I kk backed_keep [OF _ _ r, of m s] by auto
    qed
    then show "\<exists>st s'. back_page (vpn + indices n ! k) s = Ok (st, s') \<and>
       (if CHECK_SUCCESS st then ?I (Suc k) s' else ?E k st s')"
      using s'(1) k by auto
  qed
  then obtain st m' where r: "mm_allocate_pages_to vpn n m = Ok (st, m')"
    "st = STATUS_SUCCESS \<and> ?I (unat n) m' \<or> (\<exists>k < unat n. \<not> CHECK_SUCCESS st \<and> ?E k st m')"
    by (auto simp: mm_allocate_pages_to_def)
  then show ?thesis by (elim disjE conjE exE) (use r(1) in \<open>fastforce simp: CHECK_SUCCESS_def\<close>)+
qed

lemma free_page_spec:
  assumes inv: "mm_inv m" and v: "unat vpn < 0xFFC00"
    and own: "\<And>f. page_map m vpn = Some f \<Longrightarrow> frame_used (mm_pma m) f \<and> \<not> table_frame m f"
  shows "\<exists>m'. free_page vpn m = Ok m' \<and> mm_inv m' \<and> page_map m' = (page_map m)(vpn := None) \<and>
     (\<forall>g. frame_free (mm_pma m') g \<longleftrightarrow> frame_free (mm_pma m) g \<or> page_map m vpn = Some g) \<and>
     (\<forall>g. frame_used (mm_pma m') g \<longleftrightarrow> frame_used (mm_pma m) g \<and> page_map m vpn \<noteq> Some g) \<and>
     (\<forall>g. table_frame m' g \<longrightarrow> table_frame m g \<or> frame_free (mm_pma m) g)"
proof (cases "page_map m vpn")
  case None
  then have "free_page vpn m = Ok m"
    using vpn_to_pfn_walk [OF inv, of vpn] low_ordinary [OF v]
    by (simp add: free_page_def page_map_def CHECK_SUCCESS_def)
  moreover have "(page_map m)(vpn := None) = page_map m" using None by auto
  ultimately show ?thesis using inv None by simp
next
  case (Some f)
  have ir: "in_range vpn (Suc 0) w \<longleftrightarrow> w = vpn" for w by (auto simp: in_range_def word_unat_eq_iff)
  have tr: "mm_vpn_to_pfn vpn m = Ok (STATUS_SUCCESS, Some f)"
    using Some vpn_to_pfn_walk [OF inv, of vpn] by (simp add: page_map_def split: if_splits)
  obtain m1 where m1: "mm_unmap vpn 1 m = Ok (STATUS_SUCCESS, m1)" "mm_kept m m1" "mm_pma m1 = mm_pma m"
    "page_map m1 = (page_map m)(vpn := None)"
    using mm_unmap_spec [OF inv, of vpn 1] v by (auto simp: ir fun_upd_def)
  have i0: "mm_inv m1" using m1(2) by (simp add: mm_kept_def)
  then have i1: "mm_inv m1" "pma_inv (mm_pma m1)" by (simp_all add: mm_inv_def)
  have u1: "frame_used (mm_pma m1) f" using own [OF Some] m1(3) by simp
  have nt: "\<not> table_frame m1 f"
    using own [OF Some] m1(2) kernel_frames.free_not_used [of "mm_pma m" f] inv
    by (auto simp: mm_kept_def mm_inv_def)
  obtain p where p: "mm_pma_free_frame f 1 (mm_pma m1) = Ok p" "pma_inv p"
    "\<forall>g. frame_free p g \<longleftrightarrow> frame_free (mm_pma m1) g \<or> g = f" "\<forall>g. frame_used p g \<longleftrightarrow> frame_used (mm_pma m1) g \<and> g \<noteq> f"
    using kernel_frames.release_law [OF i1(2) u1] by blast
  have i2: "mm_inv (m1\<lparr>mm_pma := p\<rparr>)"
    using i1(1) p(2,3) nt unfolding mm_inv_def table_frame_def by auto
  have "free_page vpn m = Ok (m1\<lparr>mm_pma := p\<rparr>)" by (simp add: free_page_def tr m1(1) p(1))
  then show ?thesis using i2 m1 p Some by (auto simp: mm_kept_def)
qed

lemma mm_free_pages_spec:
  assumes inv: "mm_inv m" and v: "unat vpn + unat n \<le> 0xFFC00" and own: "owned m vpn (unat n)"
  shows "\<exists>m'. mm_free_pages vpn n m = Ok m' \<and> mm_inv m' \<and>
     page_map m' = (\<lambda>v. if in_range vpn (unat n) v then None else page_map m v) \<and>
     (\<forall>g. frame_free (mm_pma m') g \<longleftrightarrow>
        frame_free (mm_pma m) g \<or> (\<exists>v. in_range vpn (unat n) v \<and> page_map m v = Some g))"
proof -
  let ?I = "\<lambda>k s. mm_inv s \<and> page_map s = (\<lambda>v. if in_range vpn k v then None else page_map m v) \<and>
     (\<forall>g. frame_free (mm_pma s) g \<longleftrightarrow> frame_free (mm_pma m) g \<or> (\<exists>v. in_range vpn k v \<and> page_map m v = Some g)) \<and>
     (\<forall>g. frame_used (mm_pma s) g \<longleftrightarrow> frame_used (mm_pma m) g \<and> \<not> (\<exists>v. in_range vpn k v \<and> page_map m v = Some g)) \<and>
     (\<forall>g. frame_used (mm_pma s) g \<longrightarrow> table_frame s g \<longrightarrow> table_frame m g)"
  have "\<exists>s'. ofold (\<lambda>i. free_page (vpn + i)) (indices n) m = Ok s' \<and> ?I (length (indices n)) s'"
  proof (rule ofold_total [where I = ?I])
    show "?I 0 m" using inv by simp
  next
    fix k s
    assume "k < length (indices n)" and I: "?I k s"
    then have k: "k < unat n" by simp
    let ?v = "vpn + of_nat k"
    have low: "unat ?v < 0xFFC00" using range_page(1) [OF v k] v k by simp
    have here: "page_map s ?v = page_map m ?v" using I in_range_last [OF v k] by simp
    have inr: "in_range vpn (unat n) w" if "in_range vpn (Suc k) w" for w using that k by (auto simp: in_range_def)
    have o: "frame_used (mm_pma s) f \<and> \<not> table_frame s f" if f: "page_map s ?v = Some f" for f
    proof -
      have "in_range vpn (unat n) ?v" using inr in_range_Suc [OF v k] by blast
      then have "frame_used (mm_pma m) f" "\<not> table_frame m f"
        and "\<not> (\<exists>w. in_range vpn k w \<and> page_map m w = Some f)"
        using own f here inr in_range_Suc [OF v k] in_range_last [OF v k] unfolding owned_def by metis+
      then show ?thesis using I by blast
    qed
    obtain s' where s': "free_page ?v s = Ok s'" "mm_inv s'" "page_map s' = (page_map s)(?v := None)"
       "\<forall>g. frame_free (mm_pma s') g \<longleftrightarrow> frame_free (mm_pma s) g \<or> page_map s ?v = Some g"
       "\<forall>g. frame_used (mm_pma s') g \<longleftrightarrow> frame_used (mm_pma s) g \<and> page_map s ?v \<noteq> Some g"
       "\<forall>g. table_frame s' g \<longrightarrow> table_frame s g \<or> frame_free (mm_pma s) g"
      using free_page_spec [OF _ low, of s] I o by blast
    have fr: "\<forall>g. frame_free (mm_pma s') g \<longleftrightarrow> frame_free (mm_pma m) g \<or> (\<exists>v. in_range vpn (Suc k) v \<and> page_map m v = Some g)"
      using s'(4) I here by (auto simp: in_range_Suc [OF v k])
    have us: "\<forall>g. frame_used (mm_pma s') g \<longleftrightarrow> frame_used (mm_pma m) g \<and> \<not> (\<exists>v. in_range vpn (Suc k) v \<and> page_map m v = Some g)"
      using s'(5) I here by (auto simp: in_range_Suc [OF v k])
    have "pma_inv (mm_pma s)" using I by (simp add: mm_inv_def)
    then have tb: "\<forall>g. frame_used (mm_pma s') g \<longrightarrow> table_frame s' g \<longrightarrow> table_frame m g"
      using s'(5,6) I kernel_frames.free_not_used by blast
    have "page_map s' = (\<lambda>v. if in_range vpn (Suc k) v then None else page_map m v)"
      using s'(3) I by (auto simp: in_range_Suc [OF v k] fun_eq_iff)
    then show "\<exists>s'. free_page (vpn + indices n ! k) s = Ok s' \<and> ?I (Suc k) s'"
      using s'(1,2) fr us tb k by auto
  qed
  then show ?thesis by (auto simp: mm_free_pages_def)
qed

lemma mm_example_entries:
  "entry_p 0x101003" "entry_base 0x101003 = 0x101" "entry_p 0x100003" "entry_base 0x100003 = 0x100" "\<not> entry_p 0"
  by (simp_all add: entry_p_def entry_base_def)

lemma mm_example_inv: "mm_inv mm_example"
proof -
  have "frame_state pma_example 1 = PBM_ALLOCATED" "frame_state pma_example 0 = PBM_RESERVED" by code_simp+
  then have "\<not> frame_free pma_example 0x101" "\<not> frame_free pma_example 0x100"
    by (simp_all add: frame_in_def pma_example_def)
  then show ?thesis
    using mm_example_entries pma_example_inv by (auto simp: mm_inv_def mm_example_def)
qed

lemma mm_example_map: "page_map mm_example v = None"
  using mm_example_entries by (simp add: page_map_def mmu_walk_def mm_example_def Let_def)

lemma owned_backed:
  assumes k: "mm_kept m m1" and b: "backed m m1 vpn n" and f: "\<forall>v. in_range vpn n v \<longrightarrow> page_map m v = None"
  shows "owned m1 vpn n"
proof -
  have fp: "{v. fresh_page m vpn n v} = {v. in_range vpn n v}" using f by (auto simp: fresh_page_def)
  have "inj_on (page_map m1) {v. in_range vpn n v}" using b fp by (simp add: backed_def)
  then have "v = v'" if "in_range vpn n v" "in_range vpn n v'" "page_map m1 v = Some g" "page_map m1 v' = Some g" for v v' g
    using that by (metis inj_on_def mem_Collect_eq)
  moreover have "frame_used (mm_pma m1) g \<and> \<not> table_frame m1 g" if "in_range vpn n v" "page_map m1 v = Some g" for v g
    using backed_inside [OF b, of v] that f by (auto simp: fresh_page_def fresh_frame_def)
  ultimately show ?thesis unfolding owned_def by blast
qed

text \<open>
  C12: The software walk of \<^verbatim>\<open>mm_vpn_to_pfn\<close> through the recursive mapping computes the
  translation of the paging unit: it reports the frame that the processor would use for the page,
  and \<^verbatim>\<open>STATUS_PAGE_NOT_PRESENT\<close> exactly when an access would fault; \<^verbatim>\<open>mm_vaddr_to_paddr\<close>
  adds the offset in the page.
\<close>

theorem mm_vpn_to_pfn_refines_mmu:
  assumes "mm_inv m"
  shows "mm_vpn_to_pfn vpn m = Ok (case mmu_walk m vpn of
       None \<Rightarrow> (STATUS_PAGE_NOT_PRESENT, None) | Some f \<Rightarrow> (STATUS_SUCCESS, Some f)) \<and>
     mm_vaddr_to_paddr vaddr m = Ok (case mmu_walk m (drop_bit 12 vaddr) of
       None \<Rightarrow> (STATUS_PAGE_NOT_PRESENT, None)
     | Some f \<Rightarrow> (STATUS_SUCCESS, Some (f * PAGE_SIZE + vaddr mod PAGE_SIZE)))"
proof -
  have "vaddr AND 4095 = vaddr mod 4096"
    using take_bit_eq_mask [of 12 vaddr] take_bit_eq_mod [of 12 vaddr]
    by (simp add: mask_eq_exp_minus_1)
  then show ?thesis
    using vpn_to_pfn_walk [OF assms] by (simp add: mm_vaddr_to_paddr_def CHECK_SUCCESS_def split: option.splits)
qed

theorem mm_vpn_to_pfn_refines_mmu_witness:
  "mm_vpn_to_pfn 0xFFFFF mm_example = Ok (STATUS_SUCCESS, Some 0x101) \<and>
   mm_vaddr_to_paddr 0xFFFFF123 mm_example = Ok (STATUS_SUCCESS, Some 0x101123) \<and>
   mm_vpn_to_pfn 0x400 mm_example = Ok (STATUS_PAGE_NOT_PRESENT, None)"
proof -
  have "mmu_walk mm_example 0xFFFFF = Some 0x101" "mmu_walk mm_example 0x400 = None"
    using mm_example_entries by (simp_all add: mmu_walk_def mm_example_def pde_index_def pt_index_def)
  then show ?thesis
    using mm_vpn_to_pfn_refines_mmu [OF mm_example_inv, of "0xFFFFF" "0xFFFFF123"]
      mm_vpn_to_pfn_refines_mmu [OF mm_example_inv, of "0x400" 0]
    by simp
qed

text \<open>
  C13: Mapping one page either adds exactly that page to the page map, with the access rights and
  cache attributes that the flags ask for, or fails because the page is mapped already or because no
  frame for a page table is left, and then the page map is as before.  The invariant holds again.
\<close>

theorem map_page_correct:
  assumes "mm_inv m" and "unat vpn < 0xFFC00" and "pfn < 2 ^ 20"
  shows "\<exists>st m'. map_page pfn vpn flags m = Ok (st, m') \<and> mm_inv m' \<and>
    (if page_map m vpn \<noteq> None then st \<noteq> STATUS_SUCCESS \<and> page_map m' = page_map m
     else if st = STATUS_SUCCESS then page_map m' = (page_map m)(vpn \<mapsto> pfn) \<and>
        entry_r_w (leaf_entry m' vpn) = (flags AND PMF_READONLY = 0) \<and>
        entry_u_s (leaf_entry m' vpn) = (flags AND PMF_USER \<noteq> 0) \<and>
        entry_pcd (leaf_entry m' vpn) = (flags AND PMF_NOCACHE \<noteq> 0) \<and>
        entry_pwt (leaf_entry m' vpn) = (flags AND PMF_WTCACHE \<noteq> 0)
     else st = STATUS_INSUFFICIENT_MEMORY \<and> m' = m)"
proof -
  obtain st m' where r: "map_page pfn vpn flags m = Ok (st, m')" "mm_kept m m'"
    "page_map m vpn = None \<and> st = STATUS_SUCCESS \<and> page_map m' = (page_map m)(vpn \<mapsto> pfn) \<and>
       leaf_entry m' vpn = map_entry pfn flags \<or>
     page_map m vpn \<noteq> None \<and> st = STATUS_CONFLICTING_STATE \<and> page_map m' = page_map m \<or>
     st = STATUS_INSUFFICIENT_MEMORY \<and> m' = m"
    using map_page_spec [OF assms(1) _ _ assms(3), of vpn flags] low_ordinary [OF assms(2)] by blast
  then show ?thesis
    by (intro exI [of _ st] exI [of _ m']) (auto simp: mm_kept_def map_entry_fields)
qed

theorem map_page_correct_witness:
  "\<exists>st m'. map_page 0x107 0x400 PMF_USER mm_example = Ok (st, m') \<and> mm_inv m' \<and>
     (st = STATUS_SUCCESS \<longrightarrow> page_map m' 0x400 = Some 0x107 \<and> entry_u_s (leaf_entry m' 0x400))"
  using map_page_correct [OF mm_example_inv, of "0x400" "0x107" PMF_USER] mm_example_map by auto

text \<open>
  C14: A range of free pages that \<^verbatim>\<open>mm_map\<close> maps is translated page by page to the frames given,
  every other page keeps its translation, and \<^verbatim>\<open>mm_unmap\<close> of the same range gives back the page
  map of before.
\<close>

theorem mm_map_unmap_roundtrip:
  assumes "mm_inv m" and "unat vpn + unat n \<le> 0xFFC00" and "unat pfn + unat n \<le> 2 ^ 20"
    and "mm_map pfn vpn n flags m = Ok (STATUS_SUCCESS, m1)"
  shows "page_map m1 = (\<lambda>v. if in_range vpn (unat n) v then Some (pfn + (v - vpn)) else page_map m v) \<and>
    (\<exists>m2. mm_unmap vpn n m1 = Ok (STATUS_SUCCESS, m2) \<and> mm_inv m2 \<and> page_map m2 = page_map m)"
proof -
  obtain k where k: "mm_kept m m1" "page_map m1 = mapped_to pfn vpn k (page_map m)" "k = unat n"
    "\<forall>v. in_range vpn k v \<longrightarrow> page_map m v = None"
    using mm_map_spec [OF assms(1-3), of flags] assms(4) by auto
  have i1: "mm_inv m1" using k(1) by (simp add: mm_kept_def)
  show ?thesis
    using mm_unmap_spec [OF i1 assms(2)] k by (auto simp: mapped_to_def fun_eq_iff mm_kept_def)
qed

theorem mm_map_unmap_roundtrip_witness:
  "\<exists>m1. mm_map 0xB8 0x400 2 PMF_NOCACHE mm_example = Ok (STATUS_SUCCESS, m1) \<and> page_map m1 0x401 = Some 0xB9"
proof -
  have "case mm_map 0xB8 0x400 2 PMF_NOCACHE mm_example of Ok r \<Rightarrow> fst r = STATUS_SUCCESS | _ \<Rightarrow> False"
    by code_simp
  from outcome_case_Ok [OF this] obtain m1
    where m1: "mm_map 0xB8 0x400 2 PMF_NOCACHE mm_example = Ok (STATUS_SUCCESS, m1)" by auto
  then show ?thesis
    using mm_map_unmap_roundtrip [OF mm_example_inv, of "0x400" 2 "0xB8" PMF_NOCACHE m1] m1
    by (auto simp: in_range_def)
qed

text \<open>
  C15: \<^verbatim>\<open>mm_allocate_pages_to\<close> gives every page of the range that had no frame a frame of its
  own: one that was free, is marked allocated now, holds no page table and backs no other page of
  the range.  All other pages keep their translation.  On failure the status is
  \<^verbatim>\<open>STATUS_INSUFFICIENT_MEMORY\<close> and a prefix of the range is backed.
\<close>

theorem mm_allocate_pages_to_correct:
  assumes "mm_inv m" and "unat vpn + unat n \<le> 0xFFC00"
  shows "\<exists>st m' k. mm_allocate_pages_to vpn n m = Ok (st, m') \<and> mm_inv m' \<and>
    (if st = STATUS_SUCCESS then k = unat n else k < unat n \<and> st = STATUS_INSUFFICIENT_MEMORY) \<and>
    (\<forall>v. \<not> in_range vpn k v \<or> page_map m v \<noteq> None \<longrightarrow> page_map m' v = page_map m v) \<and>
    (\<forall>v. in_range vpn k v \<and> page_map m v = None \<longrightarrow>
       (\<exists>f. page_map m' v = Some f \<and> frame_free (mm_pma m) f \<and> frame_used (mm_pma m') f \<and> \<not> table_frame m' f)) \<and>
    inj_on (page_map m') {v. in_range vpn k v \<and> page_map m v = None}"
proof -
  obtain st m' k where r: "mm_allocate_pages_to vpn n m = Ok (st, m')" "mm_kept m m'" "backed m m' vpn k"
    "if st = STATUS_SUCCESS then k = unat n else k < unat n \<and> st = STATUS_INSUFFICIENT_MEMORY"
    using allocate_pages_to_spec [OF assms] by blast
  then show ?thesis
    by (intro exI [of _ st] exI [of _ m'] exI [of _ k])
      (simp add: mm_kept_def backed_def fresh_page_def fresh_frame_def)
qed

theorem mm_allocate_pages_to_witness:
  "\<exists>st m'. mm_allocate_pages_to 0x400 3 mm_example = Ok (st, m') \<and> mm_inv m' \<and>
     (st = STATUS_SUCCESS \<longrightarrow> page_map m' 0x400 \<noteq> None \<and> page_map m' 0x403 = None)"
proof -
  have le: "unat (0x400 :: u32) + unat (3 :: u32) \<le> 0xFFC00" by simp
  have r: "in_range 0x400 3 0x400" "\<not> in_range 0x400 3 0x403" by (simp_all add: in_range_def)
  obtain st m' k where m': "mm_allocate_pages_to 0x400 3 mm_example = Ok (st, m')" "mm_inv m'"
    "if st = STATUS_SUCCESS then k = unat (3 :: u32) else k < unat (3 :: u32) \<and> st = STATUS_INSUFFICIENT_MEMORY"
    "\<forall>v. \<not> in_range 0x400 k v \<or> page_map mm_example v \<noteq> None \<longrightarrow> page_map m' v = page_map mm_example v"
    "\<forall>v. in_range 0x400 k v \<and> page_map mm_example v = None \<longrightarrow> (\<exists>f. page_map m' v = Some f)"
    using mm_allocate_pages_to_correct [OF mm_example_inv le] by blast
  then show ?thesis using r mm_example_map by auto
qed

text \<open>
  C17: Pages that \<^verbatim>\<open>mm_allocate_pages_to\<close> took for a range without mappings can be given back by
  \<^verbatim>\<open>mm_free_pages\<close>: no panic happens, the page map is the one of before, and every frame that
  was free before is free again unless it became a page table meanwhile.
\<close>

theorem mm_allocate_free_roundtrip:
  assumes "mm_inv m" and "unat vpn + unat n \<le> 0xFFC00" and "\<forall>v. in_range vpn (unat n) v \<longrightarrow> page_map m v = None"
    and "mm_allocate_pages_to vpn n m = Ok (STATUS_SUCCESS, m1)"
  shows "\<exists>m2. mm_free_pages vpn n m1 = Ok m2 \<and> mm_inv m2 \<and> page_map m2 = page_map m \<and>
    (\<forall>f. frame_free (mm_pma m2) f \<longrightarrow> frame_free (mm_pma m) f) \<and>
    (\<forall>v f. page_map m1 v = Some f \<and> in_range vpn (unat n) v \<longrightarrow> frame_free (mm_pma m2) f)"
proof -
  have b: "mm_kept m m1" "backed m m1 vpn (unat n)"
    using allocate_pages_to_spec [OF assms(1,2)] assms(4) by auto
  have i1: "mm_inv m1" using b(1) by (simp add: mm_kept_def)
  obtain m2 where m2: "mm_free_pages vpn n m1 = Ok m2" "mm_inv m2"
     "page_map m2 = (\<lambda>v. if in_range vpn (unat n) v then None else page_map m1 v)"
     "\<forall>g. frame_free (mm_pma m2) g \<longleftrightarrow> frame_free (mm_pma m1) g \<or> (\<exists>v. in_range vpn (unat n) v \<and> page_map m1 v = Some g)"
    using mm_free_pages_spec [OF i1 assms(2) owned_backed [OF b assms(3)]] by blast
  have "page_map m2 = page_map m" using m2(3) assms(3) backed_outside [OF b(2)] by (auto simp: fun_eq_iff)
  moreover have "frame_free (mm_pma m) g" if "in_range vpn (unat n) v" "page_map m1 v = Some g" for v g
    using backed_inside [OF b(2), of v] that assms(3) by (auto simp: fresh_page_def fresh_frame_def)
  ultimately show ?thesis using m2 b(1) by (auto simp: mm_kept_def)
qed

theorem mm_allocate_free_roundtrip_witness:
  "\<exists>m1 m2. mm_allocate_pages_to 0x400 2 mm_example = Ok (STATUS_SUCCESS, m1) \<and>
     mm_free_pages 0x400 2 m1 = Ok m2 \<and> page_map m2 = page_map mm_example"
proof -
  have "case mm_allocate_pages_to 0x400 2 mm_example of Ok r \<Rightarrow> fst r = STATUS_SUCCESS | _ \<Rightarrow> False"
    by code_simp
  from outcome_case_Ok [OF this] obtain m1
    where "mm_allocate_pages_to 0x400 2 mm_example = Ok (STATUS_SUCCESS, m1)" by auto
  then show ?thesis
    using mm_allocate_free_roundtrip [OF mm_example_inv, of "0x400" 2 m1] mm_example_map by auto
qed

text \<open>
  When the page allocator has no range left, \<^verbatim>\<open>mm_allocate_pages\<close> goes on with the value
  its uninitialised local variable happens to hold: it behaves as \<^verbatim>\<open>mm_allocate_pages_to\<close> on
  that page, and reports success with it.
\<close>

theorem mm_allocate_pages_unchecked:
  assumes "mm_vma_allocate_page n VAF_DEFAULT (mm_vma m) = (STATUS_INSUFFICIENT_MEMORY, None, mm_vma m)"
    and "mm_allocate_pages_to garbage n m = Ok (STATUS_SUCCESS, m1)"
  shows "mm_allocate_pages garbage n m = Ok (STATUS_SUCCESS, Some garbage, m1)"
  using assms by (simp add: mm_allocate_pages_def)

theorem mm_allocate_pages_unchecked_witness:
  "\<exists>m m1. mm_allocate_pages 0x500 1 m = Ok (STATUS_SUCCESS, Some 0x500, m1)"
proof -
  let ?m = "mm_example\<lparr>mm_vma := vma_example\<lparr>vma_user_alloc_vpn := 0x7FFFF\<rparr>\<rparr>"
  have v: "mm_vma_allocate_page 1 VAF_DEFAULT (mm_vma ?m) = (STATUS_INSUFFICIENT_MEMORY, None, mm_vma ?m)"
    by (simp add: mm_vma_allocate_page_def mm_example_def vma_example_def mm_vma_init_def)
  have "case mm_allocate_pages_to 0x500 1 ?m of Ok r \<Rightarrow> fst r = STATUS_SUCCESS | _ \<Rightarrow> False"
    by code_simp
  from outcome_case_Ok [OF this] obtain m1
    where "mm_allocate_pages_to 0x500 1 ?m = Ok (STATUS_SUCCESS, m1)" by auto
  then show ?thesis using mm_allocate_pages_unchecked [OF v] by blast
qed

end
