(* ===== verification/Thread.thy ===== *)
theory Thread
  imports Mm
begin

text \<open>
  Threads and the scheduler: \<^verbatim>\<open>kernel/thread/thread.c\<close>, \<^verbatim>\<open>kernel/thread/scheduler.c\<close> and the
  kernel stacks of \<^verbatim>\<open>kernel/arch/i686/pc/thread.c\<close>.  Thread objects live in an explicit store
  (a list of objects, \<open>None\<close> once freed) and point to each other by index, so the intrusive
  \<^verbatim>\<open>next\<close> list, its aliasing with \<^verbatim>\<open>current_thread\<close> and the arrays of waited-for threads are
  modelled as they are in memory.  A null or dangling dereference is \<open>Fault\<close>.  Loops over the
  list take as many steps as there are objects, one more than any list without a cycle needs; a
  loop that needs more has met a cycle and is \<open>Hang\<close>.
\<close>

section \<open>State\<close>

datatype thread_status = TS_PENDING | TS_RUNNING | TS_BLOCKING | TS_WAITING | TS_FINISHED
datatype thread_type = TT_MAIN | TT_KERNEL | TT_USER

type_synonym tptr = "nat option"

record thread =
  th_next :: tptr
  th_id :: int
  th_status :: thread_status
  th_type :: thread_type
  kmode_stack_page_count :: u32
  kmode_stack_base_vpn :: u32
  kmode_stack_ptr :: u32
  kmode_entry :: u32
  detached :: bool
  wait_list :: "nat option"
  wait_count :: int
  wait_timeout :: int
  mutex_blocking_next :: tptr

record sched =
  first_thread :: tptr
  current_thread :: tptr
  objs :: "thread option list"
  arrays :: "tptr list list"
  preemption_enabled :: bool
  new_thread_id :: int
  k_mm :: mm

definition deref :: "tptr \<Rightarrow> sched \<Rightarrow> thread outcome" where
  "deref p s = (case p of None \<Rightarrow> Fault
     | Some a \<Rightarrow> if a < length (objs s) then (case objs s ! a of None \<Rightarrow> Fault | Some t \<Rightarrow> Ok t) else Fault)"

definition assign :: "tptr \<Rightarrow> (thread \<Rightarrow> thread) \<Rightarrow> sched \<Rightarrow> sched outcome" where
  "assign p f s = obind (deref p s) (\<lambda>t. Ok (s\<lparr>objs := (objs s)[the p := Some (f t)]\<rparr>))"

section \<open>The scheduler\<close>

definition scheduler_add_thread :: "tptr \<Rightarrow> sched \<Rightarrow> (status \<times> sched) outcome" where
  "scheduler_add_thread th s =
     obind (assign th (\<lambda>t. t\<lparr>th_next := first_thread s\<rparr>) s) (\<lambda>s1.
       Ok (STATUS_SUCCESS, s1\<lparr>first_thread := th\<rparr>))"

fun unlink_loop :: "nat \<Rightarrow> tptr \<Rightarrow> tptr \<Rightarrow> sched \<Rightarrow> sched outcome" where
  "unlink_loop 0 th current s = Hang"
| "unlink_loop (Suc n) th current s =
     obind (deref current s) (\<lambda>c.
       if th_next c = None then Ok s
       else if th = th_next c then
         obind (deref th s) (\<lambda>t. assign current (\<lambda>c. c\<lparr>th_next := th_next t\<rparr>) s)
       else unlink_loop n th (th_next c) s)"

definition scheduler_remove_thread :: "tptr \<Rightarrow> sched \<Rightarrow> (status \<times> sched) outcome" where
  "scheduler_remove_thread th s =
     obind (deref th s) (\<lambda>t.
       if th_status t \<noteq> TS_FINISHED then Ok (STATUS_THREAD_NOT_FINISHED, s)
       else
         let s1 = (if th = first_thread s then s\<lparr>current_thread := th_next t\<rparr> else s)
         in obind (unlink_loop (Suc (length (objs s1))) th (first_thread s1) s1)
              (\<lambda>s2. Ok (STATUS_SUCCESS, s2)))"

definition scheduler_get_current_thread :: "sched \<Rightarrow> status \<times> tptr" where
  "scheduler_get_current_thread s = (STATUS_SUCCESS, current_thread s)"

definition runnable :: "thread \<Rightarrow> bool" where
  "runnable t \<longleftrightarrow> th_status t = TS_RUNNING \<or> th_status t = TS_PENDING"

fun next_loop :: "nat \<Rightarrow> tptr \<Rightarrow> sched \<Rightarrow> tptr outcome" where
  "next_loop 0 p s = Hang"
| "next_loop (Suc n) p s =
     obind (deref p s) (\<lambda>t.
       let q = (if th_next t = None then first_thread s else th_next t)
       in obind (deref q s) (\<lambda>u. if runnable u then Ok q else next_loop n q s))"

definition scheduler_get_next_thread :: "sched \<Rightarrow> (status \<times> tptr) outcome" where
  "scheduler_get_next_thread s =
     obind (next_loop (Suc (length (objs s))) (current_thread s) s) (\<lambda>q. Ok (STATUS_SUCCESS, q))"

definition scheduler_set_current_thread :: "tptr \<Rightarrow> sched \<Rightarrow> status \<times> sched" where
  "scheduler_set_current_thread th s = (STATUS_SUCCESS, s\<lparr>current_thread := th\<rparr>)"

fun other_runnable_loop :: "nat \<Rightarrow> tptr \<Rightarrow> bool \<Rightarrow> sched \<Rightarrow> bool outcome" where
  "other_runnable_loop n None r s = Ok r"
| "other_runnable_loop 0 (Some a) r s = Hang"
| "other_runnable_loop (Suc n) (Some a) r s =
     obind (deref (Some a) s) (\<lambda>t.
       if Some a = current_thread s then other_runnable_loop n (th_next t) r s
       else other_runnable_loop n (th_next t) (if runnable t then True else r) s)"

definition scheduler_has_other_runnable_thread :: "sched \<Rightarrow> bool outcome" where
  "scheduler_has_other_runnable_thread s =
     other_runnable_loop (length (objs s)) (first_thread s) False s"

section \<open>Kernel stacks\<close>

definition pc_thread_allocate_kthread_stack :: "thread \<Rightarrow> mm \<Rightarrow> (status \<times> thread \<times> mm) outcome" where
  "pc_thread_allocate_kthread_stack th m =
     (let n = kmode_stack_page_count th;
          give_back = (\<lambda>st pfn m. if pfn \<noteq> 0
             then obind (mm_pma_free_frame pfn n (mm_pma m)) (\<lambda>p. Ok (st, th, m\<lparr>mm_pma := p\<rparr>))
             else Ok (st, th, m))
      in obind (mm_pma_allocate_frame n (mm_pma m)) (\<lambda>(st, pfn, p).
           if \<not> CHECK_SUCCESS st then Ok (st, th, m\<lparr>mm_pma := p\<rparr>)
           else let (st, vpn, v) = mm_vma_allocate_page n VAF_KERNEL (mm_vma m);
                    m1 = m\<lparr>mm_pma := p, mm_vma := v\<rparr>
                in if \<not> CHECK_SUCCESS st then give_back st (the pfn) m1
                   else obind (mm_map (the pfn) (the vpn) n PMF_DEFAULT m1) (\<lambda>(st, m2).
                     if \<not> CHECK_SUCCESS st
                     then give_back st (the pfn)
                            (if the vpn \<noteq> 0 then m2\<lparr>mm_vma := mm_vma_free_page (the vpn) n (mm_vma m2)\<rparr> else m2)
                     else Ok (STATUS_SUCCESS,
                       th\<lparr>kmode_stack_base_vpn := the vpn * PAGE_SIZE,
                          kmode_stack_ptr := (the vpn + n) * PAGE_SIZE\<rparr>, m2))))"

definition store32 :: "u32 \<Rightarrow> u32 \<Rightarrow> mm \<Rightarrow> mm outcome" where
  "store32 addr w m = vwrite (drop_bit 12 addr) (drop_bit 2 (addr AND 0xFFF)) w m"

fun store_words :: "u32 \<Rightarrow> u32 list \<Rightarrow> mm \<Rightarrow> mm outcome" where
  "store_words addr [] m = Ok m"
| "store_words addr (w # ws) m = obind (store32 addr w m) (store_words (addr + 4) ws)"

text \<open>
  The initial stack: an interrupt frame (error, eip, cs, eflags) and the saved registers (gs, fs,
  es, ds, edi, esi, ebp, esp, ebx, edx, ecx, eax), cleared first and then filled, and a word for
  the saved frame pointer.  \<open>rke\<close> is the address of \<^verbatim>\<open>real_kernel_thread_entry\<close>, \<open>thp\<close> the
  address of the thread object.
\<close>

definition pc_thread_setup_kthread_stack :: "u32 \<Rightarrow> u32 \<Rightarrow> thread \<Rightarrow> mm \<Rightarrow> (status \<times> thread \<times> mm) outcome" where
  "pc_thread_setup_kthread_stack rke thp th m =
     (let iframe = kmode_stack_ptr th - 16; iregs = iframe - 48 in
      obind (store_words iframe [0, 0, 0, 0] m) (\<lambda>m.
      obind (store32 (iframe + 12) 0x00000202 m) (\<lambda>m.
      obind (store32 (iframe + 8) 0x08 m) (\<lambda>m.
      obind (store32 (iframe + 4) rke m) (\<lambda>m.
      obind (store_words iregs [0, 0, 0, 0, 0, 0, 0, 0, 0, 0, 0, 0] m) (\<lambda>m.
      obind (store32 (iregs + 32) thp m) (\<lambda>m.
      obind (store32 (iregs + 40) (kmode_entry th) m) (\<lambda>m.
      obind (store32 (iregs + 12) 0x10 m) (\<lambda>m.
      obind (store32 (iregs + 8) 0x10 m) (\<lambda>m.
      obind (store32 (iregs + 4) 0x10 m) (\<lambda>m.
      obind (store32 iregs 0x10 m) (\<lambda>m.
        Ok (STATUS_SUCCESS, th\<lparr>kmode_stack_ptr := iregs - 4\<rparr>, m)))))))))))))"

definition pc_thread_free_kthread_stack :: "thread \<Rightarrow> mm \<Rightarrow> mm outcome" where
  "pc_thread_free_kthread_stack th m =
     (let vpn = kmode_stack_base_vpn th; n = kmode_stack_page_count th in
      obind (mm_vpn_to_pfn vpn m) (\<lambda>(st, pfn).
        if \<not> CHECK_SUCCESS st then Panic st
        else obind (mm_unmap vpn n m) (\<lambda>(st, m1).
          if \<not> CHECK_SUCCESS st then Panic st
          else obind (mm_pma_free_frame (the pfn) n (mm_pma m1)) (\<lambda>p.
            Ok (m1\<lparr>mm_vma := mm_vma_free_page vpn n (mm_vma m1), mm_pma := p\<rparr>)))))"

section \<open>Threads\<close>

definition new_thread :: thread where
  "new_thread = \<lparr>th_next = None, th_id = 0, th_status = TS_PENDING, th_type = TT_MAIN,
     kmode_stack_page_count = 0, kmode_stack_base_vpn = 0, kmode_stack_ptr = 0, kmode_entry = 0,
     detached = False, wait_list = None, wait_count = 0, wait_timeout = 0, mutex_blocking_next = None\<rparr>"

text \<open>\<^verbatim>\<open>calloc\<close> of a thread object; \<open>oom\<close> is the allocator's answer for this call.\<close>

definition calloc_thread :: "bool \<Rightarrow> sched \<Rightarrow> tptr \<times> sched" where
  "calloc_thread oom s =
     (if oom then (None, s) else (Some (length (objs s)), s\<lparr>objs := objs s @ [Some new_thread]\<rparr>))"

definition free_thread :: "nat \<Rightarrow> sched \<Rightarrow> sched" where
  "free_thread a s = s\<lparr>objs := (objs s)[a := None]\<rparr>"

definition thread_init :: "bool \<Rightarrow> sched \<Rightarrow> (status \<times> tptr \<times> sched) outcome" where
  "thread_init oom s =
     (let (main_th, s1) = calloc_thread oom s in
      if main_th = None then Ok (STATUS_UNKNOWN_ERROR, None, s1)
      else obind (assign main_th (\<lambda>t. t\<lparr>th_id := 0, th_status := TS_RUNNING, th_type := TT_MAIN\<rparr>) s1) (\<lambda>s2.
        obind (scheduler_add_thread main_th s2) (\<lambda>(st, s3).
          if \<not> CHECK_SUCCESS st then Ok (st, None, free_thread (the main_th) s3)
          else let (st, s4) = scheduler_set_current_thread main_th s3 in
            if \<not> CHECK_SUCCESS st
            then obind (scheduler_remove_thread main_th s4) (\<lambda>(_, s5). Ok (st, None, free_thread (the main_th) s5))
            else Ok (STATUS_SUCCESS, main_th, s4))))"

definition thread_enable_preemption :: "sched \<Rightarrow> sched" where
  "thread_enable_preemption s = s\<lparr>preemption_enabled := True\<rparr>"

definition thread_disable_preemption :: "sched \<Rightarrow> sched" where
  "thread_disable_preemption s = s\<lparr>preemption_enabled := False\<rparr>"

definition restore_preemption :: "bool \<Rightarrow> sched \<Rightarrow> sched" where
  "restore_preemption prev s = (if prev then thread_enable_preemption s else s)"

text \<open>
  \<^verbatim>\<open>thread_create\<close>; \<open>addr\<close> gives the address at which the allocator placed an object.
\<close>

definition thread_create ::
  "bool \<Rightarrow> u32 \<Rightarrow> (nat \<Rightarrow> u32) \<Rightarrow> u32 \<Rightarrow> u32 \<Rightarrow> sched \<Rightarrow> (status \<times> tptr \<times> sched) outcome" where
  "thread_create oom rke addr entry stack_size s =
     (let prev = preemption_enabled s;
          (th, s1) = calloc_thread oom (thread_disable_preemption s)
      in if th = None then Ok (STATUS_UNKNOWN_ERROR, None, restore_preemption prev s1)
         else
           let a = the th;
               t = new_thread\<lparr>th_id := new_thread_id s1, th_status := TS_PENDING, th_type := TT_KERNEL,
                     kmode_stack_page_count := ALIGN_DIV stack_size PAGE_SIZE, kmode_entry := entry\<rparr>;
               s2 = s1\<lparr>new_thread_id := new_thread_id s1 + 1\<rparr>
           in obind (pc_thread_allocate_kthread_stack t (k_mm s2)) (\<lambda>(st, t, m).
                if \<not> CHECK_SUCCESS st
                then Ok (st, None, restore_preemption prev (free_thread a (s2\<lparr>k_mm := m\<rparr>)))
                else obind (pc_thread_setup_kthread_stack rke (addr a) t m) (\<lambda>(st, t, m).
                  if \<not> CHECK_SUCCESS st
                  then obind (pc_thread_free_kthread_stack t m) (\<lambda>m.
                         Ok (st, None, restore_preemption prev (free_thread a (s2\<lparr>k_mm := m\<rparr>))))
                  else obind (scheduler_add_thread th (s2\<lparr>objs := (objs s2)[a := Some t], k_mm := m\<rparr>)) (\<lambda>(st, s3).
                    if \<not> CHECK_SUCCESS st
                    then obind (pc_thread_free_kthread_stack t m) (\<lambda>m.
                           Ok (st, None, restore_preemption prev (free_thread a (s3\<lparr>k_mm := m\<rparr>))))
                    else Ok (STATUS_SUCCESS, th, restore_preemption prev s3)))))"

definition thread_remove :: "tptr \<Rightarrow> sched \<Rightarrow> (status \<times> sched) outcome" where
  "thread_remove th s =
     obind (deref th s) (\<lambda>t.
       if th_type t = TT_MAIN then Ok (STATUS_INVALID_THREAD, s)
       else if th_status t \<noteq> TS_FINISHED then Ok (STATUS_THREAD_NOT_FINISHED, s)
       else obind (scheduler_remove_thread th s) (\<lambda>(_, s1).
         obind (deref th s1) (\<lambda>t.
         obind (pc_thread_free_kthread_stack t (k_mm s1)) (\<lambda>m.
           Ok (STATUS_SUCCESS, free_thread (the th) (s1\<lparr>k_mm := m\<rparr>))))))"

definition thread_detach :: "tptr \<Rightarrow> sched \<Rightarrow> (status \<times> sched) outcome" where
  "thread_detach th s =
     obind (deref th s) (\<lambda>t.
       if wait_list t \<noteq> None then Ok (STATUS_CONFLICTING_STATE, s)
       else obind (assign th (\<lambda>t. t\<lparr>detached := True\<rparr>) s) (\<lambda>s1. Ok (STATUS_SUCCESS, s1)))"

fun any_detached :: "nat \<Rightarrow> nat list \<Rightarrow> sched \<Rightarrow> bool outcome" where
  "any_detached l [] s = Ok False"
| "any_detached l (i # is) s =
     (if l < length (arrays s) \<and> i < length (arrays s ! l) then
        obind (deref (arrays s ! l ! i) s) (\<lambda>t. if detached t then Ok True else any_detached l is s)
      else Fault)"

text \<open>
  \<^verbatim>\<open>thread_wait\<close> up to the yield: \<open>l\<close> names the caller's array of threads.
\<close>

definition thread_wait :: "nat \<Rightarrow> int \<Rightarrow> int \<Rightarrow> sched \<Rightarrow> (status \<times> sched) outcome" where
  "thread_wait l cnt timeout s =
     obind (any_detached l [0 ..< nat cnt] s) (\<lambda>d.
       if d then Ok (STATUS_CONFLICTING_STATE, s)
       else obind (assign (current_thread s)
              (\<lambda>t. t\<lparr>wait_list := Some l, wait_count := cnt, wait_timeout := timeout, th_status := TS_WAITING\<rparr>)
              (thread_disable_preemption s))
            (\<lambda>s1. Ok (STATUS_SUCCESS, thread_enable_preemption s1)))"

text \<open>\<^verbatim>\<open>thread_exit\<close> up to the yield, from which the thread does not come back.\<close>

definition thread_exit :: "sched \<Rightarrow> sched outcome" where
  "thread_exit s =
     obind (deref (current_thread s) s) (\<lambda>t.
       if th_type t = TT_MAIN then Panic STATUS_INVALID_THREAD
       else assign (current_thread s) (\<lambda>t. t\<lparr>th_status := TS_FINISHED\<rparr>) s)"

section \<open>Lists of threads\<close>

text \<open>
  \<open>path nx h p xs q\<close>: following the link field \<open>nx\<close> from \<open>p\<close> visits \<open>xs\<close> and arrives at \<open>q\<close>.
  The scheduler's list uses \<^verbatim>\<open>next\<close>, the queue of a mutex \<^verbatim>\<open>mutex_blocking_next\<close>.
\<close>

fun path :: "(thread \<Rightarrow> tptr) \<Rightarrow> thread option list \<Rightarrow> tptr \<Rightarrow> nat list \<Rightarrow> tptr \<Rightarrow> bool" where
  "path nx h p [] q = (p = q)"
| "path nx h p (a # as) q =
     (p = Some a \<and> a < length h \<and> (case h ! a of None \<Rightarrow> False | Some t \<Rightarrow> path nx h (nx t) as q))"

abbreviation threads :: "sched \<Rightarrow> nat list \<Rightarrow> bool" where
  "threads s xs \<equiv> path th_next (objs s) (first_thread s) xs None"

abbreviation obj :: "sched \<Rightarrow> nat \<Rightarrow> thread" where
  "obj s a \<equiv> the (objs s ! a)"

definition live :: "sched \<Rightarrow> nat \<Rightarrow> bool" where
  "live s a \<longleftrightarrow> a < length (objs s) \<and> objs s ! a \<noteq> None"

text \<open>One turn of the scheduler: the next thread becomes the current one.\<close>

definition sched_turn :: "sched \<Rightarrow> sched outcome" where
  "sched_turn s = obind (scheduler_get_next_thread s) (\<lambda>(_, q).
     Ok (snd (scheduler_set_current_thread q s)))"

fun sched_turns :: "nat \<Rightarrow> sched \<Rightarrow> sched outcome" where
  "sched_turns 0 s = Ok s"
| "sched_turns (Suc n) s = obind (sched_turn s) (sched_turns n)"

section \<open>Waking\<close>

definition waits_for :: "sched \<Rightarrow> thread \<Rightarrow> tptr list" where
  "waits_for s t = take (nat (wait_count t)) (arrays s ! the (wait_list t))"

definition finished :: "sched \<Rightarrow> tptr \<Rightarrow> bool" where
  "finished s p \<longleftrightarrow> (case p of None \<Rightarrow> True | Some a \<Rightarrow> live s a \<and> th_status (obj s a) = TS_FINISHED)"

definition waits_valid :: "sched \<Rightarrow> thread \<Rightarrow> bool" where
  "waits_valid s t \<longleftrightarrow> (th_status t = TS_WAITING \<longrightarrow> (case wait_list t of None \<Rightarrow> True
     | Some l \<Rightarrow> l < length (arrays s) \<and> nat (wait_count t) \<le> length (arrays s ! l) \<and>
         (\<forall>a. Some a \<in> set (waits_for s t) \<longrightarrow> live s a)))"

definition waits_over :: "sched \<Rightarrow> thread \<Rightarrow> bool" where
  "waits_over s t \<longleftrightarrow> th_status t = TS_WAITING \<and> wait_list t \<noteq> None \<and> (\<forall>p \<in> set (waits_for s t). finished s p)"

text \<open>Arrays after some scans: entries of finished threads may have been cleared.\<close>

definition cleared_arrays :: "sched \<Rightarrow> sched \<Rightarrow> bool" where
  "cleared_arrays s s' \<longleftrightarrow> length (arrays s') = length (arrays s) \<and>
     (\<forall>l < length (arrays s). length (arrays s' ! l) = length (arrays s ! l) \<and>
       (\<forall>i < length (arrays s ! l). arrays s' ! l ! i = arrays s ! l ! i \<or>
          arrays s' ! l ! i = None \<and> finished s (arrays s ! l ! i)))"

section \<open>Maintenance\<close>

text \<open>The loop over the threads that a waiting thread waits for, on the array \<open>l\<close>.\<close>

fun wait_scan :: "nat \<Rightarrow> nat list \<Rightarrow> sched \<Rightarrow> (bool \<times> sched) outcome" where
  "wait_scan l [] s = Ok (True, s)"
| "wait_scan l (i # is) s =
     (if l < length (arrays s) \<and> i < length (arrays s ! l) then
        if arrays s ! l ! i = None then wait_scan l is s
        else obind (deref (arrays s ! l ! i) s) (\<lambda>t.
          if th_status t \<noteq> TS_FINISHED then Ok (False, s)
          else wait_scan l is (s\<lparr>arrays := (arrays s)[l := (arrays s ! l)[i := None]]\<rparr>))
      else Fault)"

definition wake_thread :: "tptr \<Rightarrow> sched \<Rightarrow> sched outcome" where
  "wake_thread p s =
     obind (deref p s) (\<lambda>t.
       if th_status t \<noteq> TS_WAITING then Ok s
       else case wait_list t of None \<Rightarrow> Ok s
         | Some l \<Rightarrow> obind (wait_scan l [0 ..< nat (wait_count t)] s) (\<lambda>(unwait, s1).
             if unwait then assign p (\<lambda>t. t\<lparr>wait_list := None, th_status := TS_RUNNING\<rparr>) s1 else Ok s1))"

fun wake_loop :: "nat \<Rightarrow> tptr \<Rightarrow> sched \<Rightarrow> sched outcome" where
  "wake_loop n None s = Ok s"
| "wake_loop 0 (Some a) s = Hang"
| "wake_loop (Suc n) (Some a) s =
     obind (wake_thread (Some a) s) (\<lambda>s1.
     obind (deref (Some a) s1) (\<lambda>t. wake_loop n (th_next t) s1))"

fun reap_loop :: "nat \<Rightarrow> tptr \<Rightarrow> tptr \<Rightarrow> sched \<Rightarrow> sched outcome" where
  "reap_loop n prev None s = Ok s"
| "reap_loop 0 prev (Some a) s = Hang"
| "reap_loop (Suc n) prev (Some a) s =
     obind (deref (Some a) s) (\<lambda>c.
       if th_status c \<noteq> TS_FINISHED then reap_loop n (Some a) (th_next c) s
       else
         obind (if prev \<noteq> None then assign prev (\<lambda>p. p\<lparr>th_next := th_next c\<rparr>) s
                else Ok (s\<lparr>first_thread := th_next c\<rparr>)) (\<lambda>s1.
         obind (if detached c then thread_remove (Some a) s1 else Ok (STATUS_SUCCESS, s1)) (\<lambda>(_, s2).
           reap_loop n prev (th_next c) s2)))"

definition scheduler_maintain :: "sched \<Rightarrow> (status \<times> sched) outcome" where
  "scheduler_maintain s =
     (let go = obind (wake_loop (length (objs s)) (first_thread s) s) (\<lambda>s1.
                 obind (reap_loop (length (objs s1)) None (first_thread s1) s1) (\<lambda>s2. Ok (STATUS_SUCCESS, s2)))
      in if current_thread s = None then go
         else obind (deref (current_thread s) s) (\<lambda>t.
           if th_type t = TT_MAIN then Ok (STATUS_INVALID_THREAD, s) else go))"

definition wake :: "sched \<Rightarrow> thread \<Rightarrow> thread" where
  "wake s t = (if waits_over s t then t\<lparr>wait_list := None, th_status := TS_RUNNING\<rparr> else t)"

text \<open>\<open>wake_rel s0 D s\<close>: \<open>s\<close> is \<open>s0\<close> after the threads of \<open>D\<close> were examined.\<close>

definition wake_rel :: "sched \<Rightarrow> nat set \<Rightarrow> sched \<Rightarrow> bool" where
  "wake_rel s0 D s \<longleftrightarrow> length (objs s) = length (objs s0) \<and>
     (\<forall>a < length (objs s0). objs s ! a = (if a \<in> D then map_option (wake s0) (objs s0 ! a) else objs s0 ! a)) \<and>
     cleared_arrays s0 s \<and> first_thread s = first_thread s0 \<and> current_thread s = current_thread s0 \<and>
     k_mm s = k_mm s0 \<and> preemption_enabled s = preemption_enabled s0 \<and> new_thread_id s = new_thread_id s0"

section \<open>Reaping\<close>

text \<open>\<open>relinked s s'\<close>: \<open>s'\<close> differs from \<open>s\<close> in \<^verbatim>\<open>next\<close> fields and \<^verbatim>\<open>first_thread\<close> only.\<close>

definition relinked :: "sched \<Rightarrow> sched \<Rightarrow> bool" where
  "relinked s s' \<longleftrightarrow> length (objs s') = length (objs s) \<and>
     (\<forall>a < length (objs s). objs s' ! a = objs s ! a \<or>
        (\<exists>t q. objs s ! a = Some t \<and> objs s' ! a = Some (t\<lparr>th_next := q\<rparr>))) \<and>
     s'\<lparr>objs := objs s, first_thread := first_thread s\<rparr> = s"

text \<open>
  The threads that a run of the maintenance destroys: finished, detached and not the main thread.
  \<open>reaped s D s'\<close>: \<open>s'\<close> is \<open>s\<close> with the objects of \<open>D\<close> freed, up to \<^verbatim>\<open>next\<close> fields, the first
  thread and the memory of the stacks.
\<close>

definition to_destroy :: "sched \<Rightarrow> nat \<Rightarrow> bool" where
  "to_destroy s a \<longleftrightarrow> th_status (obj s a) = TS_FINISHED \<and> detached (obj s a) \<and> th_type (obj s a) \<noteq> TT_MAIN"

definition reaped :: "sched \<Rightarrow> nat set \<Rightarrow> sched \<Rightarrow> bool" where
  "reaped s D s' \<longleftrightarrow> length (objs s') = length (objs s) \<and>
     (\<forall>a < length (objs s). if a \<in> D then objs s' ! a = None
        else map_option (\<lambda>t. t\<lparr>th_next := None\<rparr>) (objs s' ! a) = map_option (\<lambda>t. t\<lparr>th_next := None\<rparr>) (objs s ! a)) \<and>
     s'\<lparr>objs := objs s, first_thread := first_thread s, k_mm := k_mm s\<rparr> = s"

text \<open>
  \<open>follows stacks Q r\<close>: the computation \<open>r\<close> fails as \<open>stacks\<close> does, and otherwise returns a
  result that has \<open>Q\<close> with the result of \<open>stacks\<close>.
\<close>

definition follows :: "'a outcome \<Rightarrow> ('a \<Rightarrow> 'b \<Rightarrow> bool) \<Rightarrow> 'b outcome \<Rightarrow> bool" where
  "follows stacks Q r \<longleftrightarrow> (case stacks of Ok m \<Rightarrow> \<exists>s'. r = Ok s' \<and> Q m s'
     | Panic e \<Rightarrow> r = Panic e | Fault \<Rightarrow> r = Fault | Hang \<Rightarrow> r = Hang)"

text \<open>
  An example: the main thread, a kernel thread that waits for a third, and the third, which has
  finished; the list runs from the youngest to the oldest.
\<close>

definition sched_example :: sched where
  "sched_example = \<lparr>first_thread = Some 2, current_thread = Some 1,
     objs = [Some (new_thread\<lparr>th_status := TS_RUNNING\<rparr>),
             Some (new_thread\<lparr>th_next := Some 0, th_id := 1, th_type := TT_KERNEL, th_status := TS_WAITING,
                     wait_list := Some 0, wait_count := 1\<rparr>),
             Some (new_thread\<lparr>th_next := Some 1, th_id := 2, th_type := TT_KERNEL, th_status := TS_FINISHED\<rparr>)],
     arrays = [[Some 2]], preemption_enabled = True, new_thread_id = 3, k_mm = mm_example\<rparr>"

section \<open>Lemmas\<close>

lemma path_append: "path nx h p (xs @ ys) q \<longleftrightarrow> (\<exists>r. path nx h p xs r \<and> path nx h r ys q)"
  by (induction xs arbitrary: p) (auto split: option.splits)

lemma path_unique: "path nx h p xs None \<Longrightarrow> path nx h p ys None \<Longrightarrow> xs = ys"
proof (induction xs arbitrary: p ys)
  case Nil
  then show ?case by (cases ys) auto
next
  case (Cons a as)
  then show ?case by (cases ys) (auto split: option.splits)
qed

lemma path_distinct: "path nx h p xs None \<Longrightarrow> distinct xs"
proof (induction xs arbitrary: p)
  case (Cons a as)
  obtain t where t: "h ! a = Some t" "path nx h (nx t) as None"
    using Cons.prems by (auto split: option.splits)
  have "a \<notin> set as"
  proof
    assume "a \<in> set as"
    then obtain us vs where "as = us @ a # vs" by (auto simp: in_set_conv_decomp)
    then have "path nx h (Some a) (a # vs) None" using t(2) by (auto simp: path_append)
    then have "a # vs = a # as" using path_unique Cons.prems by (metis path.simps(2))
    then show False using \<open>as = us @ a # vs\<close> by simp
  qed
  then show ?case using Cons.IH [OF t(2)] by simp
qed simp

lemma path_live: "path nx h p xs q \<Longrightarrow> a \<in> set xs \<Longrightarrow> a < length h \<and> h ! a \<noteq> None"
  by (induction xs arbitrary: p) (auto split: option.splits)

lemma path_length: "path nx h p xs None \<Longrightarrow> length xs \<le> length h"
proof -
  assume p: "path nx h p xs None"
  have "set xs \<subseteq> {..< length h}" using path_live [OF p] by auto
  then have "card (set xs) \<le> length h" using card_mono [of "{..< length h}"] by simp
  then show ?thesis using distinct_card [OF path_distinct [OF p]] by simp
qed

lemma path_nth:
  "path nx h p xs None \<Longrightarrow> i < length xs \<Longrightarrow>
     nx (the (h ! (xs ! i))) = (if Suc i < length xs then Some (xs ! Suc i) else None)"
proof (induction xs arbitrary: p i)
  case (Cons a as)
  then obtain t where t: "h ! a = Some t" "path nx h (nx t) as None" by (auto split: option.splits)
  show ?case
  proof (cases i)
    case 0
    then show ?thesis using t by (cases as) auto
  next
    case (Suc j)
    then show ?thesis using Cons.IH [OF t(2), of j] Cons.prems(2) by simp
  qed
qed simp

lemma path_first: "path nx h p xs None \<Longrightarrow> p = (if xs = [] then None else Some (xs ! 0))"
  by (cases xs) auto

text \<open>A change that keeps the \<^verbatim>\<open>next\<close> fields keeps the lists.\<close>

lemma path_cong:
  assumes "path nx h p xs q" "length h' = length h"
    and "\<And>a. a \<in> set xs \<Longrightarrow> h' ! a \<noteq> None \<and> nx (the (h' ! a)) = nx (the (h ! a))"
  shows "path nx h' p xs q"
  using assms
proof (induction xs arbitrary: p)
  case (Cons a as)
  obtain t where t: "h ! a = Some t" "path nx h (nx t) as q" "a < length h" "p = Some a"
    using Cons.prems(1) by (auto split: option.splits)
  obtain t' where t': "h' ! a = Some t'" "nx t' = nx t"
    using Cons.prems(3) [of a] t(1) by auto
  have "path nx h' (nx t) as q" using Cons.IH [OF t(2) Cons.prems(2)] Cons.prems(3) by simp
  then show ?case using t t' Cons.prems(2) by simp
qed simp

lemma deref_live: "live s a \<Longrightarrow> deref (Some a) s = Ok (obj s a)"
  by (auto simp: deref_def live_def)

lemma threads_live: "threads s xs \<Longrightarrow> a \<in> set xs \<Longrightarrow> live s a"
  using path_live by (auto simp: live_def)

section \<open>Round robin\<close>

lemma ring_bound: "i < length xs \<Longrightarrow> j mod length xs < length xs"
  by (rule mod_less_divisor) linarith

lemma next_loop_step:
  assumes th: "threads s xs" and i: "i < length xs"
  shows "next_loop (Suc n) (Some (xs ! i)) s =
    (let q = xs ! (Suc i mod length xs) in if runnable (obj s q) then Ok (Some q) else next_loop n (Some q) s)"
proof -
  have l: "live s (xs ! k)" if "k < length xs" for k using threads_live [OF th] that by simp
  have q: "(if th_next (obj s (xs ! i)) = None then first_thread s else th_next (obj s (xs ! i))) =
      Some (xs ! (Suc i mod length xs))"
    using path_nth [OF th i] path_first [OF th] i
    by (cases "Suc i < length xs") (auto simp: mod_less Suc_lessI not_less_iff_gr_or_eq)
  have "live s (xs ! (Suc i mod length xs))" using l ring_bound [OF i] by blast
  then show ?thesis using q deref_live [OF l [OF i]] by (simp add: deref_live Let_def)
qed

lemma next_loop_found:
  assumes th: "threads s xs"
  shows "i < length xs \<Longrightarrow> 0 < j \<Longrightarrow> j \<le> n \<Longrightarrow> runnable (obj s (xs ! ((i + j) mod length xs))) \<Longrightarrow>
    \<forall>k. 0 < k \<and> k < j \<longrightarrow> \<not> runnable (obj s (xs ! ((i + k) mod length xs))) \<Longrightarrow>
    next_loop n (Some (xs ! i)) s = Ok (Some (xs ! ((i + j) mod length xs)))"
proof (induction n arbitrary: i j)
  case (Suc n)
  show ?case
  proof (cases "j = 1")
    case True
    then show ?thesis using next_loop_step [OF th Suc.prems(1)] Suc.prems(4) by (simp add: Let_def)
  next
    case False
    let ?i = "Suc i mod length xs"
    have lt: "?i < length xs" by (rule ring_bound [OF Suc.prems(1)])
    have nr: "\<not> runnable (obj s (xs ! ?i))" using Suc.prems(2) False Suc.prems(5) [rule_format, of 1] by simp
    have shift: "(?i + k) mod length xs = (i + Suc k) mod length xs" for k by (simp add: mod_add_left_eq)
    obtain h where h: "j = Suc h" "0 < h" using Suc.prems(2) False by (cases j) auto
    have "next_loop n (Some (xs ! ?i)) s = Ok (Some (xs ! ((?i + h) mod length xs)))"
      by (rule Suc.IH [OF lt]) (use Suc.prems h shift in auto)
    then show ?thesis
      using next_loop_step [OF th Suc.prems(1)] nr shift [of h] h(1)
      by (simp add: Let_def del: next_loop.simps)
  qed
qed simp

lemma next_loop_none:
  assumes th: "threads s xs" and none: "\<forall>a \<in> set xs. \<not> runnable (obj s a)"
  shows "i < length xs \<Longrightarrow> next_loop n (Some (xs ! i)) s = Hang"
proof (induction n arbitrary: i)
  case (Suc n)
  have "Suc i mod length xs < length xs" by (rule ring_bound [OF Suc.prems])
  then show ?case using next_loop_step [OF th Suc.prems] none Suc.IH by (simp add: Let_def)
qed simp

text \<open>The number of steps to the next runnable thread after position \<open>i\<close>.\<close>

lemma next_runnable_exists:
  assumes "i < length xs" "m < length xs" "P (xs ! m)"
  shows "\<exists>j. 0 < j \<and> j \<le> length xs \<and> P (xs ! ((i + j) mod length xs)) \<and>
     (\<forall>k. 0 < k \<and> k < j \<longrightarrow> \<not> P (xs ! ((i + k) mod length xs)))"
proof -
  let ?Q = "\<lambda>j. 0 < j \<and> P (xs ! ((i + j) mod length xs))"
  let ?d = "if i < m then m - i else m + length xs - i"
  have "(i + ?d) mod length xs = m" "0 < ?d" "?d \<le> length xs" using assms by auto
  then have d: "?Q ?d" "?d \<le> length xs" using assms(3) by auto
  let ?j = "LEAST j. ?Q j"
  have "?Q ?j" using d(1) by (rule LeastI)
  moreover have "?j \<le> length xs" using Least_le [of ?Q ?d] d by simp
  moreover have "\<forall>k. 0 < k \<and> k < ?j \<longrightarrow> \<not> P (xs ! ((i + k) mod length xs))" using not_less_Least by blast
  ultimately show ?thesis by blast
qed

lemma get_next_thread_spec:
  assumes th: "threads s xs" and cur: "current_thread s = Some (xs ! i)" "i < length xs"
    and r: "m < length xs" "runnable (obj s (xs ! m))"
  shows "\<exists>j. 0 < j \<and> j \<le> length xs \<and> runnable (obj s (xs ! ((i + j) mod length xs))) \<and>
     (\<forall>k. 0 < k \<and> k < j \<longrightarrow> \<not> runnable (obj s (xs ! ((i + k) mod length xs)))) \<and>
     scheduler_get_next_thread s = Ok (STATUS_SUCCESS, Some (xs ! ((i + j) mod length xs)))"
proof -
  obtain j where j: "0 < j" "j \<le> length xs" "runnable (obj s (xs ! ((i + j) mod length xs)))"
    "\<forall>k. 0 < k \<and> k < j \<longrightarrow> \<not> runnable (obj s (xs ! ((i + k) mod length xs)))"
    using next_runnable_exists [OF cur(2) r(1), of "\<lambda>a. runnable (obj s a)"] r(2) by blast
  have "j \<le> Suc (length (objs s))" using j(2) path_length [OF th] by simp
  then have "next_loop (Suc (length (objs s))) (current_thread s) s = Ok (Some (xs ! ((i + j) mod length xs)))"
    using next_loop_found [OF th cur(2) j(1) _ j(3,4)] cur(1) by (simp del: next_loop.simps)
  then show ?thesis using j by (auto simp: scheduler_get_next_thread_def)
qed

lemma sched_turn_spec:
  assumes th: "threads s xs" and cur: "current_thread s = Some (xs ! i)" "i < length xs"
    and r: "m < length xs" "runnable (obj s (xs ! m))"
  shows "\<exists>j. 0 < j \<and> j \<le> length xs \<and> (\<forall>k. 0 < k \<and> k < j \<longrightarrow> \<not> runnable (obj s (xs ! ((i + k) mod length xs)))) \<and>
     sched_turn s = Ok (s\<lparr>current_thread := Some (xs ! ((i + j) mod length xs))\<rparr>)"
  using get_next_thread_spec [OF assms]
  by (auto simp: sched_turn_def scheduler_set_current_thread_def)

text \<open>Each turn brings a runnable thread that is \<open>d\<close> places ahead nearer, until it is its turn.\<close>

lemma sched_turns_reach:
  assumes "0 < d" "d \<le> length xs"
  shows "threads s xs \<Longrightarrow> current_thread s = Some (xs ! i) \<Longrightarrow> i < length xs \<Longrightarrow>
    runnable (obj s (xs ! ((i + d) mod length xs))) \<Longrightarrow>
    \<exists>k s'. 0 < k \<and> k \<le> d \<and> sched_turns k s = Ok s' \<and> current_thread s' = Some (xs ! ((i + d) mod length xs))"
  using assms
proof (induction d arbitrary: s i rule: less_induct)
  case (less d)
  let ?t = "(i + d) mod length xs"
  have tb: "?t < length xs" by (rule ring_bound [OF less.prems(3)])
  obtain j where j: "0 < j" "j \<le> length xs" "\<forall>k. 0 < k \<and> k < j \<longrightarrow> \<not> runnable (obj s (xs ! ((i + k) mod length xs)))"
     "sched_turn s = Ok (s\<lparr>current_thread := Some (xs ! ((i + j) mod length xs))\<rparr>)"
    using sched_turn_spec [OF less.prems(1-3) tb less.prems(4)] by blast
  have jd: "j \<le> d" using j(3) less.prems(4,5) by (meson not_le_imp_less)
  let ?s = "s\<lparr>current_thread := Some (xs ! ((i + j) mod length xs))\<rparr>"
  show ?case
  proof (cases "j = d")
    case True
    then show ?thesis using j by (intro exI [of _ 1] exI [of _ ?s]) simp
  next
    case False
    let ?i = "(i + j) mod length xs"
    have ib: "?i < length xs" by (rule ring_bound [OF less.prems(3)])
    have e: "(?i + (d - j)) mod length xs = ?t" using jd mod_add_left_eq [of "i + j" "length xs" "d - j"] by simp
    have dj: "d - j < d" "0 < d - j" "d - j \<le> length xs" using j(1) jd False less.prems(6) by auto
    obtain k s' where k: "0 < k" "k \<le> d - j" "sched_turns k ?s = Ok s'" "current_thread s' = Some (xs ! ?t)"
      using less.IH [of "d - j" ?s ?i] dj ib less.prems(1,4) e by auto
    then show ?thesis using j(1,4) jd by (intro exI [of _ "Suc k"] exI [of _ s']) auto
  qed
qed

lemma cleared_arrays_trans:
  assumes "cleared_arrays s s1" "cleared_arrays s1 s2" "finished s1 = finished s"
  shows "cleared_arrays s s2"
  unfolding cleared_arrays_def
proof (intro conjI allI impI)
  show "length (arrays s2) = length (arrays s)" using assms by (simp add: cleared_arrays_def)
  fix l assume l: "l < length (arrays s)"
  have l1: "l < length (arrays s1)" using assms(1) l by (simp add: cleared_arrays_def)
  show "length (arrays s2 ! l) = length (arrays s ! l)" using assms l l1 by (simp add: cleared_arrays_def)
  fix i assume i: "i < length (arrays s ! l)"
  have i1: "i < length (arrays s1 ! l)" using assms(1) l i by (simp add: cleared_arrays_def)
  have "arrays s1 ! l ! i = arrays s ! l ! i \<or> arrays s1 ! l ! i = None \<and> finished s (arrays s ! l ! i)"
    using assms(1) l i by (simp add: cleared_arrays_def)
  moreover have "arrays s2 ! l ! i = arrays s1 ! l ! i \<or> arrays s2 ! l ! i = None \<and> finished s (arrays s1 ! l ! i)"
    using assms(2,3) l1 i1 by (simp add: cleared_arrays_def)
  ultimately show "arrays s2 ! l ! i = arrays s ! l ! i \<or> arrays s2 ! l ! i = None \<and> finished s (arrays s ! l ! i)"
    by auto
qed

lemma wait_scan_spec:
  assumes "l < length (arrays s)" "\<forall>i \<in> set is. i < length (arrays s ! l)" "distinct is"
    and "\<forall>i \<in> set is. \<forall>a. arrays s ! l ! i = Some a \<longrightarrow> live s a"
  shows "\<exists>A. wait_scan l is s = Ok ((\<forall>i \<in> set is. finished s (arrays s ! l ! i)), s\<lparr>arrays := A\<rparr>) \<and>
     cleared_arrays s (s\<lparr>arrays := A\<rparr>)"
  using assms
proof (induction "is" arbitrary: s)
  case Nil
  then show ?case by (intro exI [of _ "arrays s"]) (simp add: cleared_arrays_def)
next
  case (Cons i js)
  show ?case
  proof (cases "arrays s ! l ! i")
    case None
    then show ?thesis using Cons.IH [OF Cons.prems(1)] Cons.prems by (auto simp: finished_def)
  next
    case (Some a)
    have la: "live s a" using Cons.prems(4) Some by simp
    show ?thesis
    proof (cases "th_status (obj s a) = TS_FINISHED")
      case False
      then show ?thesis using Cons.prems(1,2) Some deref_live [OF la]
        by (intro exI [of _ "arrays s"]) (auto simp: finished_def cleared_arrays_def)
    next
      case True
      let ?s = "s\<lparr>arrays := (arrays s)[l := (arrays s ! l)[i := None]]\<rparr>"
      have ni: "i \<notin> set js" using Cons.prems(3) by simp
      have same: "arrays ?s ! l ! k = arrays s ! l ! k" if "k \<in> set js" for k
        using ni Cons.prems(1) nth_list_update_neq [of i k "arrays s ! l"] that by (cases "k = i") simp_all
      have fin: "finished ?s = finished s" by (auto simp: finished_def live_def fun_eq_iff split: option.splits)
      have ih: "\<exists>A. wait_scan l js ?s = Ok ((\<forall>i \<in> set js. finished ?s (arrays ?s ! l ! i)), ?s\<lparr>arrays := A\<rparr>) \<and>
          cleared_arrays ?s (?s\<lparr>arrays := A\<rparr>)"
        by (rule Cons.IH) (use Cons.prems same in \<open>auto simp: live_def\<close>)
      then obtain A where A: "wait_scan l js ?s = Ok ((\<forall>i \<in> set js. finished ?s (arrays ?s ! l ! i)), s\<lparr>arrays := A\<rparr>)"
          "cleared_arrays ?s (s\<lparr>arrays := A\<rparr>)" by auto
      have "cleared_arrays s ?s"
        using True Some la Cons.prems(1,2) by (auto simp: cleared_arrays_def finished_def nth_list_update split: if_splits)
      then have c: "cleared_arrays s (s\<lparr>arrays := A\<rparr>)" using A(2) fin cleared_arrays_trans by blast
      have "wait_scan l (i # js) s = wait_scan l js ?s"
        using Cons.prems(1,2) Some True deref_live [OF la] by simp
      then show ?thesis using A(1) c Some True la same fin by (auto simp: finished_def)
    qed
  qed
qed

lemma wake_next [simp]: "th_next (wake s t) = th_next t" "detached (wake s t) = detached t" "th_type (wake s t) = th_type t"
  by (simp_all add: wake_def)

lemma wake_finished: "th_status (wake s t) = TS_FINISHED \<longleftrightarrow> th_status t = TS_FINISHED"
  by (auto simp: wake_def waits_over_def)

lemma wake_rel_obj:
  assumes "wake_rel s0 D s" "objs s0 ! a = Some t" "a < length (objs s0)"
  shows "objs s ! a = Some (if a \<in> D then wake s0 t else t)"
  using assms by (simp add: wake_rel_def)

lemma wake_rel_live: "wake_rel s0 D s \<Longrightarrow> live s a \<longleftrightarrow> live s0 a"
proof -
  assume "wake_rel s0 D s"
  then have "length (objs s) = length (objs s0)"
    "a < length (objs s0) \<Longrightarrow> objs s ! a = (if a \<in> D then map_option (wake s0) (objs s0 ! a) else objs s0 ! a)"
    by (simp_all add: wake_rel_def)
  then show ?thesis by (cases "objs s0 ! a") (auto simp: live_def split: if_splits)
qed

lemma wake_rel_finished:
  assumes "wake_rel s0 D s" shows "finished s = finished s0"
proof -
  have "live s0 a \<Longrightarrow> th_status (obj s a) = TS_FINISHED \<longleftrightarrow> th_status (obj s0 a) = TS_FINISHED" for a
    using wake_rel_obj [OF assms, of a] wake_finished by (auto simp: live_def split: if_splits)
  then show ?thesis
    using wake_rel_live [OF assms] by (auto simp: finished_def fun_eq_iff split: option.splits)
qed

lemma wake_thread_spec:
  assumes w: "wake_rel s0 D s" and a: "a \<notin> D" "live s0 a" and v: "waits_valid s0 (obj s0 a)"
  shows "\<exists>s'. wake_thread (Some a) s = Ok s' \<and> wake_rel s0 (insert a D) s'"
proof -
  obtain t where t0: "objs s0 ! a = Some t" "a < length (objs s0)" using a(2) by (auto simp: live_def)
  have so: "objs s ! a = Some t" using wake_rel_obj [OF w t0] a(1) by simp
  have t: "deref (Some a) s = Ok t" "length (objs s) = length (objs s0)"
    using so w t0(2) by (auto simp: wake_rel_def deref_def)
  show ?thesis
  proof (cases "th_status t = TS_WAITING \<and> wait_list t \<noteq> None")
    case False
    then have "wake s0 t = t" by (auto simp: wake_def waits_over_def)
    then have "wake_rel s0 (insert a D) s" using w t0 a(1) by (auto simp: wake_rel_def)
    then show ?thesis using False t(1) by (auto simp: wake_thread_def)
  next
    case True
    then obtain l where l: "wait_list t = Some l" by auto
    let ?n = "nat (wait_count t)"
    have v0: "l < length (arrays s0)" "?n \<le> length (arrays s0 ! l)"
      "\<And>b. Some b \<in> set (take ?n (arrays s0 ! l)) \<Longrightarrow> live s0 b"
      using v t0(1) True l by (auto simp: waits_valid_def waits_for_def)
    have ca: "cleared_arrays s0 s" using w by (simp add: wake_rel_def)
    have v1: "l < length (arrays s)" "length (arrays s ! l) = length (arrays s0 ! l)"
      using ca v0(1) by (auto simp: cleared_arrays_def)
    have ent: "arrays s ! l ! i = arrays s0 ! l ! i \<or> arrays s ! l ! i = None \<and> finished s0 (arrays s0 ! l ! i)"
      if "i < ?n" for i using ca v0(1,2) that by (simp add: cleared_arrays_def)
    have lv: "live s0 b" if "i < ?n" "arrays s0 ! l ! i = Some b" for i b
      using v0(2,3) that by (metis in_set_conv_nth length_take min.absorb2 nth_take)
    have fin: "finished s (arrays s ! l ! i) = finished s0 (arrays s0 ! l ! i)" if "i < ?n" for i
      using ent [OF that] wake_rel_finished [OF w] by (auto simp: finished_def)
    have lv': "live s b" if "i < ?n" "arrays s ! l ! i = Some b" for i b
      using ent [OF that(1)] that(2) lv [OF that(1)] wake_rel_live [OF w] by auto
    have scan: "\<exists>A. wait_scan l [0 ..< ?n] s = Ok ((\<forall>i \<in> set [0 ..< ?n]. finished s (arrays s ! l ! i)), s\<lparr>arrays := A\<rparr>) \<and>
        cleared_arrays s (s\<lparr>arrays := A\<rparr>)"
      by (rule wait_scan_spec [OF v1(1)]) (use v0(2) v1(2) lv' in auto)
    then obtain A where A: "wait_scan l [0 ..< ?n] s = Ok ((\<forall>i < ?n. finished s0 (arrays s0 ! l ! i)), s\<lparr>arrays := A\<rparr>)"
        "cleared_arrays s (s\<lparr>arrays := A\<rparr>)" using fin by (auto simp: Ball_def)
    have ov: "waits_over s0 t \<longleftrightarrow> (\<forall>i < ?n. finished s0 (arrays s0 ! l ! i))"
      using True l v0(2) by (auto simp: waits_over_def waits_for_def set_conv_nth)
    have sc: "wait_scan l [0 ..< ?n] s = Ok (waits_over s0 t, s\<lparr>arrays := A\<rparr>)" using A(1) unfolding ov .
    have c2: "cleared_arrays s0 (s\<lparr>arrays := A\<rparr>)"
      by (rule cleared_arrays_trans [OF ca A(2) wake_rel_finished [OF w]])
    have d: "deref (Some a) (s\<lparr>arrays := A\<rparr>) = Ok t" using so t(2) t0(2) by (simp add: deref_def)
    show ?thesis
    proof (cases "waits_over s0 t")
      case over: True
      have "wake_thread (Some a) s =
          Ok (s\<lparr>arrays := A, objs := (objs s)[a := Some (wake s0 t)]\<rparr>)"
        using t(1) True l sc over d by (simp add: wake_thread_def assign_def wake_def)
      moreover have "wake_rel s0 (insert a D) (s\<lparr>arrays := A, objs := (objs s)[a := Some (wake s0 t)]\<rparr>)"
        using w c2 t0 t(2) by (auto simp: wake_rel_def nth_list_update cleared_arrays_def)
      ultimately show ?thesis by blast
    next
      case False
      have "wake_thread (Some a) s = Ok (s\<lparr>arrays := A\<rparr>)"
        using t(1) True l sc False by (simp add: wake_thread_def)
      moreover have "wake_rel s0 (insert a D) (s\<lparr>arrays := A\<rparr>)"
        using w c2 t0 False by (auto simp: wake_rel_def wake_def)
      ultimately show ?thesis by blast
    qed
  qed
qed

lemma wake_loop_spec:
  "wake_rel s0 D s \<Longrightarrow> path th_next (objs s0) p xs None \<Longrightarrow> set xs \<inter> D = {} \<Longrightarrow> length xs \<le> n \<Longrightarrow>
   \<forall>a \<in> set xs. waits_valid s0 (obj s0 a) \<Longrightarrow> \<exists>s'. wake_loop n p s = Ok s' \<and> wake_rel s0 (D \<union> set xs) s'"
proof (induction xs arbitrary: n p s D)
  case Nil
  then show ?case by simp
next
  case (Cons a as)
  then obtain k where k: "n = Suc k" by (cases n) auto
  have a: "p = Some a" "live s0 a" "path th_next (objs s0) (th_next (obj s0 a)) as None"
    using Cons.prems(2) by (auto simp: live_def split: option.splits)
  obtain s1 where s1: "wake_thread (Some a) s = Ok s1" "wake_rel s0 (insert a D) s1"
    using wake_thread_spec [OF Cons.prems(1) _ a(2)] Cons.prems(3,5) by auto
  have "deref (Some a) s1 = Ok (wake s0 (obj s0 a))"
    using s1(2) a(2) deref_live [of s1 a] wake_rel_live [OF s1(2)] by (auto simp: wake_rel_def live_def)
  moreover have "a \<notin> set as" using path_distinct [OF Cons.prems(2)] by simp
  ultimately show ?case
    using Cons.IH [OF s1(2) a(3), of k] Cons.prems(3-5) a(1) k s1(1) by auto
qed

lemma relinked_refl: "relinked s s"
  by (simp add: relinked_def)

lemma relinked_trans:
  assumes "relinked s s1" "relinked s1 s2" shows "relinked s s2"
proof -
  have "objs s2 ! a = objs s ! a \<or> (\<exists>t q. objs s ! a = Some t \<and> objs s2 ! a = Some (t\<lparr>th_next := q\<rparr>))"
    if a: "a < length (objs s)" for a
  proof -
    have "objs s1 ! a = objs s ! a \<or> (\<exists>t q. objs s ! a = Some t \<and> objs s1 ! a = Some (t\<lparr>th_next := q\<rparr>))"
      "objs s2 ! a = objs s1 ! a \<or> (\<exists>t q. objs s1 ! a = Some t \<and> objs s2 ! a = Some (t\<lparr>th_next := q\<rparr>))"
      using assms a by (simp_all add: relinked_def)
    then show ?thesis by (cases "objs s ! a") auto
  qed
  moreover have "s2\<lparr>objs := objs s, first_thread := first_thread s\<rparr> = s"
  proof -
    have "s1\<lparr>objs := objs s, first_thread := first_thread s\<rparr> = s" "s2\<lparr>objs := objs s1, first_thread := first_thread s1\<rparr> = s1"
      using assms by (simp_all add: relinked_def)
    then have "(s2\<lparr>objs := objs s1, first_thread := first_thread s1\<rparr>)\<lparr>objs := objs s, first_thread := first_thread s\<rparr> = s" by simp
    then show ?thesis by simp
  qed
  ultimately show ?thesis using assms by (simp add: relinked_def)
qed

lemma relinked_live: "relinked s s' \<Longrightarrow> live s' a \<longleftrightarrow> live s a"
  by (auto simp: relinked_def live_def)

lemma relinked_fields:
  assumes "relinked s s'" "live s a"
  shows "th_status (obj s' a) = th_status (obj s a)" "detached (obj s' a) = detached (obj s a)"
  using assms by (fastforce simp: relinked_def live_def)+

lemma path_update_other:
  assumes p: "path nx h p xs q" and b: "b \<notin> set xs" shows "path nx (h[b := v]) p xs q"
proof (rule path_cong [OF p])
  fix a assume a: "a \<in> set xs"
  have "h[b := v] ! a = h ! a" using a b by (metis nth_list_update_neq)
  then show "h[b := v] ! a \<noteq> None \<and> nx (the (h[b := v] ! a)) = nx (the (h ! a))"
    using path_live [OF p a] by simp
qed simp

text \<open>Bypassing the element after the last of a list.\<close>

lemma path_bypass:
  assumes p: "path th_next h p (ks @ a # as) None" and k: "ks \<noteq> []" and b: "last ks = b" "h ! b = Some t"
  shows "path th_next (h[b := Some (t\<lparr>th_next := th_next (the (h ! a))\<rparr>)]) p (ks @ as) None"
proof -
  obtain us where us: "ks = us @ [b]" using k b(1) by (metis append_butlast_last_id)
  let ?h = "h[b := Some (t\<lparr>th_next := th_next (the (h ! a))\<rparr>)]"
  have d: "distinct (us @ b # a # as)" using path_distinct [OF p] us by simp
  obtain ta where pp: "path th_next h p us (Some b)" "b < length h" "h ! a = Some ta" "path th_next h (th_next ta) as None"
    using p us by (auto simp: path_append split: option.splits)
  have "path th_next ?h p us (Some b)" by (rule path_update_other [OF pp(1)]) (use d in auto)
  moreover have "path th_next ?h (th_next ta) as None" by (rule path_update_other [OF pp(4)]) (use d in auto)
  ultimately show ?thesis using pp us by (auto simp: path_append)
qed

lemma unlink_loop_absent:
  "path th_next (objs s) p (c # xs) None \<Longrightarrow> a \<notin> set xs \<Longrightarrow> length xs < n \<Longrightarrow> unlink_loop n (Some a) p s = Ok s"
proof (induction xs arbitrary: n p c)
  case Nil
  then obtain k where k: "n = Suc k" by (cases n) auto
  then show ?case using Nil.prems(1) by (auto simp: deref_def split: option.splits)
next
  case (Cons d xs)
  then obtain k where k: "n = Suc k" by (cases n) auto
  obtain t where t: "p = Some c" "c < length (objs s)" "objs s ! c = Some t" "path th_next (objs s) (th_next t) (d # xs) None"
    using Cons.prems(1) by (auto split: option.splits)
  have "th_next t = Some d" using t(4) by simp
  then show ?case using Cons.IH [OF t(4), of k] Cons.prems(2,3) k t by (auto simp: deref_def)
qed

lemma reaped_refl: "reaped s {} s"
  by (simp add: reaped_def)

lemma relinked_reaped: "relinked s s' \<Longrightarrow> reaped s {} s'"
proof -
  assume r: "relinked s s'"
  then have e: "s'\<lparr>objs := objs s, first_thread := first_thread s\<rparr> = s" by (simp add: relinked_def)
  from arg_cong [OF e, of k_mm] have "k_mm s' = k_mm s" by simp
  then have "s'\<lparr>objs := objs s, first_thread := first_thread s, k_mm := k_mm s\<rparr> = s" using e by simp
  then show ?thesis using r by (fastforce simp: reaped_def relinked_def)
qed

lemma reaped_trans:
  assumes "reaped s D s1" "reaped s1 E s2" shows "reaped s (D \<union> E) s2"
proof -
  have "s1\<lparr>objs := objs s, first_thread := first_thread s, k_mm := k_mm s\<rparr> = s"
    "s2\<lparr>objs := objs s1, first_thread := first_thread s1, k_mm := k_mm s1\<rparr> = s1"
    using assms by (simp_all add: reaped_def)
  then have "(s2\<lparr>objs := objs s1, first_thread := first_thread s1, k_mm := k_mm s1\<rparr>)
      \<lparr>objs := objs s, first_thread := first_thread s, k_mm := k_mm s\<rparr> = s" by simp
  then have "s2\<lparr>objs := objs s, first_thread := first_thread s, k_mm := k_mm s\<rparr> = s" by simp
  moreover have "if a \<in> D \<union> E then objs s2 ! a = None
      else map_option (\<lambda>t. t\<lparr>th_next := None\<rparr>) (objs s2 ! a) = map_option (\<lambda>t. t\<lparr>th_next := None\<rparr>) (objs s ! a)"
    if a: "a < length (objs s)" for a
    using assms a by (auto simp: reaped_def split: if_splits)
  ultimately show ?thesis using assms by (simp add: reaped_def)
qed

lemma reaped_object:
  assumes "reaped s D s'" "live s a"
  shows "if a \<in> D then \<not> live s' a else live s' a \<and> th_status (obj s' a) = th_status (obj s a)"
proof (cases "a \<in> D")
  case True
  then show ?thesis using assms by (simp add: reaped_def live_def)
next
  case False
  obtain t where t: "objs s ! a = Some t" "a < length (objs s)" using assms(2) by (auto simp: live_def)
  then have "map_option (\<lambda>t. t\<lparr>th_next := None\<rparr>) (objs s' ! a) = Some (t\<lparr>th_next := None\<rparr>)"
    using assms(1) False by (simp add: reaped_def)
  then obtain u where u: "objs s' ! a = Some u" "u\<lparr>th_next := None\<rparr> = t\<lparr>th_next := None\<rparr>" by auto
  from arg_cong [OF u(2), of th_status] show ?thesis
    using assms(1) False t u(1) by (simp add: live_def reaped_def)
qed

text \<open>Taking the element after \<open>ks\<close> out of the list, as the second loop of the maintenance does.\<close>

lemma reap_unlink:
  assumes th: "threads s (ks @ a # as)" and prev: "prev = (if ks = [] then None else Some (last ks))"
  obtains s1 where "(if prev \<noteq> None then assign prev (\<lambda>p. p\<lparr>th_next := th_next (obj s a)\<rparr>) s
      else Ok (s\<lparr>first_thread := th_next (obj s a)\<rparr>)) = Ok s1" "relinked s s1" "threads s1 (ks @ as)"
    "\<And>b. b \<notin> set ks \<Longrightarrow> objs s1 ! b = objs s ! b" "k_mm s1 = k_mm s"
proof (cases "ks = []")
  case True
  have "path th_next (objs s) (th_next (obj s a)) as None" using th True by (auto split: option.splits)
  then show ?thesis
    using that [of "s\<lparr>first_thread := th_next (obj s a)\<rparr>"] prev True by (simp add: relinked_def)
next
  case False
  let ?b = "last ks"
  have lb: "live s ?b" using threads_live [OF th] False by simp
  then obtain t where t: "objs s ! ?b = Some t" "?b < length (objs s)" by (auto simp: live_def)
  let ?s = "s\<lparr>objs := (objs s)[?b := Some (t\<lparr>th_next := th_next (obj s a)\<rparr>)]\<rparr>"
  have "assign prev (\<lambda>p. p\<lparr>th_next := th_next (obj s a)\<rparr>) s = Ok ?s"
    using prev False t by (simp add: assign_def deref_def)
  moreover have "relinked s ?s" using t by (auto simp: relinked_def nth_list_update)
  moreover have "threads ?s (ks @ as)" using path_bypass [OF th False refl t(1)] by simp
  moreover have "objs ?s ! b = objs s ! b" if "b \<notin> set ks" for b
  proof -
    have "b \<noteq> ?b" using that False last_in_set [of ks] by metis
    then show ?thesis by simp
  qed
  ultimately show ?thesis using that [of ?s] prev False by simp
qed

text \<open>Destroying a thread that is no longer in the list.\<close>

lemma thread_remove_unlinked:
  assumes th: "threads s xs" "xs \<noteq> []" "a \<notin> set xs" and a: "live s a" "to_destroy s a"
  shows "thread_remove (Some a) s = obind (pc_thread_free_kthread_stack (obj s a) (k_mm s))
    (\<lambda>m. Ok (STATUS_SUCCESS, free_thread a (s\<lparr>k_mm := m\<rparr>)))"
proof -
  obtain c cs where xs: "xs = c # cs" using th(2) by (cases xs) auto
  have "unlink_loop (Suc (length (objs s))) (Some a) (first_thread s) s = Ok s"
    by (rule unlink_loop_absent [of _ _ c cs]) (use th xs path_length [OF th(1)] in auto)
  moreover have "first_thread s \<noteq> Some a" using th xs by auto
  ultimately have "scheduler_remove_thread (Some a) s = Ok (STATUS_SUCCESS, s)"
    using a deref_live [OF a(1)] by (simp add: scheduler_remove_thread_def to_destroy_def del: unlink_loop.simps)
  then show ?thesis
    using a deref_live [OF a(1)] by (simp add: thread_remove_def to_destroy_def)
qed

lemma free_thread_reaped:
  assumes "threads s xs" "a \<notin> set xs" "a < length (objs s)"
  shows "reaped s {a} (free_thread a (s\<lparr>k_mm := m\<rparr>))" "threads (free_thread a (s\<lparr>k_mm := m\<rparr>)) xs"
  using path_update_other [OF assms(1,2), of None] assms(3)
  by (auto simp: reaped_def free_thread_def nth_list_update)

text \<open>The second loop of the maintenance.\<close>

lemma follows_mono: "follows m Q r \<Longrightarrow> (\<And>x y. Q x y \<Longrightarrow> R x y) \<Longrightarrow> follows m R r"
  by (auto simp: follows_def split: outcome.splits)

lemma follows_bind:
  "(\<And>x. m = Ok x \<Longrightarrow> follows (f x) Q (g x)) \<Longrightarrow> follows (obind m f) Q (obind m g)"
  by (cases m) (auto simp: follows_def)

lemma reap_loop_spec:
  "threads s (ks @ as) \<Longrightarrow> prev = (if ks = [] then None else Some (last ks)) \<Longrightarrow>
   p = (if as = [] then None else Some (hd as)) \<Longrightarrow> length as \<le> n \<Longrightarrow>
   \<exists>a \<in> set (ks @ as). th_status (obj s a) \<noteq> TS_FINISHED \<Longrightarrow>
   follows (ofold pc_thread_free_kthread_stack (map (obj s) (filter (to_destroy s) as)) (k_mm s))
     (\<lambda>m s'. reaped s (set (filter (to_destroy s) as)) s' \<and> k_mm s' = m \<and>
        threads s' (ks @ filter (\<lambda>a. th_status (obj s a) \<noteq> TS_FINISHED) as))
     (reap_loop n prev p s)"
proof (induction as arbitrary: n prev p s ks)
  case Nil
  then show ?case by (simp add: reaped_refl follows_def)
next
  case (Cons a as)
  then obtain k where k: "n = Suc k" by (cases n) auto
  have la: "live s a" using threads_live [OF Cons.prems(1)] by simp
  have d: "distinct (ks @ a # as)" by (rule path_distinct [OF Cons.prems(1)])
  let ?c = "obj s a"
  have nx: "th_next ?c = (if as = [] then None else Some (hd as))"
    using path_nth [OF Cons.prems(1), of "length ks"] by (cases as) (auto simp: nth_append)
  show ?case
  proof (cases "th_status ?c = TS_FINISHED")
    case False
    have th: "threads s ((ks @ [a]) @ as)" using Cons.prems(1) by simp
    have "reap_loop n prev p s = reap_loop k (Some a) (th_next ?c) s"
      using False k Cons.prems(3) deref_live [OF la] by simp
    then show ?thesis
      using Cons.IH [OF th _ nx, of "Some a" k] Cons.prems(4) k False by (simp add: to_destroy_def)
  next
    case fin: True
    obtain s1 where s1: "(if prev \<noteq> None then assign prev (\<lambda>p. p\<lparr>th_next := th_next ?c\<rparr>) s
        else Ok (s\<lparr>first_thread := th_next ?c\<rparr>)) = Ok s1" "relinked s s1" "threads s1 (ks @ as)"
      "\<And>b. b \<notin> set ks \<Longrightarrow> objs s1 ! b = objs s ! b" "k_mm s1 = k_mm s"
      using reap_unlink [OF Cons.prems(1,2)] by blast
    have same: "obj s1 b = obj s b" if "b \<in> set (a # as)" for b
    proof -
      have "b \<notin> set ks" using d that by auto
      then show ?thesis using s1(4) by simp
    qed
    have l1: "live s1 a" using relinked_live [OF s1(2)] la by simp
    have un: "\<exists>b \<in> set (ks @ as). th_status (obj s1 b) \<noteq> TS_FINISHED"
    proof -
      obtain b where b: "b \<in> set (ks @ as)" "th_status (obj s b) \<noteq> TS_FINISHED" using Cons.prems(5) fin by auto
      then have "th_status (obj s1 b) = th_status (obj s b)"
        using relinked_fields(1) [OF s1(2)] threads_live [OF Cons.prems(1)] by auto
      then show ?thesis using b by metis
    qed
    let ?dead = "filter (to_destroy s) as" and ?kept = "filter (\<lambda>a. th_status (obj s a) \<noteq> TS_FINISHED) as"
    have tail: "follows (ofold pc_thread_free_kthread_stack (map (obj s) ?dead) (k_mm t))
        (\<lambda>m s'. reaped t (set ?dead) s' \<and> k_mm s' = m \<and> threads s' (ks @ ?kept)) (reap_loop k prev (th_next ?c) t)"
      if t: "threads t (ks @ as)" "\<And>b. b \<noteq> a \<Longrightarrow> objs t ! b = objs s1 ! b" for t
    proof -
      have ob: "obj t b = obj s b" if "b \<in> set as" for b
      proof -
        have "b \<noteq> a" using d that by auto
        then show ?thesis using t(2) same that by simp
      qed
      have "filter (to_destroy t) as = ?dead" "filter (\<lambda>a. th_status (obj t a) \<noteq> TS_FINISHED) as = ?kept"
        by (auto intro!: filter_cong simp: ob to_destroy_def)
      moreover have "map (obj t) ?dead = map (obj s) ?dead" by (simp add: ob)
      moreover have "\<exists>b \<in> set (ks @ as). th_status (obj t b) \<noteq> TS_FINISHED" using un t(2) d
        by (metis Un_iff distinct.simps(2) distinct_append disjoint_iff list.set_intros(1) set_append)
      moreover have "length as \<le> k" using Cons.prems(4) k by simp
      ultimately show ?thesis
        using Cons.IH [OF t(1) Cons.prems(2) nx, of k] by metis
    qed
    show ?thesis
    proof (cases "to_destroy s a")
      case True
      let ?t = "\<lambda>m. free_thread a (s1\<lparr>k_mm := m\<rparr>)"
      have ne: "ks @ as \<noteq> []" using un by auto
      have na: "a \<notin> set (ks @ as)" using d by auto
      have td: "to_destroy s1 a" using True same by (simp add: to_destroy_def)
      have "reap_loop n prev p s = obind (pc_thread_free_kthread_stack ?c (k_mm s)) (\<lambda>m. reap_loop k prev (th_next ?c) (?t m))"
        using fin True k Cons.prems(3) deref_live [OF la] s1(1,5) same
          thread_remove_unlinked [OF s1(3) ne na l1 td]
        by (simp add: to_destroy_def obind_assoc)
      moreover have "follows (ofold pc_thread_free_kthread_stack (map (obj s) ?dead) m)
          (\<lambda>m' s'. reaped s (set (a # ?dead)) s' \<and> k_mm s' = m' \<and> threads s' (ks @ ?kept)) (reap_loop k prev (th_next ?c) (?t m))" for m
      proof -
        have f: "reaped s1 {a} (?t m)" "threads (?t m) (ks @ as)"
          using free_thread_reaped [OF s1(3) na] l1 by (auto simp: live_def)
        have r: "reaped s {a} (?t m)" using reaped_trans [OF relinked_reaped [OF s1(2)] f(1)] by simp
        have "follows (ofold pc_thread_free_kthread_stack (map (obj s) ?dead) (k_mm (?t m)))
          (\<lambda>m' s'. reaped (?t m) (set ?dead) s' \<and> k_mm s' = m' \<and> threads s' (ks @ ?kept)) (reap_loop k prev (th_next ?c) (?t m))"
          using tail [OF f(2)] by (simp add: free_thread_def)
        then show ?thesis using reaped_trans [OF r]
          by (auto elim!: follows_mono simp: free_thread_def)
      qed
      ultimately show ?thesis using True fin by (auto intro!: follows_bind)
    next
      case False
      have "obind (if detached ?c then thread_remove (Some a) s1 else Ok (STATUS_SUCCESS, s1))
          (\<lambda>(_, s2). reap_loop k prev (th_next ?c) s2) = reap_loop k prev (th_next ?c) s1"
        using False fin deref_live [OF l1] same by (auto simp: to_destroy_def thread_remove_def)
      then have "reap_loop n prev p s = reap_loop k prev (th_next ?c) s1"
        using fin k Cons.prems(3) deref_live [OF la] s1(1) by (simp split del: if_split)
      then show ?thesis
        using tail [OF s1(3)] reaped_trans [OF relinked_reaped [OF s1(2)]] s1(5) False fin
        by (auto elim!: follows_mono)
    qed
  qed
qed

lemma maintain_spec:
  assumes th: "threads s xs" and v: "\<forall>a \<in> set xs. waits_valid s (obj s a)"
    and un: "\<exists>a \<in> set xs. th_status (obj s a) \<noteq> TS_FINISHED"
    and cur: "case current_thread s of None \<Rightarrow> True | Some c \<Rightarrow> live s c \<and> th_type (obj s c) \<noteq> TT_MAIN"
  shows "follows (ofold pc_thread_free_kthread_stack (map (obj s) (filter (to_destroy s) xs)) (k_mm s))
    (\<lambda>m (st, s'). st = STATUS_SUCCESS \<and> k_mm s' = m \<and>
       threads s' (filter (\<lambda>a. th_status (obj s a) \<noteq> TS_FINISHED) xs) \<and>
       (\<forall>a \<in> set xs. if to_destroy s a then \<not> live s' a
          else th_status (obj s' a) = (if waits_over s (obj s a) then TS_RUNNING else th_status (obj s a))))
    (scheduler_maintain s)"
proof -
  have "wake_rel s {} s" by (simp add: wake_rel_def cleared_arrays_def)
  from wake_loop_spec [OF this th _ path_length [OF th] v]
  obtain s1 where s1: "wake_loop (length (objs s)) (first_thread s) s = Ok s1" "wake_rel s (set xs) s1" by auto
  have ob: "obj s1 a = wake s (obj s a) \<and> live s1 a" if "a \<in> set xs" for a
    using threads_live [OF th that] wake_rel_obj [OF s1(2), of a] wake_rel_live [OF s1(2)] that by (auto simp: live_def)
  have th1: "threads s1 xs"
  proof -
    have len: "length (objs s1) = length (objs s)" using s1(2) by (simp add: wake_rel_def)
    have "path th_next (objs s1) (first_thread s) xs None"
    proof (rule path_cong [OF th len])
      fix a assume "a \<in> set xs"
      from ob [OF this] show "objs s1 ! a \<noteq> None \<and> th_next (obj s1 a) = th_next (obj s a)" by (simp add: live_def)
    qed
    then show ?thesis using s1(2) by (simp add: wake_rel_def)
  qed
  have st1: "th_status (obj s1 a) = TS_FINISHED \<longleftrightarrow> th_status (obj s a) = TS_FINISHED" if "a \<in> set xs" for a
    using ob [OF that] wake_finished by simp
  have td: "to_destroy s1 a \<longleftrightarrow> to_destroy s a" if "a \<in> set xs" for a
    using ob [OF that] by (auto simp: to_destroy_def wake_def waits_over_def)
  have same: "obj s1 a = obj s a" if "a \<in> set xs" "to_destroy s a" for a
    using ob [OF that(1)] that(2) by (auto simp: to_destroy_def wake_def waits_over_def)
  have fl: "filter (\<lambda>a. th_status (obj s1 a) \<noteq> TS_FINISHED) xs = filter (\<lambda>a. th_status (obj s a) \<noteq> TS_FINISHED) xs"
    "filter (to_destroy s1) xs = filter (to_destroy s) xs"
    using st1 td by (auto intro: filter_cong)
  have mp: "map (obj s1) (filter (to_destroy s) xs) = map (obj s) (filter (to_destroy s) xs)" using same by simp
  have k: "k_mm s1 = k_mm s" using s1(2) by (simp add: wake_rel_def)
  have p1: "first_thread s1 = (if xs = [] then None else Some (hd xs))" using path_first [OF th1] by (simp add: hd_conv_nth)
  have "\<exists>a \<in> set xs. th_status (obj s1 a) \<noteq> TS_FINISHED" using un st1 by metis
  then have "follows (ofold pc_thread_free_kthread_stack (map (obj s) (filter (to_destroy s) xs)) (k_mm s))
     (\<lambda>m s'. reaped s1 (set (filter (to_destroy s) xs)) s' \<and> k_mm s' = m \<and>
        threads s' (filter (\<lambda>a. th_status (obj s a) \<noteq> TS_FINISHED) xs))
     (reap_loop (length (objs s1)) None (first_thread s1) s1)"
    using reap_loop_spec [of s1 "[]" xs None "first_thread s1" "length (objs s1)"] th1 p1 path_length [OF th1]
    unfolding fl mp k by simp
  then have "follows (ofold pc_thread_free_kthread_stack (map (obj s) (filter (to_destroy s) xs)) (k_mm s))
     (\<lambda>m s'. k_mm s' = m \<and> threads s' (filter (\<lambda>a. th_status (obj s a) \<noteq> TS_FINISHED) xs) \<and>
       (\<forall>a \<in> set xs. if to_destroy s a then \<not> live s' a
          else th_status (obj s' a) = (if waits_over s (obj s a) then TS_RUNNING else th_status (obj s a))))
     (reap_loop (length (objs s1)) None (first_thread s1) s1)"
  proof (rule follows_mono, intro conjI ballI)
    fix m s' a
    assume r: "reaped s1 (set (filter (to_destroy s) xs)) s' \<and> k_mm s' = m \<and>
        threads s' (filter (\<lambda>a. th_status (obj s a) \<noteq> TS_FINISHED) xs)" and a: "a \<in> set xs"
    have "if a \<in> set (filter (to_destroy s) xs) then \<not> live s' a else live s' a \<and> th_status (obj s' a) = th_status (obj s1 a)"
      using r ob [OF a] by (blast intro: reaped_object)
    then show "if to_destroy s a then \<not> live s' a
        else th_status (obj s' a) = (if waits_over s (obj s a) then TS_RUNNING else th_status (obj s a))"
      using ob [OF a] a by (simp add: wake_def split: if_splits)
  qed auto
  moreover have "scheduler_maintain s =
      obind (reap_loop (length (objs s1)) None (first_thread s1) s1) (\<lambda>s2. Ok (STATUS_SUCCESS, s2))"
    using cur s1(1) by (auto simp: scheduler_maintain_def deref_live split: option.splits)
  ultimately show ?thesis by (auto simp: follows_def split: outcome.splits)
qed

lemma sched_example_threads: "threads sched_example [2, 1, 0]"
  by (simp add: sched_example_def new_thread_def)

text \<open>
  C29: \<^verbatim>\<open>scheduler_get_next_thread\<close> is round robin: from the current thread on, and around the end
  of the list, it returns the first thread that is running or pending (the current one only if no
  other is); when no thread is runnable its loop never ends.
\<close>

theorem scheduler_get_next_thread_round_robin:
  assumes "threads s xs" and "current_thread s = Some (xs ! i)" and "i < length xs"
  shows "if \<exists>a \<in> set xs. runnable (obj s a)
    then \<exists>j. 0 < j \<and> j \<le> length xs \<and> runnable (obj s (xs ! ((i + j) mod length xs))) \<and>
      (\<forall>k. 0 < k \<and> k < j \<longrightarrow> \<not> runnable (obj s (xs ! ((i + k) mod length xs)))) \<and>
      scheduler_get_next_thread s = Ok (STATUS_SUCCESS, Some (xs ! ((i + j) mod length xs)))
    else scheduler_get_next_thread s = Hang"
proof (cases "\<exists>a \<in> set xs. runnable (obj s a)")
  case True
  then obtain m where "m < length xs" "runnable (obj s (xs ! m))" by (auto simp: in_set_conv_nth)
  then show ?thesis using get_next_thread_spec [OF assms] True by simp
next
  case False
  then have "next_loop (Suc (length (objs s))) (Some (xs ! i)) s = Hang"
    using next_loop_none [OF assms(1) _ assms(3)] by blast
  then show ?thesis using False assms(2) by (simp add: scheduler_get_next_thread_def del: next_loop.simps)
qed

theorem scheduler_get_next_thread_round_robin_witness:
  "\<exists>q. scheduler_get_next_thread sched_example = Ok (STATUS_SUCCESS, q)"
proof -
  have "runnable (obj sched_example 0)" by (simp add: sched_example_def runnable_def)
  then show ?thesis
    using scheduler_get_next_thread_round_robin [OF sched_example_threads, of 1]
    by (auto simp: sched_example_def)
qed

text \<open>
  C32: No runnable thread starves: from any turn on, a thread of the list that stays runnable is the
  current thread again after at most as many turns as there are threads.
\<close>

theorem scheduler_fair:
  assumes "threads s xs" and "current_thread s = Some (xs ! i)" and "i < length xs"
    and "m < length xs" and "runnable (obj s (xs ! m))"
  shows "\<exists>k s'. 0 < k \<and> k \<le> length xs \<and> sched_turns k s = Ok s' \<and> current_thread s' = Some (xs ! m)"
proof -
  let ?d = "if i < m then m - i else m + length xs - i"
  have d: "0 < ?d" "?d \<le> length xs" "(i + ?d) mod length xs = m" using assms(3,4) by auto
  then show ?thesis
    using sched_turns_reach [OF d(1,2) assms(1-3)] assms(5) by (auto intro: le_trans)
qed

theorem scheduler_fair_witness:
  "\<exists>k s'. k \<le> 3 \<and> sched_turns k sched_example = Ok s' \<and> current_thread s' = Some 0"
proof -
  have "runnable (obj sched_example 0)" by (simp add: sched_example_def runnable_def)
  moreover have "current_thread sched_example = Some ([2, 1, 0] ! 1)" by (simp add: sched_example_def)
  ultimately show ?thesis
    using scheduler_fair [OF sched_example_threads, of 1 2] by (auto simp: numeral_3_eq_3)
qed

text \<open>
  C33: One run of \<^verbatim>\<open>scheduler_maintain\<close>.  When the main thread is the current one the call is refused
  with \<^verbatim>\<open>STATUS_INVALID_THREAD\<close> and changes nothing.  Otherwise, if the stacks of the finished detached
  threads can be released one after the other, it takes exactly the finished threads out of the list,
  keeping the order of the others, destroys the detached ones among them, and makes exactly those
  waiting threads running whose awaited threads have all finished; no other thread changes its status.
  When the release of a stack panics, so does the run.  Some thread of the list has not finished, as
  is the case for the main thread, and the wait lists name threads that are live.
\<close>

theorem scheduler_maintain_correct:
  assumes "threads s xs" and "\<forall>a \<in> set xs. waits_valid s (obj s a)"
    and "\<exists>a \<in> set xs. th_status (obj s a) \<noteq> TS_FINISHED"
    and "case current_thread s of None \<Rightarrow> True | Some c \<Rightarrow> live s c"
  shows "if current_thread s \<noteq> None \<and> th_type (obj s (the (current_thread s))) = TT_MAIN
    then scheduler_maintain s = Ok (STATUS_INVALID_THREAD, s)
    else case ofold pc_thread_free_kthread_stack (map (obj s) (filter (to_destroy s) xs)) (k_mm s) of
      Ok m \<Rightarrow> \<exists>s'. scheduler_maintain s = Ok (STATUS_SUCCESS, s') \<and> k_mm s' = m \<and>
        threads s' (filter (\<lambda>a. th_status (obj s a) \<noteq> TS_FINISHED) xs) \<and>
        (\<forall>a \<in> set xs. if to_destroy s a then \<not> live s' a
           else th_status (obj s' a) = (if waits_over s (obj s a) then TS_RUNNING else th_status (obj s a)))
    | Panic e \<Rightarrow> scheduler_maintain s = Panic e
    | Fault \<Rightarrow> scheduler_maintain s = Fault
    | Hang \<Rightarrow> scheduler_maintain s = Hang"
proof (cases "current_thread s \<noteq> None \<and> th_type (obj s (the (current_thread s))) = TT_MAIN")
  case True
  then show ?thesis using assms(4) by (auto simp: scheduler_maintain_def deref_live)
next
  case False
  then have "case current_thread s of None \<Rightarrow> True | Some c \<Rightarrow> live s c \<and> th_type (obj s c) \<noteq> TT_MAIN"
    using assms(4) by (auto split: option.splits)
  from maintain_spec [OF assms(1-3) this] False show ?thesis
    by (auto simp: follows_def split: outcome.splits)
qed

theorem scheduler_maintain_witness:
  "(\<exists>s'. scheduler_maintain sched_example = Ok (STATUS_SUCCESS, s') \<and> threads s' [1, 0] \<and>
     th_status (obj s' 1) = TS_RUNNING) \<and>
   scheduler_maintain (sched_example\<lparr>current_thread := Some 0\<rparr>) =
     Ok (STATUS_INVALID_THREAD, sched_example\<lparr>current_thread := Some 0\<rparr>)"
proof -
  let ?s = sched_example and ?t = "sched_example\<lparr>current_thread := Some 0\<rparr>"
  have l: "live ?s 0" "live ?s 1" "live ?s 2" by (simp_all add: sched_example_def live_def)
  have v: "\<forall>a \<in> set [2, 1, 0]. waits_valid ?s (obj ?s a)" "\<forall>a \<in> set [2, 1, 0]. waits_valid ?t (obj ?t a)"
    using l by (auto simp: sched_example_def waits_valid_def waits_for_def new_thread_def live_def)
  have o: "waits_over ?s (obj ?s 1)"
    using l by (auto simp: sched_example_def waits_over_def waits_for_def finished_def)
  have fl: "filter (\<lambda>a. th_status (obj ?s a) \<noteq> TS_FINISHED) [2, 1, 0] = [1, 0]" "filter (to_destroy ?s) [2, 1, 0] = []"
    by (simp_all add: sched_example_def to_destroy_def new_thread_def)
  have u: "\<exists>a \<in> set [2, 1, 0]. th_status (obj ?s a) \<noteq> TS_FINISHED" "\<exists>a \<in> set [2, 1, 0]. th_status (obj ?t a) \<noteq> TS_FINISHED"
    by (simp_all add: sched_example_def)
  have ty: "current_thread ?s = Some 1" "th_type (obj ?s 1) = TT_KERNEL" "th_type (obj ?t 0) = TT_MAIN"
    by (simp_all add: sched_example_def new_thread_def)
  have "\<not> to_destroy ?s 1" by (simp add: sched_example_def to_destroy_def)
  then have "\<exists>s'. scheduler_maintain ?s = Ok (STATUS_SUCCESS, s') \<and> threads s' [1, 0] \<and> th_status (obj s' 1) = TS_RUNNING"
    using scheduler_maintain_correct [OF sched_example_threads v(1) u(1)] l o ty
    unfolding fl by auto
  moreover have "scheduler_maintain ?t = Ok (STATUS_INVALID_THREAD, ?t)"
    using scheduler_maintain_correct [of ?t "[2, 1, 0]"] sched_example_threads v(2) u(2) l ty by (simp add: live_def)
  ultimately show ?thesis by blast
qed

lemma unlink_loop_found:
  "threads s (us @ ks @ b # a # as) \<Longrightarrow> length ks < n \<Longrightarrow>
   p = Some (hd (ks @ [b])) \<Longrightarrow> \<exists>s'. unlink_loop n (Some a) p s = Ok s' \<and> relinked s s' \<and> threads s' (us @ ks @ b # as)"
proof (induction ks arbitrary: n p us)
  case Nil
  then obtain k where k: "n = Suc k" by (cases n) auto
  have lb: "live s b" "live s a" using threads_live [OF Nil.prems(1)] by simp_all
  then obtain t where t: "objs s ! b = Some t" "b < length (objs s)" by (auto simp: live_def)
  have nx: "th_next (obj s b) = Some a"
    using path_nth [OF Nil.prems(1), of "length us"] by (simp add: nth_append)
  let ?s = "s\<lparr>objs := (objs s)[b := Some (t\<lparr>th_next := th_next (obj s a)\<rparr>)]\<rparr>"
  have "unlink_loop n (Some a) p s = Ok ?s"
    using k Nil.prems(3) deref_live [OF lb(1)] deref_live [OF lb(2)] nx t by (simp add: assign_def)
  moreover have "threads s ((us @ [b]) @ a # as)" using Nil.prems(1) by simp
  from path_bypass [OF this _ _ t(1)] have "threads ?s (us @ b # as)" by simp
  moreover have "relinked s ?s" using t by (auto simp: relinked_def nth_list_update)
  ultimately show ?case by auto
next
  case (Cons c ks)
  then obtain k where k: "n = Suc k" by (cases n) auto
  have lc: "live s c" using threads_live [OF Cons.prems(1)] by simp
  have d: "distinct (us @ (c # ks) @ b # a # as)" by (rule path_distinct [OF Cons.prems(1)])
  have nx: "th_next (obj s c) = Some (hd (ks @ [b]))"
    using path_nth [OF Cons.prems(1), of "length us"] by (cases ks) (simp_all add: nth_append)
  have "Some a \<noteq> Some (hd (ks @ [b]))" using d by (cases ks) auto
  then have "unlink_loop n (Some a) p s = unlink_loop k (Some a) (Some (hd (ks @ [b]))) s"
    using k Cons.prems(3) deref_live [OF lc] nx by simp
  then show ?case
    using Cons.IH [of "us @ [c]" k "Some (hd (ks @ [b]))"] Cons.prems(1,2) k by simp
qed

text \<open>
  Removing a finished thread that is not the first of the list unlinks exactly that thread.
  When it is the first, the code changes \<^verbatim>\<open>current_thread\<close> instead of \<^verbatim>\<open>first_thread\<close>: the
  call succeeds, the list still holds the thread, and the current thread is now its successor.
\<close>

theorem scheduler_remove_thread_effect:
  assumes th: "threads s xs" and a: "a \<in> set xs" and f: "th_status (obj s a) = TS_FINISHED"
  shows "if first_thread s \<noteq> Some a
    then \<exists>s'. scheduler_remove_thread (Some a) s = Ok (STATUS_SUCCESS, s') \<and> threads s' (remove1 a xs) \<and>
           current_thread s' = current_thread s
    else scheduler_remove_thread (Some a) s = Ok (STATUS_SUCCESS, s\<lparr>current_thread := th_next (obj s a)\<rparr>) \<and>
           threads (s\<lparr>current_thread := th_next (obj s a)\<rparr>) xs"
proof -
  have la: "live s a" by (rule threads_live [OF th a])
  have len: "length xs \<le> length (objs s)" by (rule path_length [OF th])
  have d: "distinct xs" by (rule path_distinct [OF th])
  show ?thesis
  proof (cases "first_thread s = Some a")
    case True
    then obtain as where xs: "xs = a # as" using th by (cases xs) auto
    let ?s = "s\<lparr>current_thread := th_next (obj s a)\<rparr>"
    have "unlink_loop (Suc (length (objs s))) (Some a) (first_thread s) ?s = Ok ?s"
      by (rule unlink_loop_absent [of _ _ a as]) (use th xs d len in auto)
    then show ?thesis
      using True f th deref_live [OF la] by (simp add: scheduler_remove_thread_def del: unlink_loop.simps)
  next
    case False
    obtain us as where xs: "xs = us @ a # as" "a \<notin> set us" using split_list_first [OF a] by blast
    have "us \<noteq> []" using False th xs by auto
    then obtain ks b where us: "us = ks @ [b]" by (metis rev_exhaust)
    have "first_thread s = Some (hd (ks @ [b]))" using path_first [OF th] xs us by (cases ks) auto
    then obtain s' where s': "unlink_loop (Suc (length (objs s))) (Some a) (first_thread s) s = Ok s'" "relinked s s'"
        "threads s' (ks @ b # as)"
      using unlink_loop_found [of s "[]" ks b a as "Suc (length (objs s))"] th xs us len by auto
    have "current_thread s' = current_thread s"
    proof -
      have "s'\<lparr>objs := objs s, first_thread := first_thread s\<rparr> = s" using s'(2) by (simp add: relinked_def)
      then have "current_thread (s'\<lparr>objs := objs s, first_thread := first_thread s\<rparr>) = current_thread s" by simp
      then show ?thesis by simp
    qed
    moreover have "remove1 a xs = ks @ b # as" using xs us by (simp add: remove1_append)
    ultimately show ?thesis
      using s' False f deref_live [OF la] by (simp add: scheduler_remove_thread_def del: unlink_loop.simps)
  qed
qed

theorem scheduler_remove_thread_witness:
  "\<exists>s'. scheduler_remove_thread (Some 2) sched_example = Ok (STATUS_SUCCESS, s') \<and> threads s' [2, 1, 0] \<and>
     current_thread s' = Some 1"
  using scheduler_remove_thread_effect [OF sched_example_threads, of 2]
  by (auto simp: sched_example_def)

end
