(* ===== verification/KStack.thy ===== *)
theory KStack
  imports Thread
begin

text \<open>
  The kernel stack of a thread from its allocation to its release
  (\<^verbatim>\<open>kernel/arch/i686/pc/thread.c\<close>), over the contracts of the frame allocator, the page
  allocator and the page mapper.
\<close>

lemma pma_allocate_frames_free:
  assumes inv: "pma_inv p" and c: "0 < n" and al: "mm_pma_allocate_frame n p = Ok (st, pfn, p')"
  shows "pma_inv p' \<and> (\<forall>g. frame_free p' g \<longrightarrow> frame_free p g) \<and>
    (if st = STATUS_SUCCESS then \<exists>f. pfn = Some f \<and> unat f + unat n \<le> 2 ^ 20 \<and> 0x100 \<le> unat f
     else st = STATUS_INSUFFICIENT_MEMORY \<and> p' = p)"
proof (cases "\<exists>s. free_run p s (unat n)")
  case False
  then show ?thesis using allocate_frame_spec [OF inv c] al inv by simp
next
  case True
  then obtain s where s: "st = STATUS_SUCCESS" "pfn = Some (pma_base_pfn p + of_nat s)" "free_run p s (unat n)"
      "frames_to p (\<lambda>j. if s \<le> j \<and> j < s + unat n then PBM_ALLOCATED else frame_state p j) p'"
    using allocate_frame_spec [OF inv c] al by auto
  have un: "0 < unat n" using c by (simp add: word_less_nat_alt)
  have el: "elig p s" using s(3) un by (simp add: free_run_def)
  have b: "s + unat n \<le> frame_count p" by (rule free_run_bound [OF s(3) un])
  have p': "pma_inv p'" "frame_count p' = frame_count p" "pma_base_pfn p' = pma_base_pfn p"
    using s(4) by (auto simp: frames_to_def same_range_def)
  have "frame_free p g" if fg: "frame_free p' g" for g
  proof -
    obtain j where j: "j < frame_count p" "unat g = unat (pma_base_pfn p) + j" "frame_state p' j = PBM_FREE"
      using fg p' frame_in_index [OF p'(1), of PBM_FREE g] by auto
    then have "frame_state p j = PBM_FREE" using s(4) by (auto simp: frames_to_def split: if_splits)
    then show ?thesis using j frame_in_index [OF inv] by auto
  qed
  moreover have "unat (pma_base_pfn p + of_nat s) + unat n \<le> 2 ^ 20"
    using elig_frame(1) [OF inv el] b inv by (auto simp: pma_inv_def word_less_nat_alt word_le_nat_alt)
  moreover have "0x100 \<le> unat (pma_base_pfn p + of_nat s)"
    using elig_frame(1) [OF inv el] el by (simp add: elig_def)
  ultimately show ?thesis using p'(1) s(1,2) by simp
qed

text \<open>The page number that the release of a stack looks up.\<close>

lemma kstack_lookup_page:
  "pde_index (vpn * PAGE_SIZE) = pde_index ((vpn AND 0xFF) * PAGE_SIZE)"
  "pt_index (vpn * PAGE_SIZE) = pt_index ((vpn AND 0xFF) * PAGE_SIZE)"
proof -
  have c: "x * PAGE_SIZE = push_bit 12 x" for x :: u32 by (simp add: push_bit_eq_mult mult.commute)
  have m: "(0xFF :: u32) = mask 8" by (simp add: mask_eq_exp_minus_1)
  show "pde_index (vpn * PAGE_SIZE) = pde_index ((vpn AND 0xFF) * PAGE_SIZE)"
    unfolding c pde_index_def page_mask_consts m by (intro bit_word_eqI) (auto simp: bit_simps)
  show "pt_index (vpn * PAGE_SIZE) = pt_index ((vpn AND 0xFF) * PAGE_SIZE)"
    unfolding c pt_index_def page_mask_consts m by (intro bit_word_eqI) (auto simp: bit_simps)
qed

lemma kstack_allocate_spec:
  assumes inv: "mm_inv m" and v: "vma_inv (mm_vma m)" "unat (vma_kernel_limit_vpn (mm_vma m)) \<le> 0xFFC00"
    and n: "0 < kmode_stack_page_count th"
    and al: "pc_thread_allocate_kthread_stack th m = Ok (STATUS_SUCCESS, th', m')"
  defines "vpn \<equiv> vma_kernel_alloc_vpn (mm_vma m)"
  shows "mm_inv m' \<and> kmode_stack_base_vpn th' = vpn * PAGE_SIZE \<and>
    kmode_stack_ptr th' = (vpn + kmode_stack_page_count th) * PAGE_SIZE \<and>
    kmode_stack_page_count th' = kmode_stack_page_count th \<and>
    (\<exists>pfn. page_map m' = (\<lambda>u. if in_range vpn (unat (kmode_stack_page_count th)) u then Some (pfn + (u - vpn)) else page_map m u))"
proof -
  let ?n = "kmode_stack_page_count th"
  have pinv: "pma_inv (mm_pma m)" using inv by (simp add: mm_inv_def)
  obtain st pfn p where a1: "mm_pma_allocate_frame ?n (mm_pma m) = Ok (st, pfn, p)"
    using al by (auto simp: pc_thread_allocate_kthread_stack_def Let_def outcome_simps)
  note a2 = pma_allocate_frames_free [OF pinv n a1]
  have s1: "st = STATUS_SUCCESS"
    using a2 al a1 by (auto simp: pc_thread_allocate_kthread_stack_def CHECK_SUCCESS_def split: if_splits)
  then obtain f where f: "pfn = Some f" "unat f + unat ?n \<le> 2 ^ 20" "0x100 \<le> unat f" using a2 by auto
  have room: "vma_kernel_alloc_vpn (mm_vma m) + ?n < vma_kernel_limit_vpn (mm_vma m)"
  proof (rule ccontr)
    assume "\<not> ?thesis"
    then have "mm_vma_allocate_page ?n VAF_KERNEL (mm_vma m) = (STATUS_INSUFFICIENT_MEMORY, None, mm_vma m)"
      by (simp add: mm_vma_allocate_page_def not_less)
    then show False
      using al a1 s1 f
      by (auto simp: pc_thread_allocate_kthread_stack_def CHECK_SUCCESS_def outcome_simps Let_def split: if_splits)
  qed
  let ?v = "mm_vma m\<lparr>vma_kernel_alloc_vpn := vma_kernel_alloc_vpn (mm_vma m) + ?n\<rparr>"
  let ?m = "m\<lparr>mm_pma := p, mm_vma := ?v\<rparr>"
  have va: "mm_vma_allocate_page ?n VAF_KERNEL (mm_vma m) = (STATUS_SUCCESS, Some vpn, ?v)"
    using room by (simp add: mm_vma_allocate_page_def vpn_def not_le)
  have "unat ?n < 2 ^ 20" using f(2,3) by simp
  then have ub: "unat vpn + unat ?n \<le> 0xFFC00"
    using room v vma_no_overflow [OF v(1), of ?n] by (simp add: vpn_def word_less_nat_alt)
  have i1: "mm_inv ?m" using mm_inv_pma [OF inv, of p] a2 by (simp add: mm_inv_def)
  obtain st2 m2 k where mp: "mm_map f vpn ?n PMF_DEFAULT ?m = Ok (st2, m2)" "mm_kept ?m m2"
     "page_map m2 = mapped_to f vpn k (page_map ?m)"
     "if st2 = STATUS_SUCCESS then k = unat ?n
      else k < unat ?n \<and> (st2 = STATUS_CONFLICTING_STATE \<and> page_map ?m (vpn + of_nat k) \<noteq> None \<or>
            st2 = STATUS_INSUFFICIENT_MEMORY)"
    using mm_map_spec [OF i1 ub f(2), of PMF_DEFAULT] by blast
  have f0: "f \<noteq> 0" using f(3) by auto
  have s2: "st2 = STATUS_SUCCESS"
  proof (rule ccontr)
    assume ns: "st2 \<noteq> STATUS_SUCCESS"
    then have nc: "\<not> CHECK_SUCCESS st2" using mp(4) by (auto simp: CHECK_SUCCESS_def)
    show False
      using al a1 s1 f(1) va mp(1) nc f0 ns
      by (auto simp: pc_thread_allocate_kthread_stack_def outcome_simps Let_def)
  qed
  have r: "th' = th\<lparr>kmode_stack_base_vpn := vpn * PAGE_SIZE, kmode_stack_ptr := (vpn + ?n) * PAGE_SIZE\<rparr>" "m' = m2"
    using al a1 s1 f(1) va mp(1) s2 by (auto simp: pc_thread_allocate_kthread_stack_def Let_def)
  have "page_map ?m = page_map m" by (auto simp: page_map_def mmu_walk_def Let_def)
  then have "page_map m' = (\<lambda>u. if in_range vpn (unat ?n) u then Some (f + (u - vpn)) else page_map m u)"
    using mp(3,4) s2 r(2) by (auto simp: mapped_to_def fun_eq_iff)
  moreover have "mm_inv m'" using mp(2) r(2) by (simp add: mm_kept_def)
  ultimately show ?thesis using r(1) by auto
qed

text \<open>
  A successful allocation maps a fresh range of kernel pages for the stack and leaves the stack
  pointer at its end.  The field \<^verbatim>\<open>kmode_stack_base_vpn\<close> however gets the byte address of the
  range, not its page number; the release looks that up as a page number, and panics with
  \<^verbatim>\<open>STATUS_PAGE_NOT_PRESENT\<close> unless an unrelated low page happens to be mapped.
\<close>

theorem kthread_stack_release_wrong_page:
  assumes "mm_inv m" and "vma_inv (mm_vma m)" and "unat (vma_kernel_limit_vpn (mm_vma m)) \<le> 0xFFC00"
    and "0 < kmode_stack_page_count th"
    and "pc_thread_allocate_kthread_stack th m = Ok (STATUS_SUCCESS, th', m')"
  shows "(\<forall>u. in_range (vma_kernel_alloc_vpn (mm_vma m)) (unat (kmode_stack_page_count th)) u \<longrightarrow> page_map m' u \<noteq> None) \<and>
    kmode_stack_ptr th' = (vma_kernel_alloc_vpn (mm_vma m) + kmode_stack_page_count th) * PAGE_SIZE \<and>
    (mmu_walk m' ((vma_kernel_alloc_vpn (mm_vma m) AND 0xFF) * PAGE_SIZE) = None \<longrightarrow>
       pc_thread_free_kthread_stack th' m' = Panic STATUS_PAGE_NOT_PRESENT)"
proof -
  let ?v = "vma_kernel_alloc_vpn (mm_vma m)"
  obtain pfn where r: "mm_inv m'" "kmode_stack_base_vpn th' = ?v * PAGE_SIZE"
    "kmode_stack_ptr th' = (?v + kmode_stack_page_count th) * PAGE_SIZE"
    "page_map m' = (\<lambda>u. if in_range ?v (unat (kmode_stack_page_count th)) u then Some (pfn + (u - ?v)) else page_map m u)"
    using kstack_allocate_spec [OF assms] by blast
  have "mmu_walk m' (?v * PAGE_SIZE) = mmu_walk m' ((?v AND 0xFF) * PAGE_SIZE)"
    using kstack_lookup_page [of ?v] by (simp add: mmu_walk_def Let_def)
  then have "mmu_walk m' ((?v AND 0xFF) * PAGE_SIZE) = None \<Longrightarrow>
      pc_thread_free_kthread_stack th' m' = Panic STATUS_PAGE_NOT_PRESENT"
    using vpn_to_pfn_walk [OF r(1), of "?v * PAGE_SIZE"] r(2)
    by (simp add: pc_thread_free_kthread_stack_def CHECK_SUCCESS_def)
  then show ?thesis using r(3,4) by simp
qed

theorem kthread_stack_release_wrong_page_witness:
  "\<exists>th' m'. pc_thread_allocate_kthread_stack (new_thread\<lparr>kmode_stack_page_count := 2\<rparr>)
      (mm_example\<lparr>mm_vma := vma_example\<lparr>vma_kernel_alloc_vpn := 0x480, vma_kernel_base_vpn := 0x400\<rparr>\<rparr>) = Ok (STATUS_SUCCESS, th', m') \<and>
    pc_thread_free_kthread_stack th' m' = Panic STATUS_PAGE_NOT_PRESENT"
proof -
  let ?th = "new_thread\<lparr>kmode_stack_page_count := 2\<rparr>"
  let ?m = "mm_example\<lparr>mm_vma := vma_example\<lparr>vma_kernel_alloc_vpn := 0x480, vma_kernel_base_vpn := 0x400\<rparr>\<rparr>"
  have i: "mm_inv ?m" using mm_example_inv by (simp add: mm_inv_def)
  have v: "vma_inv (mm_vma ?m)" using vma_example_inv by (simp add: vma_inv_def vma_example_def mm_vma_init_def)
  have l: "unat (vma_kernel_limit_vpn (mm_vma ?m)) \<le> 0xFFC00" by (simp add: vma_example_def mm_vma_init_def)
  have "case pc_thread_allocate_kthread_stack ?th ?m of Ok (st, th', m') \<Rightarrow>
      st = STATUS_SUCCESS \<and> mmu_walk m' 0x80000 = None | _ \<Rightarrow> False"
    by code_simp
  from outcome_case_Ok [OF this] obtain th' m' where
    a: "pc_thread_allocate_kthread_stack ?th ?m = Ok (STATUS_SUCCESS, th', m')" "mmu_walk m' 0x80000 = None" by auto
  have "vma_kernel_alloc_vpn (mm_vma ?m) = 0x480" by simp
  then show ?thesis using kthread_stack_release_wrong_page [OF i v l _ a(1)] a by auto
qed

end
