(* ===== verification/Lock.thy ===== *)
theory Lock
  imports Thread
begin

text \<open>
  The locks of the kernel: \<^verbatim>\<open>kernel/mutex/mutex.c\<close> and \<^verbatim>\<open>kernel/mutex/spinlock.c\<close>.  The
  bodies run with preemption (or interrupts) disabled on one processor, so each pass from
  disabling to enabling or yielding is one atomic step; \<^verbatim>\<open>mutex_lock\<close> is a sequence of such
  passes with a yield after each pass that finds the mutex locked.  The locale \<open>lock\<close> states what
  a lock promises; mutual exclusion is proved from it once and holds for both kinds of lock.
\<close>

section \<open>Mutexes\<close>

record mutex =
  m_locked :: bool
  m_owner :: tptr
  blocking_threads :: tptr

definition mutex_init :: "mutex \<Rightarrow> status \<times> mutex" where
  "mutex_init mtx = (STATUS_SUCCESS, mtx\<lparr>m_locked := False, m_owner := None\<rparr>)"

text \<open>The search for the end of the queue; \<open>None\<close> when the thread is found in it.\<close>

fun last_blocking :: "nat \<Rightarrow> tptr \<Rightarrow> tptr \<Rightarrow> sched \<Rightarrow> tptr outcome" where
  "last_blocking 0 th cur s = Hang"
| "last_blocking (Suc n) th cur s =
     (if cur = th then Ok None
      else obind (deref cur s) (\<lambda>c.
        if mutex_blocking_next c = None then Ok cur else last_blocking n th (mutex_blocking_next c) s))"

definition add_blocking_thread :: "mutex \<Rightarrow> tptr \<Rightarrow> sched \<Rightarrow> (mutex \<times> sched) outcome" where
  "add_blocking_thread mtx th s =
     (if blocking_threads mtx = th then Ok (mtx, s)
      else if blocking_threads mtx = None then
        obind (assign th (\<lambda>t. t\<lparr>mutex_blocking_next := None\<rparr>) s) (\<lambda>s1. Ok (mtx\<lparr>blocking_threads := th\<rparr>, s1))
      else obind (last_blocking (Suc (length (objs s))) th (blocking_threads mtx) s) (\<lambda>l.
        if l = None then Ok (mtx, s)
        else obind (assign l (\<lambda>t. t\<lparr>mutex_blocking_next := th\<rparr>) s) (\<lambda>s1.
             obind (assign th (\<lambda>t. t\<lparr>mutex_blocking_next := None\<rparr>) s1) (\<lambda>s2. Ok (mtx, s2)))))"

definition unblock_blocking_thread :: "mutex \<Rightarrow> sched \<Rightarrow> (mutex \<times> sched) outcome" where
  "unblock_blocking_thread mtx s =
     (if blocking_threads mtx = None then Ok (mtx, s)
      else obind (deref (blocking_threads mtx) s) (\<lambda>t.
        obind (assign (blocking_threads mtx) (\<lambda>t. t\<lparr>mutex_blocking_next := None\<rparr>) s) (\<lambda>s1.
        obind (if th_status t = TS_BLOCKING
               then assign (blocking_threads mtx) (\<lambda>t. t\<lparr>th_status := TS_RUNNING\<rparr>) s1 else Ok s1) (\<lambda>s2.
          Ok (mtx\<lparr>blocking_threads := mutex_blocking_next t\<rparr>, s2)))))"

datatype lock_pass = Acquired | Blocked

text \<open>
  One pass of the loop of \<^verbatim>\<open>mutex_lock\<close>, up to its return or its yield, as one step.  On the blocking branch the code
  enables preemption before it marks the thread and queues it, so there another thread may run in between; that
  branch touches neither the lock bit nor the owner, and the other branch runs with preemption disabled.
\<close>

definition mutex_lock_pass :: "mutex \<Rightarrow> sched \<Rightarrow> (lock_pass \<times> mutex \<times> sched) outcome" where
  "mutex_lock_pass mtx s =
     (let th = snd (scheduler_get_current_thread s); s1 = thread_disable_preemption s in
      if m_locked mtx then
        obind (assign th (\<lambda>t. t\<lparr>th_status := TS_BLOCKING\<rparr>) (thread_enable_preemption s1)) (\<lambda>s2.
        obind (add_blocking_thread mtx th s2) (\<lambda>(mtx1, s3). Ok (Blocked, mtx1, s3)))
      else Ok (Acquired, mtx\<lparr>m_locked := True, m_owner := th\<rparr>, thread_enable_preemption s1))"

definition mutex_try_lock :: "mutex \<Rightarrow> sched \<Rightarrow> status \<times> mutex \<times> sched" where
  "mutex_try_lock mtx s =
     (let (st, th) = scheduler_get_current_thread s; s1 = thread_disable_preemption s in
      if \<not> CHECK_SUCCESS st then (st, mtx, s)
      else if m_locked mtx then (STATUS_MUTEX_LOCKED, mtx, thread_enable_preemption s1)
      else (STATUS_SUCCESS, mtx\<lparr>m_locked := True, m_owner := th\<rparr>, thread_enable_preemption s1))"

definition mutex_unlock :: "mutex \<Rightarrow> sched \<Rightarrow> (status \<times> mutex \<times> sched) outcome" where
  "mutex_unlock mtx s =
     (let (st, th) = scheduler_get_current_thread s; s1 = thread_disable_preemption s in
      if \<not> CHECK_SUCCESS st then Ok (st, mtx, s)
      else if m_owner mtx \<noteq> th then Ok (STATUS_INVALID_THREAD, mtx, thread_enable_preemption s1)
      else obind (unblock_blocking_thread (mtx\<lparr>m_locked := False, m_owner := None\<rparr>) s1) (\<lambda>(mtx1, s2).
        Ok (STATUS_SUCCESS, mtx1, thread_enable_preemption s2)))"

section \<open>Spinlocks\<close>

record spinlock =
  s_locked :: bool
  s_owner :: tptr

definition spinlock_init :: "spinlock \<Rightarrow> status \<times> spinlock" where
  "spinlock_init lock = (STATUS_SUCCESS, lock\<lparr>s_locked := False, s_owner := None\<rparr>)"

text \<open>The busy wait of \<^verbatim>\<open>spinlock_lock\<close> runs with preemption disabled: nothing can end it.\<close>

definition spinlock_lock :: "spinlock \<Rightarrow> sched \<Rightarrow> (status \<times> spinlock \<times> sched) outcome" where
  "spinlock_lock lock s =
     (let (st, th) = scheduler_get_current_thread s; s1 = thread_disable_preemption s in
      if \<not> CHECK_SUCCESS st then Ok (st, lock, s)
      else if s_locked lock then Hang
      else Ok (STATUS_SUCCESS, lock\<lparr>s_locked := True, s_owner := th\<rparr>, thread_enable_preemption s1))"

definition spinlock_try_lock :: "spinlock \<Rightarrow> sched \<Rightarrow> status \<times> spinlock \<times> sched" where
  "spinlock_try_lock lock s =
     (let (st, th) = scheduler_get_current_thread s; s1 = thread_disable_preemption s in
      if \<not> CHECK_SUCCESS st then (st, lock, s)
      else if s_locked lock then (STATUS_MUTEX_LOCKED, lock, thread_enable_preemption s1)
      else (STATUS_SUCCESS, lock\<lparr>s_locked := True, s_owner := th\<rparr>, thread_enable_preemption s1))"

definition spinlock_unlock :: "spinlock \<Rightarrow> sched \<Rightarrow> status \<times> spinlock \<times> sched" where
  "spinlock_unlock lock s =
     (let (st, th) = scheduler_get_current_thread s; s1 = thread_disable_preemption s in
      if \<not> CHECK_SUCCESS st then (st, lock, s)
      else if s_owner lock \<noteq> th then (STATUS_INVALID_THREAD, lock, thread_enable_preemption s1)
      else (STATUS_SUCCESS, lock\<lparr>s_locked := False, s_owner := None\<rparr>, thread_enable_preemption s1))"

text \<open>
  The variants that disable interrupts: \<open>iflag\<close> is the interrupt flag of the processor, the state
  that \<^verbatim>\<open>interrupt_save\<close> returns is the flag as a word.
\<close>

definition interrupt_save :: "bool \<Rightarrow> u32" where
  "interrupt_save iflag = (if iflag then 1 else 0)"

definition interrupt_restore :: "u32 \<Rightarrow> bool" where
  "interrupt_restore state = (state \<noteq> 0)"

definition spinlock_try_lock_irqsave ::
  "spinlock \<Rightarrow> sched \<Rightarrow> bool \<Rightarrow> status \<times> u32 \<times> spinlock \<times> bool" where
  "spinlock_try_lock_irqsave lock s iflag =
     (let irqstate = interrupt_save iflag; (st, th) = scheduler_get_current_thread s in
      if \<not> CHECK_SUCCESS st then (st, irqstate, lock, interrupt_restore irqstate)
      else if s_locked lock then (STATUS_MUTEX_LOCKED, irqstate, lock, interrupt_restore irqstate)
      else (STATUS_SUCCESS, irqstate, lock\<lparr>s_locked := True, s_owner := th\<rparr>, False))"

definition spinlock_unlock_irqrestore ::
  "spinlock \<Rightarrow> u32 \<Rightarrow> sched \<Rightarrow> bool \<Rightarrow> status \<times> spinlock \<times> bool" where
  "spinlock_unlock_irqrestore lock irqstate s iflag =
     (let (st, th) = scheduler_get_current_thread s in
      if \<not> CHECK_SUCCESS st then (st, lock, iflag)
      else if s_owner lock \<noteq> th then (STATUS_INVALID_THREAD, lock, interrupt_restore irqstate)
      else (STATUS_SUCCESS, lock\<lparr>s_locked := False, s_owner := None\<rparr>, interrupt_restore irqstate))"

section \<open>Executions\<close>

text \<open>
  A mutex and the threads that hold it: those whose last \<^verbatim>\<open>mutex_lock\<close> or successful
  \<^verbatim>\<open>mutex_try_lock\<close> was not followed by a successful \<^verbatim>\<open>mutex_unlock\<close>.  Between two passes the
  rest of the system may change the state of the scheduler in any way.
\<close>

inductive mutex_run :: "mutex \<Rightarrow> nat set \<Rightarrow> bool" where
  init: "mutex_init m0 = (st, m) \<Longrightarrow> mutex_run m {}"
| acquire: "mutex_run m H \<Longrightarrow> current_thread s = Some a \<Longrightarrow>
    mutex_lock_pass m s = Ok (Acquired, m', s') \<Longrightarrow> mutex_run m' (insert a H)"
| block: "mutex_run m H \<Longrightarrow> current_thread s = Some a \<Longrightarrow>
    mutex_lock_pass m s = Ok (Blocked, m', s') \<Longrightarrow> mutex_run m' H"
| try_lock: "mutex_run m H \<Longrightarrow> current_thread s = Some a \<Longrightarrow> mutex_try_lock m s = (st, m', s') \<Longrightarrow>
    mutex_run m' (if st = STATUS_SUCCESS then insert a H else H)"
| unlock: "mutex_run m H \<Longrightarrow> current_thread s = Some a \<Longrightarrow> mutex_unlock m s = Ok (st, m', s') \<Longrightarrow>
    mutex_run m' (if st = STATUS_SUCCESS then H - {a} else H)"

inductive spinlock_run :: "spinlock \<Rightarrow> nat set \<Rightarrow> bool" where
  init: "spinlock_init l0 = (st, l) \<Longrightarrow> spinlock_run l {}"
| acquire: "spinlock_run l H \<Longrightarrow> current_thread s = Some a \<Longrightarrow>
    spinlock_lock l s = Ok (STATUS_SUCCESS, l', s') \<Longrightarrow> spinlock_run l' (insert a H)"
| try_lock: "spinlock_run l H \<Longrightarrow> current_thread s = Some a \<Longrightarrow> spinlock_try_lock l s = (st, l', s') \<Longrightarrow>
    spinlock_run l' (if st = STATUS_SUCCESS then insert a H else H)"
| try_lock_irq: "spinlock_run l H \<Longrightarrow> current_thread s = Some a \<Longrightarrow>
    spinlock_try_lock_irqsave l s f = (st, irq, l', f') \<Longrightarrow>
    spinlock_run l' (if st = STATUS_SUCCESS then insert a H else H)"
| unlock: "spinlock_run l H \<Longrightarrow> current_thread s = Some a \<Longrightarrow> spinlock_unlock l s = (st, l', s') \<Longrightarrow>
    spinlock_run l' (if st = STATUS_SUCCESS then H - {a} else H)"
| unlock_irq: "spinlock_run l H \<Longrightarrow> current_thread s = Some a \<Longrightarrow>
    spinlock_unlock_irqrestore l irq s f = (st, l', f') \<Longrightarrow>
    spinlock_run l' (if st = STATUS_SUCCESS then H - {a} else H)"

text \<open>The same steps, as the interface of a lock sees them.\<close>

definition mutex_acquires :: "mutex \<Rightarrow> nat \<Rightarrow> mutex \<Rightarrow> bool" where
  "mutex_acquires m a m' \<longleftrightarrow> (\<exists>s s'. current_thread s = Some a \<and>
     (mutex_lock_pass m s = Ok (Acquired, m', s') \<or> mutex_try_lock m s = (STATUS_SUCCESS, m', s')))"

definition mutex_idles :: "mutex \<Rightarrow> mutex \<Rightarrow> bool" where
  "mutex_idles m m' \<longleftrightarrow> (\<exists>s s'. mutex_lock_pass m s = Ok (Blocked, m', s') \<or>
     (\<exists>st. st \<noteq> STATUS_SUCCESS \<and> (mutex_try_lock m s = (st, m', s') \<or> mutex_unlock m s = Ok (st, m', s'))))"

definition mutex_releases :: "mutex \<Rightarrow> nat \<Rightarrow> mutex \<Rightarrow> bool" where
  "mutex_releases m a m' \<longleftrightarrow> (\<exists>s s'. current_thread s = Some a \<and> mutex_unlock m s = Ok (STATUS_SUCCESS, m', s'))"

definition spinlock_acquires :: "spinlock \<Rightarrow> nat \<Rightarrow> spinlock \<Rightarrow> bool" where
  "spinlock_acquires l a l' \<longleftrightarrow> (\<exists>s. current_thread s = Some a \<and>
     ((\<exists>s'. spinlock_lock l s = Ok (STATUS_SUCCESS, l', s') \<or> spinlock_try_lock l s = (STATUS_SUCCESS, l', s')) \<or>
      (\<exists>f irq f'. spinlock_try_lock_irqsave l s f = (STATUS_SUCCESS, irq, l', f'))))"

definition spinlock_idles :: "spinlock \<Rightarrow> spinlock \<Rightarrow> bool" where
  "spinlock_idles l l' \<longleftrightarrow> (\<exists>s st. st \<noteq> STATUS_SUCCESS \<and>
     ((\<exists>s'. spinlock_try_lock l s = (st, l', s') \<or> spinlock_unlock l s = (st, l', s')) \<or>
      (\<exists>f irq f'. spinlock_try_lock_irqsave l s f = (st, irq, l', f') \<or>
        spinlock_unlock_irqrestore l irq s f = (st, l', f'))))"

definition spinlock_releases :: "spinlock \<Rightarrow> nat \<Rightarrow> spinlock \<Rightarrow> bool" where
  "spinlock_releases l a l' \<longleftrightarrow> (\<exists>s. current_thread s = Some a \<and>
     ((\<exists>s'. spinlock_unlock l s = (STATUS_SUCCESS, l', s')) \<or>
      (\<exists>f irq f'. spinlock_unlock_irqrestore l irq s f = (STATUS_SUCCESS, l', f'))))"

section \<open>The queue of a mutex\<close>

abbreviation queue :: "mutex \<Rightarrow> sched \<Rightarrow> nat list \<Rightarrow> bool" where
  "queue mtx s xs \<equiv> path mutex_blocking_next (objs s) (blocking_threads mtx) xs None"

definition mutex_example :: mutex where
  "mutex_example = \<lparr>m_locked = True, m_owner = Some 0, blocking_threads = Some 2\<rparr>"

section \<open>Mutual exclusion from the interface of a lock\<close>

locale lock =
  fixes locked :: "'l \<Rightarrow> bool" and owner :: "'l \<Rightarrow> tptr"
    and fresh :: "'l \<Rightarrow> bool" and acquires :: "'l \<Rightarrow> nat \<Rightarrow> 'l \<Rightarrow> bool"
    and idles :: "'l \<Rightarrow> 'l \<Rightarrow> bool" and releases :: "'l \<Rightarrow> nat \<Rightarrow> 'l \<Rightarrow> bool"
  assumes fresh_law: "fresh l \<Longrightarrow> \<not> locked l \<and> owner l = None"
    and acquire_law: "acquires l a l' \<Longrightarrow> \<not> locked l \<and> locked l' \<and> owner l' = Some a"
    and idle_law: "idles l l' \<Longrightarrow> locked l' = locked l \<and> owner l' = owner l"
    and release_law: "releases l a l' \<Longrightarrow> owner l = Some a \<and> \<not> locked l' \<and> owner l' = None"
begin

inductive run :: "'l \<Rightarrow> nat set \<Rightarrow> bool" where
  start: "fresh l \<Longrightarrow> run l {}"
| take: "run l H \<Longrightarrow> acquires l a l' \<Longrightarrow> run l' (insert a H)"
| idle: "run l H \<Longrightarrow> idles l l' \<Longrightarrow> run l' H"
| give: "run l H \<Longrightarrow> releases l a l' \<Longrightarrow> run l' (H - {a})"

lemma holders: "run l H \<Longrightarrow> H = set_option (owner l) \<and> (locked l \<longleftrightarrow> owner l \<noteq> None)"
proof (induction rule: run.induct)
  case (start l)
  then show ?case using fresh_law by simp
next
  case (take l H a l')
  then show ?case using acquire_law [of l a l'] by auto
next
  case (idle l H l')
  then show ?case using idle_law by simp
next
  case (give l H a l')
  then show ?case using release_law [of l a l'] by auto
qed

lemma exclusion: "run l H \<Longrightarrow> a \<in> H \<Longrightarrow> b \<in> H \<Longrightarrow> a = b \<and> locked l \<and> owner l = Some a"
  using holders [of l H] by (auto simp: elem_set)

end

lemmas lock_op_defs = mutex_lock_pass_def mutex_try_lock_def mutex_unlock_def
  spinlock_lock_def spinlock_try_lock_def spinlock_unlock_def spinlock_try_lock_irqsave_def
  spinlock_unlock_irqrestore_def scheduler_get_current_thread_def

lemma add_blocking_thread_lock:
  "add_blocking_thread mtx th s = Ok (mtx', s') \<Longrightarrow> m_locked mtx' = m_locked mtx \<and> m_owner mtx' = m_owner mtx"
  by (auto simp: add_blocking_thread_def outcome_simps split: if_splits)

lemma unblock_blocking_thread_lock:
  "unblock_blocking_thread mtx s = Ok (mtx', s') \<Longrightarrow> m_locked mtx' = m_locked mtx \<and> m_owner mtx' = m_owner mtx"
  by (auto simp: unblock_blocking_thread_def outcome_simps split: if_splits)

interpretation mutex: lock m_locked m_owner "\<lambda>m. \<exists>m0. mutex_init m0 = (STATUS_SUCCESS, m)"
    mutex_acquires mutex_idles mutex_releases
proof (unfold_locales, goal_cases)
  case (1 l)
  then show ?case by (auto simp: mutex_init_def)
next
  case (2 l a l')
  then show ?case
    by (auto simp: mutex_acquires_def lock_op_defs Let_def outcome_simps split: if_splits)
next
  case (3 l l')
  then show ?case
    by (auto simp: mutex_idles_def lock_op_defs Let_def outcome_simps split: if_splits dest: add_blocking_thread_lock)
next
  case (4 l a l')
  then show ?case
    by (auto simp: mutex_releases_def lock_op_defs Let_def outcome_simps split: if_splits dest: unblock_blocking_thread_lock)
qed

interpretation spin: lock s_locked s_owner "\<lambda>l. \<exists>l0. spinlock_init l0 = (STATUS_SUCCESS, l)"
    spinlock_acquires spinlock_idles spinlock_releases
proof (unfold_locales, goal_cases)
  case (1 l)
  then show ?case by (auto simp: spinlock_init_def)
next
  case (2 l a l')
  then show ?case by (auto simp: spinlock_acquires_def lock_op_defs Let_def split: if_splits)
next
  case (3 l l')
  then show ?case by (auto simp: spinlock_idles_def lock_op_defs Let_def split: if_splits)
next
  case (4 l a l')
  then show ?case by (auto simp: spinlock_releases_def lock_op_defs Let_def split: if_splits)
qed

lemma mutex_run_lock: "mutex_run m H \<Longrightarrow> mutex.run m H"
proof (induction rule: mutex_run.induct)
  case (init m0 st m)
  then show ?case by (intro mutex.start) (auto simp: mutex_init_def)
next
  case (acquire m H s a m' s')
  then show ?case by (intro mutex.take [OF acquire.IH]) (unfold mutex_acquires_def, blast)
next
  case (block m H s a m' s')
  then show ?case by (intro mutex.idle [OF block.IH]) (unfold mutex_idles_def, blast)
next
  case (try_lock m H s a st m' s')
  show ?case
  proof (cases "st = STATUS_SUCCESS")
    case True
    then have "mutex_acquires m a m'" using try_lock.hyps unfolding mutex_acquires_def by blast
    then show ?thesis using True mutex.take [OF try_lock.IH] by simp
  next
    case False
    then have "mutex_idles m m'" using try_lock.hyps unfolding mutex_idles_def by blast
    then show ?thesis using False mutex.idle [OF try_lock.IH] by simp
  qed
next
  case (unlock m H s a st m' s')
  show ?case
  proof (cases "st = STATUS_SUCCESS")
    case True
    then have "mutex_releases m a m'" using unlock.hyps unfolding mutex_releases_def by blast
    then show ?thesis using True mutex.give [OF unlock.IH] by simp
  next
    case False
    then have "mutex_idles m m'" using unlock.hyps unfolding mutex_idles_def by blast
    then show ?thesis using False mutex.idle [OF unlock.IH] by simp
  qed
qed

lemma spinlock_run_lock: "spinlock_run l H \<Longrightarrow> spin.run l H"
proof (induction rule: spinlock_run.induct)
  case (init l0 st l)
  then show ?case by (intro spin.start) (auto simp: spinlock_init_def)
next
  case (acquire l H s a l' s')
  then show ?case by (intro spin.take [OF acquire.IH]) (unfold spinlock_acquires_def, blast)
next
  case (try_lock l H s a st l' s')
  show ?case
  proof (cases "st = STATUS_SUCCESS")
    case True
    then have "spinlock_acquires l a l'" using try_lock.hyps unfolding spinlock_acquires_def by blast
    then show ?thesis using True spin.take [OF try_lock.IH] by simp
  next
    case False
    then have "spinlock_idles l l'" using try_lock.hyps unfolding spinlock_idles_def by blast
    then show ?thesis using False spin.idle [OF try_lock.IH] by simp
  qed
next
  case (try_lock_irq l H s a f st irq l' f')
  show ?case
  proof (cases "st = STATUS_SUCCESS")
    case True
    then have "spinlock_acquires l a l'" using try_lock_irq.hyps unfolding spinlock_acquires_def by blast
    then show ?thesis using True spin.take [OF try_lock_irq.IH] by simp
  next
    case False
    then have "spinlock_idles l l'" using try_lock_irq.hyps unfolding spinlock_idles_def by blast
    then show ?thesis using False spin.idle [OF try_lock_irq.IH] by simp
  qed
next
  case (unlock l H s a st l' s')
  show ?case
  proof (cases "st = STATUS_SUCCESS")
    case True
    then have "spinlock_releases l a l'" using unlock.hyps unfolding spinlock_releases_def by blast
    then show ?thesis using True spin.give [OF unlock.IH] by simp
  next
    case False
    then have "spinlock_idles l l'" using unlock.hyps unfolding spinlock_idles_def by blast
    then show ?thesis using False spin.idle [OF unlock.IH] by simp
  qed
next
  case (unlock_irq l H s a irq f st l' f')
  show ?case
  proof (cases "st = STATUS_SUCCESS")
    case True
    then have "spinlock_releases l a l'" using unlock_irq.hyps unfolding spinlock_releases_def by blast
    then show ?thesis using True spin.give [OF unlock_irq.IH] by simp
  next
    case False
    then have "spinlock_idles l l'" using unlock_irq.hyps unfolding spinlock_idles_def by blast
    then show ?thesis using False spin.idle [OF unlock_irq.IH] by simp
  qed
qed

section \<open>The queue is first in, first out\<close>

lemma last_blocking_spec:
  "path mutex_blocking_next (objs s) p xs None \<Longrightarrow> xs \<noteq> [] \<Longrightarrow> length xs \<le> n \<Longrightarrow>
   last_blocking n (Some a) p s = Ok (if a \<in> set xs then None else Some (last xs))"
proof (induction xs arbitrary: n p)
  case (Cons b xs)
  then obtain k where k: "n = Suc k" by (cases n) auto
  obtain t where t: "p = Some b" "b < length (objs s)" "objs s ! b = Some t"
    "path mutex_blocking_next (objs s) (mutex_blocking_next t) xs None"
    using Cons.prems(1) by (auto split: option.splits)
  show ?case
  proof (cases "a = b")
    case True
    then show ?thesis using k t(1) by simp
  next
    case False
    show ?thesis
    proof (cases xs)
      case Nil
      then show ?thesis using False k t by (simp add: deref_def)
    next
      case (Cons c ys)
      then have "mutex_blocking_next t \<noteq> None" using t(4) by simp
      then show ?thesis using False k t Cons Cons.IH [OF t(4), of k] Cons.prems(3) by (simp add: deref_def)
    qed
  qed
qed simp

lemma path_extend:
  assumes p: "path mutex_blocking_next h p xs None" and xs: "xs \<noteq> []" and a: "a \<notin> set xs" "a < length h" "h ! a = Some ta"
    and b: "h ! last xs = Some tb"
  shows "path mutex_blocking_next (h[last xs := Some (tb\<lparr>mutex_blocking_next := Some a\<rparr>), a := Some (ta\<lparr>mutex_blocking_next := None\<rparr>)])
     p (xs @ [a]) None"
proof -
  obtain us c where us: "xs = us @ [c]" using xs by (metis rev_exhaust)
  have d: "c \<notin> set us" using path_distinct [OF p] us by simp
  have pp: "path mutex_blocking_next h p us (Some c)" "c < length h" using p us by (auto simp: path_append)
  have "path mutex_blocking_next (h[c := Some (tb\<lparr>mutex_blocking_next := Some a\<rparr>), a := Some (ta\<lparr>mutex_blocking_next := None\<rparr>)]) p us (Some c)"
    using path_update_other [OF path_update_other [OF pp(1) d]] a(1) us by simp
  then show ?thesis using pp(2) a us b by (auto simp: path_append nth_list_update)
qed

lemma add_blocking_thread_spec:
  assumes q: "queue mtx s xs" and a: "live s a"
  shows "\<exists>mtx' s'. add_blocking_thread mtx (Some a) s = Ok (mtx', s') \<and>
    queue mtx' s' (if a \<in> set xs then xs else xs @ [a]) \<and> length (objs s') = length (objs s)"
proof -
  obtain ta where ta: "objs s ! a = Some ta" "a < length (objs s)" using a by (auto simp: live_def)
  show ?thesis
  proof (cases "xs = []")
    case True
    then have "blocking_threads mtx = None" using q by simp
    then show ?thesis using True ta by (simp add: add_blocking_thread_def assign_def deref_def)
  next
    case False
    then obtain b ys where xs: "xs = b # ys" by (cases xs) auto
    have hb: "blocking_threads mtx = Some b" using q xs by simp
    show ?thesis
    proof (cases "a \<in> set xs")
      case True
      have "last_blocking (Suc (length (objs s))) (Some a) (Some b) s = Ok None"
        using last_blocking_spec [OF q False, of "Suc (length (objs s))" a] path_length [OF q] True hb by simp
      then show ?thesis using hb q True by (auto simp add: add_blocking_thread_def simp del: last_blocking.simps)
    next
      case na: False
      have "last xs \<in> set xs" using False by simp
      then obtain tb where tb: "objs s ! last xs = Some tb" "last xs < length (objs s)" using path_live [OF q] by auto
      have lb: "last_blocking (Suc (length (objs s))) (Some a) (Some b) s = Ok (Some (last xs))"
        using last_blocking_spec [OF q False, of "Suc (length (objs s))" a] path_length [OF q] na hb by simp
      let ?s = "s\<lparr>objs := (objs s)[last xs := Some (tb\<lparr>mutex_blocking_next := Some a\<rparr>), a := Some (ta\<lparr>mutex_blocking_next := None\<rparr>)]\<rparr>"
      have ne: "last xs \<noteq> a" using na \<open>last xs \<in> set xs\<close> by auto
      have "add_blocking_thread mtx (Some a) s = Ok (mtx, ?s)"
        using hb na xs lb ta tb ne by (simp add: add_blocking_thread_def assign_def deref_def del: last_blocking.simps)
      moreover have "queue mtx ?s (xs @ [a])" using path_extend [OF q False na ta(2,1) tb(1)] by simp
      ultimately show ?thesis using na by simp
    qed
  qed
qed

lemma unblock_blocking_thread_spec:
  assumes q: "queue mtx s xs"
  shows "\<exists>mtx' s'. unblock_blocking_thread mtx s = Ok (mtx', s') \<and> queue mtx' s' (tl xs) \<and>
    (xs \<noteq> [] \<longrightarrow> th_status (obj s' (hd xs)) =
       (if th_status (obj s (hd xs)) = TS_BLOCKING then TS_RUNNING else th_status (obj s (hd xs))))"
proof (cases xs)
  case Nil
  then show ?thesis using q by (simp add: unblock_blocking_thread_def)
next
  case (Cons a as)
  obtain t where t: "objs s ! a = Some t" "a < length (objs s)" "path mutex_blocking_next (objs s) (mutex_blocking_next t) as None"
    "blocking_threads mtx = Some a"
    using q Cons by (auto split: option.splits)
  have "a \<notin> set as" using path_distinct [OF q] Cons by simp
  then have "path mutex_blocking_next ((objs s)[a := v]) (mutex_blocking_next t) as None" for v
    using path_update_other [OF t(3)] by blast
  then show ?thesis
    using t Cons by (simp add: unblock_blocking_thread_def assign_def deref_def)
qed

section \<open>Properties\<close>

text \<open>
  C34: Mutual exclusion: in every execution of lock passes, try-locks and unlocks by any threads in
  any order, a mutex has at most one holder, and while it has one it is locked and owned by it.
\<close>

theorem mutex_mutual_exclusion:
  assumes "mutex_run m H" and "a \<in> H" and "b \<in> H"
  shows "a = b \<and> m_locked m \<and> m_owner m = Some a"
  using mutex.exclusion [OF mutex_run_lock [OF assms(1)] assms(2,3)] .

theorem mutex_mutual_exclusion_witness: "\<exists>m. mutex_run m {1} \<and> m_owner m = Some 1"
proof -
  let ?m0 = "snd (mutex_init mutex_example)"
  have "mutex_run ?m0 {}" by (rule mutex_run.init [of mutex_example "fst (mutex_init mutex_example)"]) simp
  moreover have "\<exists>m' s'. mutex_lock_pass ?m0 sched_example = Ok (Acquired, m', s')"
    by (simp add: mutex_lock_pass_def mutex_init_def mutex_example_def)
  moreover have "current_thread sched_example = Some 1" by (simp add: sched_example_def)
  ultimately obtain m where m: "mutex_run m {1}" using mutex_run.acquire by blast
  then show ?thesis using mutex_mutual_exclusion [of m "{1}" 1 1] by blast
qed

text \<open>
  C35: The same holds for spinlocks, over all six operations including those that disable interrupts.
\<close>

theorem spinlock_mutual_exclusion:
  assumes "spinlock_run l H" and "a \<in> H" and "b \<in> H"
  shows "a = b \<and> s_locked l \<and> s_owner l = Some a"
  using spin.exclusion [OF spinlock_run_lock [OF assms(1)] assms(2,3)] .

theorem spinlock_mutual_exclusion_witness: "\<exists>l. spinlock_run l {1} \<and> s_owner l = Some 1"
proof -
  let ?l0 = "snd (spinlock_init \<lparr>s_locked = False, s_owner = None\<rparr>)"
  have "spinlock_run ?l0 {}"
    by (rule spinlock_run.init [of "\<lparr>s_locked = False, s_owner = None\<rparr>" STATUS_SUCCESS]) (simp add: spinlock_init_def)
  moreover have "\<exists>l' s'. spinlock_lock ?l0 sched_example = Ok (STATUS_SUCCESS, l', s')"
    by (simp add: lock_op_defs spinlock_init_def)
  moreover have "current_thread sched_example = Some 1" by (simp add: sched_example_def)
  ultimately obtain l where l: "spinlock_run l {1}" using spinlock_run.acquire by blast
  then show ?thesis using spinlock_mutual_exclusion [of l "{1}" 1 1] by blast
qed

text \<open>
  C36: The intrusive queue of a mutex is a first-in-first-out list without duplicates: blocking puts
  the current thread at the end unless it is queued already, and unlocking by the owner takes the
  first thread out and, if it is blocked, makes it running.
\<close>

theorem mutex_queue_fifo:
  assumes q: "queue mtx s xs" and a: "live s a"
  shows "(\<exists>mtx' s'. add_blocking_thread mtx (Some a) s = Ok (mtx', s') \<and>
       queue mtx' s' (if a \<in> set xs then xs else xs @ [a])) \<and>
     (m_owner mtx = current_thread s \<longrightarrow> (\<exists>mtx' s'. mutex_unlock mtx s = Ok (STATUS_SUCCESS, mtx', s') \<and>
       \<not> m_locked mtx' \<and> queue mtx' s' (tl xs) \<and>
       (xs \<noteq> [] \<and> th_status (obj s (hd xs)) = TS_BLOCKING \<longrightarrow> th_status (obj s' (hd xs)) = TS_RUNNING)))"
proof
  show "\<exists>mtx' s'. add_blocking_thread mtx (Some a) s = Ok (mtx', s') \<and> queue mtx' s' (if a \<in> set xs then xs else xs @ [a])"
    using add_blocking_thread_spec [OF q a] by blast
next
  let ?m = "mtx\<lparr>m_locked := False, m_owner := None\<rparr>" and ?s = "thread_disable_preemption s"
  have "queue ?m ?s xs" using q by (simp add: thread_disable_preemption_def)
  from unblock_blocking_thread_spec [OF this] obtain mtx' s' where r: "unblock_blocking_thread ?m ?s = Ok (mtx', s')"
    "queue mtx' s' (tl xs)" "xs \<noteq> [] \<longrightarrow> th_status (obj s' (hd xs)) =
       (if th_status (obj ?s (hd xs)) = TS_BLOCKING then TS_RUNNING else th_status (obj ?s (hd xs)))" by blast
  have "\<not> m_locked mtx'" using unblock_blocking_thread_lock [OF r(1)] by simp
  then show "m_owner mtx = current_thread s \<longrightarrow> (\<exists>mtx' s'. mutex_unlock mtx s = Ok (STATUS_SUCCESS, mtx', s') \<and>
       \<not> m_locked mtx' \<and> queue mtx' s' (tl xs) \<and>
       (xs \<noteq> [] \<and> th_status (obj s (hd xs)) = TS_BLOCKING \<longrightarrow> th_status (obj s' (hd xs)) = TS_RUNNING))"
    using r by (simp add: mutex_unlock_def scheduler_get_current_thread_def thread_enable_preemption_def thread_disable_preemption_def)
qed

theorem mutex_queue_fifo_witness:
  "\<exists>mtx' s'. add_blocking_thread mutex_example (Some 1) sched_example = Ok (mtx', s') \<and> queue mtx' s' [2, 1]"
proof -
  have "queue mutex_example sched_example [2]" "live sched_example 1"
    by (simp_all add: mutex_example_def sched_example_def new_thread_def live_def)
  from mutex_queue_fifo [OF this] show ?thesis by auto
qed

text \<open>
  Trying a lock that another thread holds fails with a status that \<^verbatim>\<open>CHECK_SUCCESS\<close> accepts,
  and waiting for a held spinlock never ends, because the wait runs with preemption disabled.
\<close>

theorem lock_contention:
  "(m_locked mtx \<longrightarrow> (case mutex_try_lock mtx s of (st, mtx', s') \<Rightarrow> CHECK_SUCCESS st \<and> st \<noteq> STATUS_SUCCESS \<and> mtx' = mtx)) \<and>
   (s_locked l \<longrightarrow> spinlock_lock l s = Hang)"
  by (simp add: lock_op_defs CHECK_SUCCESS_def)

theorem lock_contention_witness:
  "m_locked mutex_example \<and> CHECK_SUCCESS (fst (mutex_try_lock mutex_example sched_example))"
proof -
  have "m_locked mutex_example" by (simp add: mutex_example_def)
  then show ?thesis using lock_contention [of mutex_example sched_example "\<lparr>s_locked = False, s_owner = None\<rparr>"]
    by (cases "mutex_try_lock mutex_example sched_example") auto
qed

end
