(* ===== verification/Fat.thy ===== *)
theory Fat
  imports Prelude
begin

text \<open>
  The FAT file system driver of the kernel: the table entry codecs of
  \<^verbatim>\<open>kernel/drivers/filesystem/fat/util.c\<close>, the inline functions of \<^verbatim>\<open>fat.h\<close> and the probing and
  mounting of \<^verbatim>\<open>mount.c\<close>.  The block device is reached through \<^verbatim>\<open>struct block_interface\<close>: the
  device answers a fetch with a status (a parameter of the model, as no driver is part of it) and
  gives out the buffer of the block, which stays pinned until it is released.  A block is a list
  of bytes; reading or writing outside it is \<open>Fault\<close>.
\<close>

section \<open>The block interface\<close>

record blk =
  blk_data :: "u32 \<Rightarrow> u8 list"
  blk_status :: "u32 \<Rightarrow> status"
  blk_pins :: "u32 \<Rightarrow> int"
  blk_dirty :: "u32 set"

definition pin :: "u32 \<Rightarrow> blk \<Rightarrow> blk" where
  "pin lba b = b\<lparr>blk_pins := (blk_pins b)(lba := blk_pins b lba + 1)\<rparr>"

definition fetch :: "u32 \<Rightarrow> blk \<Rightarrow> status \<times> blk" where
  "fetch lba b = (blk_status b lba, if CHECK_SUCCESS (blk_status b lba) then pin lba b else b)"

text \<open>A block released as dirty is one that the driver of the device has to write back.\<close>

definition mark :: "u32 \<Rightarrow> blk \<Rightarrow> blk" where
  "mark lba b = b\<lparr>blk_dirty := insert lba (blk_dirty b)\<rparr>"

definition release :: "u32 \<Rightarrow> bool \<Rightarrow> blk \<Rightarrow> blk" where
  "release lba dirty b = (if dirty then mark lba else id) (b\<lparr>blk_pins := (blk_pins b)(lba := blk_pins b lba - 1)\<rparr>)"

definition get8 :: "u32 \<Rightarrow> u32 \<Rightarrow> blk \<Rightarrow> u8 outcome" where
  "get8 lba i b = (if unat i < length (blk_data b lba) then Ok (blk_data b lba ! unat i) else Fault)"

definition set8 :: "u32 \<Rightarrow> u32 \<Rightarrow> u8 \<Rightarrow> blk \<Rightarrow> blk outcome" where
  "set8 lba i v b = (if unat i < length (blk_data b lba)
     then Ok (b\<lparr>blk_data := (blk_data b)(lba := (blk_data b lba)[unat i := v])\<rparr>) else Fault)"

text \<open>The buffer of a block as an array of little-endian 16-bit and 32-bit words.\<close>

definition get16 :: "u32 \<Rightarrow> u32 \<Rightarrow> blk \<Rightarrow> u16 outcome" where
  "get16 lba i b = obind (get8 lba (2 * i) b) (\<lambda>l. obind (get8 lba (2 * i + 1) b) (\<lambda>h.
     Ok (ucast l OR push_bit 8 (ucast h))))"

definition set16 :: "u32 \<Rightarrow> u32 \<Rightarrow> u16 \<Rightarrow> blk \<Rightarrow> blk outcome" where
  "set16 lba i v b = obind (set8 lba (2 * i) (ucast v) b) (set8 lba (2 * i + 1) (ucast (drop_bit 8 v)))"

definition get32 :: "u32 \<Rightarrow> u32 \<Rightarrow> blk \<Rightarrow> u32 outcome" where
  "get32 lba i b = obind (get8 lba (4 * i) b) (\<lambda>b0. obind (get8 lba (4 * i + 1) b) (\<lambda>b1.
     obind (get8 lba (4 * i + 2) b) (\<lambda>b2. obind (get8 lba (4 * i + 3) b) (\<lambda>b3.
       Ok (ucast b0 OR (push_bit 8 (ucast b1) OR (push_bit 16 (ucast b2) OR push_bit 24 (ucast b3))))))))"

definition set32 :: "u32 \<Rightarrow> u32 \<Rightarrow> u32 \<Rightarrow> blk \<Rightarrow> blk outcome" where
  "set32 lba i v b = obind (set8 lba (4 * i) (ucast v) b) (\<lambda>b. obind (set8 lba (4 * i + 1) (ucast (drop_bit 8 v)) b) (\<lambda>b.
     obind (set8 lba (4 * i + 2) (ucast (drop_bit 16 v)) b) (set8 lba (4 * i + 3) (ucast (drop_bit 24 v)))))"

section \<open>Mounted file systems\<close>

abbreviation (input) FAT12_MAX_CLUSTER :: u32 where "FAT12_MAX_CLUSTER \<equiv> 0xFF4"
abbreviation (input) FAT16_MAX_CLUSTER :: u32 where "FAT16_MAX_CLUSTER \<equiv> 0xFFF4"
abbreviation (input) FAT32_MAX_CLUSTER :: u32 where "FAT32_MAX_CLUSTER \<equiv> 0x0FFFFFF6"
abbreviation (input) FAT12_END_CLUSTER :: u32 where "FAT12_END_CLUSTER \<equiv> 0xFFF"
abbreviation (input) FAT16_END_CLUSTER :: u32 where "FAT16_END_CLUSTER \<equiv> 0xFFFF"
abbreviation (input) FAT32_END_CLUSTER :: u32 where "FAT32_END_CLUSTER \<equiv> 0x0FFFFFFF"

datatype fat_type = FT_FAT12 | FT_FAT16 | FT_FAT32

record fatfs =
  sectors_per_cluster :: u8
  fat_type :: fat_type
  fat_count :: u8
  reserved_sectors :: u16
  sector_size :: u16
  root_entry_count :: u16
  root_sector_count :: u16
  fsinfo_sector :: u16
  cluster_size :: u32
  data_area_begin :: u32
  fat_size :: u32
  free_clusters :: u32
  next_free_cluster :: u32
  total_sector_count :: u32
  root_cluster :: u32

text \<open>The first sector of the given copy of the table, plus an offset.\<close>

definition fat_lba :: "fatfs \<Rightarrow> int \<Rightarrow> u32 \<Rightarrow> u32" where
  "fat_lba fs fat sector_idx = ucast (reserved_sectors fs) + of_int fat * fat_size fs + sector_idx"

definition bad_fat :: "fatfs \<Rightarrow> int \<Rightarrow> bool" where
  "bad_fat fs fat \<longleftrightarrow> fat < 0 \<or> uint (fat_count fs) \<le> fat"

text \<open>Division by a sector size of zero traps.\<close>

definition div_size :: "u32 \<Rightarrow> u32 \<Rightarrow> (u32 \<times> u32) outcome" where
  "div_size i n = (if n = 0 then Fault else Ok (i div n, i mod n))"

section \<open>Table entries\<close>

text \<open>
  The bytes of a 12-bit entry: an even entry has its low byte first and shares the second byte with
  the next entry, which has its low half there.
\<close>

definition dec12 :: "u32 \<Rightarrow> u8 \<Rightarrow> u8 \<Rightarrow> u32" where
  "dec12 e b0 b1 = (if e AND 1 \<noteq> 0 then drop_bit 4 (ucast b0 AND 0xF0) OR push_bit 4 (ucast b1)
     else ucast b0 OR push_bit 8 (ucast b1 AND 0x0F))"

definition low12 :: "u32 \<Rightarrow> u32 \<Rightarrow> u8 \<Rightarrow> u8" where
  "low12 e v old = (if e AND 1 \<noteq> 0 then (old AND 0x0F) OR ucast (push_bit 4 (v AND 0xF)) else ucast (v AND 0xFF))"

definition high12 :: "u32 \<Rightarrow> u32 \<Rightarrow> u8 \<Rightarrow> u8" where
  "high12 e v old = (if e AND 1 \<noteq> 0 then ucast (drop_bit 4 (v AND 0xFF0)) else (old AND 0xF0) OR ucast (drop_bit 8 (v AND 0xF00)))"

definition read_fat_entry12 :: "fatfs \<Rightarrow> int \<Rightarrow> u32 \<Rightarrow> blk \<Rightarrow> (status \<times> u32 option \<times> blk) outcome" where
  "read_fat_entry12 fs fat entry b =
     (if FAT12_MAX_CLUSTER < entry then Ok (STATUS_INVALID_VALUE, None, b)
      else if bad_fat fs fat then Ok (STATUS_INVALID_VALUE, None, b)
      else obind (div_size (entry + drop_bit 1 entry) (ucast (sector_size fs))) (\<lambda>(sector_idx, byte_idx).
        let lba = fat_lba fs fat sector_idx; lba2 = fat_lba fs fat (sector_idx + 1);
            (st, b1) = fetch lba b
        in if \<not> CHECK_SUCCESS st then Ok (st, None, b1)
           else obind (get8 lba byte_idx b1) (\<lambda>e0.
             obind (if byte_idx < ucast (sector_size fs) - 1
                    then obind (get8 lba (byte_idx + 1) b1) (\<lambda>e1. Ok (STATUS_SUCCESS, e1, b1))
                    else let (st, b2) = fetch lba2 b1 in
                         if \<not> CHECK_SUCCESS st then Ok (st, 0, b2)
                         else obind (get8 lba2 0 b2) (\<lambda>e1. Ok (STATUS_SUCCESS, e1, release lba2 False b2)))
               (\<lambda>(st, e1, b3).
                 let b4 = release lba False b3 in
                 if \<not> CHECK_SUCCESS st then Ok (st, None, b4)
                 else Ok (STATUS_SUCCESS, Some (dec12 entry e0 e1), b4)))))"

definition read_fat_entry16 :: "fatfs \<Rightarrow> int \<Rightarrow> u32 \<Rightarrow> blk \<Rightarrow> (status \<times> u32 option \<times> blk) outcome" where
  "read_fat_entry16 fs fat entry b =
     (if FAT16_MAX_CLUSTER < entry then Ok (STATUS_INVALID_VALUE, None, b)
      else if bad_fat fs fat then Ok (STATUS_INVALID_VALUE, None, b)
      else obind (div_size entry (drop_bit 1 (ucast (sector_size fs)))) (\<lambda>(sector_idx, entry_idx).
        let lba = fat_lba fs fat sector_idx; (st, b1) = fetch lba b
        in if \<not> CHECK_SUCCESS st then Ok (st, None, b1)
           else obind (get16 lba entry_idx b1) (\<lambda>v. Ok (STATUS_SUCCESS, Some (ucast v), release lba False b1))))"

definition read_fat_entry32 :: "fatfs \<Rightarrow> int \<Rightarrow> u32 \<Rightarrow> blk \<Rightarrow> (status \<times> u32 option \<times> blk) outcome" where
  "read_fat_entry32 fs fat entry b =
     (if FAT32_MAX_CLUSTER < entry then Ok (STATUS_INVALID_VALUE, None, b)
      else if bad_fat fs fat then Ok (STATUS_INVALID_VALUE, None, b)
      else obind (div_size entry (drop_bit 2 (ucast (sector_size fs)))) (\<lambda>(sector_idx, entry_idx).
        let lba = fat_lba fs fat sector_idx; (st, b1) = fetch lba b
        in if \<not> CHECK_SUCCESS st then Ok (st, None, b1)
           else obind (get32 lba entry_idx b1) (\<lambda>v. Ok (STATUS_SUCCESS, Some (v AND 0x0FFFFFFF), release lba False b1))))"

definition write_fat_entry12 :: "fatfs \<Rightarrow> int \<Rightarrow> u32 \<Rightarrow> u32 \<Rightarrow> blk \<Rightarrow> (status \<times> blk) outcome" where
  "write_fat_entry12 fs fat entry val b =
     (if FAT12_END_CLUSTER < val then Ok (STATUS_INVALID_VALUE, b)
      else if FAT12_MAX_CLUSTER < entry then Ok (STATUS_INVALID_VALUE, b)
      else if bad_fat fs fat then Ok (STATUS_INVALID_VALUE, b)
      else obind (div_size (entry + drop_bit 1 entry) (ucast (sector_size fs))) (\<lambda>(sector_idx, byte_idx).
        let lba = fat_lba fs fat sector_idx; lba2 = fat_lba fs fat (sector_idx + 1);
            (st, b1) = fetch lba b
        in if \<not> CHECK_SUCCESS st then Ok (st, b1)
           else obind (if byte_idx = ucast (sector_size fs) - 1
                  then let (st, b2) = fetch lba2 b1 in
                       if \<not> CHECK_SUCCESS st then Ok (st, b2)
                       else obind (get8 lba2 0 b2) (\<lambda>old. obind (set8 lba2 0 (high12 entry val old) b2)
                              (\<lambda>b3. Ok (STATUS_SUCCESS, release lba2 True b3)))
                  else obind (get8 lba (byte_idx + 1) b1) (\<lambda>old. obind (set8 lba (byte_idx + 1) (high12 entry val old) b1)
                         (\<lambda>b3. Ok (STATUS_SUCCESS, b3))))
             (\<lambda>(st, b3).
               if \<not> CHECK_SUCCESS st then Ok (st, release lba False b3)
               else obind (get8 lba byte_idx b3) (\<lambda>old.
                 obind (set8 lba byte_idx (low12 entry val old) b3)
                   (\<lambda>b4. Ok (STATUS_SUCCESS, release lba True b4))))))"

definition write_fat_entry16 :: "fatfs \<Rightarrow> int \<Rightarrow> u32 \<Rightarrow> u32 \<Rightarrow> blk \<Rightarrow> (status \<times> blk) outcome" where
  "write_fat_entry16 fs fat entry val b =
     (if FAT16_END_CLUSTER < val then Ok (STATUS_INVALID_VALUE, b)
      else if FAT16_MAX_CLUSTER < entry then Ok (STATUS_INVALID_VALUE, b)
      else if bad_fat fs fat then Ok (STATUS_INVALID_VALUE, b)
      else obind (div_size entry (drop_bit 1 (ucast (sector_size fs)))) (\<lambda>(sector_idx, entry_idx).
        let lba = fat_lba fs fat sector_idx; (st, b1) = fetch lba b
        in if \<not> CHECK_SUCCESS st then Ok (st, b1)
           else obind (set16 lba entry_idx (ucast val) b1) (\<lambda>b2. Ok (STATUS_SUCCESS, release lba True b2))))"

definition write_fat_entry32 :: "fatfs \<Rightarrow> int \<Rightarrow> u32 \<Rightarrow> u32 \<Rightarrow> blk \<Rightarrow> (status \<times> blk) outcome" where
  "write_fat_entry32 fs fat entry val b =
     (if FAT32_END_CLUSTER < val then Ok (STATUS_INVALID_VALUE, b)
      else if FAT32_MAX_CLUSTER < entry then Ok (STATUS_INVALID_VALUE, b)
      else if bad_fat fs fat then Ok (STATUS_INVALID_VALUE, b)
      else obind (div_size entry (drop_bit 2 (ucast (sector_size fs)))) (\<lambda>(sector_idx, entry_idx).
        let lba = fat_lba fs fat sector_idx; (st, b1) = fetch lba b
        in if \<not> CHECK_SUCCESS st then Ok (st, b1)
           else obind (get32 lba entry_idx b1) (\<lambda>old.
             obind (set32 lba entry_idx ((old AND 0xF0000000) OR (val AND 0x0FFFFFFF)) b1)
               (\<lambda>b2. Ok (STATUS_SUCCESS, release lba True b2)))))"

definition sector_to_cluster :: "fatfs \<Rightarrow> int \<Rightarrow> u32 outcome" where
  "sector_to_cluster fs lba =
     (if sectors_per_cluster fs = 0 then Fault
      else Ok (of_int (cdiv (lba - uint (data_area_begin fs) - uint (root_sector_count fs))
                        (uint (sectors_per_cluster fs)) + 2)))"

definition cluster_to_sector :: "fatfs \<Rightarrow> u32 \<Rightarrow> int" where
  "cluster_to_sector fs cluster =
     uint ((cluster - 2) * ucast (sectors_per_cluster fs) + data_area_begin fs + ucast (root_sector_count fs))"

text \<open>The entry functions that \<^verbatim>\<open>mount\<close> stores in the file system, by its type.\<close>

definition read_entry_of :: "fatfs \<Rightarrow> int \<Rightarrow> u32 \<Rightarrow> blk \<Rightarrow> (status \<times> u32 option \<times> blk) outcome" where
  "read_entry_of fs = (case fat_type fs of FT_FAT12 \<Rightarrow> read_fat_entry12 fs
     | FT_FAT16 \<Rightarrow> read_fat_entry16 fs | FT_FAT32 \<Rightarrow> read_fat_entry32 fs)"

definition write_entry_of :: "fatfs \<Rightarrow> int \<Rightarrow> u32 \<Rightarrow> u32 \<Rightarrow> blk \<Rightarrow> (status \<times> blk) outcome" where
  "write_entry_of fs = (case fat_type fs of FT_FAT12 \<Rightarrow> write_fat_entry12 fs
     | FT_FAT16 \<Rightarrow> write_fat_entry16 fs | FT_FAT32 \<Rightarrow> write_fat_entry32 fs)"

definition read_fat_entry :: "fatfs \<Rightarrow> u32 \<Rightarrow> blk \<Rightarrow> (status \<times> u32 option \<times> blk) outcome" where
  "read_fat_entry fs entry b = read_entry_of fs 0 entry b"

fun write_copies :: "fatfs \<Rightarrow> int list \<Rightarrow> u32 \<Rightarrow> u32 \<Rightarrow> blk \<Rightarrow> (status \<times> blk) outcome" where
  "write_copies fs [] entry val b = Ok (STATUS_SUCCESS, b)"
| "write_copies fs (i # is) entry val b =
     obind (write_entry_of fs i entry val b) (\<lambda>(st, b1).
       if \<not> CHECK_SUCCESS st then Ok (STATUS_FS_INCONSISTENT, b1) else write_copies fs is entry val b1)"

definition write_fat_entry :: "fatfs \<Rightarrow> u32 \<Rightarrow> u32 \<Rightarrow> blk \<Rightarrow> (status \<times> blk) outcome" where
  "write_fat_entry fs entry val b =
     obind (write_entry_of fs 0 entry val b) (\<lambda>(st, b1).
       if \<not> CHECK_SUCCESS st then Ok (st, b1)
       else write_copies fs [1 .. uint (fat_count fs) - 1] entry val b1)"

section \<open>The table as an array of bytes\<close>

abbreviation ssize :: "fatfs \<Rightarrow> nat" where "ssize fs \<equiv> unat (sector_size fs)"

definition cell_lba :: "fatfs \<Rightarrow> int \<Rightarrow> nat \<Rightarrow> u32" where
  "cell_lba fs fat k = fat_lba fs fat (of_nat (k div ssize fs))"

definition cell :: "fatfs \<Rightarrow> int \<Rightarrow> blk \<Rightarrow> nat \<Rightarrow> u8" where
  "cell fs fat b k = blk_data b (cell_lba fs fat k) ! (k mod ssize fs)"

definition put_cell :: "fatfs \<Rightarrow> int \<Rightarrow> nat \<Rightarrow> u8 \<Rightarrow> blk \<Rightarrow> blk" where
  "put_cell fs fat k v b = b\<lparr>blk_data := (blk_data b)
     (cell_lba fs fat k := (blk_data b (cell_lba fs fat k))[k mod ssize fs := v])\<rparr>"

text \<open>A sector size that holds whole entries, an existing copy, and blocks of that size.\<close>

definition fat_geom :: "fatfs \<Rightarrow> int \<Rightarrow> blk \<Rightarrow> bool" where
  "fat_geom fs fat b \<longleftrightarrow> 0 < ssize fs \<and> 4 dvd ssize fs \<and> \<not> bad_fat fs fat \<and>
     (\<forall>lba. length (blk_data b lba) = ssize fs)"

abbreviation avail :: "fatfs \<Rightarrow> int \<Rightarrow> blk \<Rightarrow> nat \<Rightarrow> bool" where
  "avail fs fat b k \<equiv> CHECK_SUCCESS (blk_status b (cell_lba fs fat k))"

section \<open>Entries in terms of bytes\<close>

text \<open>The position of the first byte of a 12-bit entry.\<close>

definition pos12 :: "u32 \<Rightarrow> nat" where
  "pos12 e = unat e + unat e div 2"

definition dec16 :: "u8 \<Rightarrow> u8 \<Rightarrow> u32" where
  "dec16 b0 b1 = ucast (ucast b0 OR push_bit 8 (ucast b1) :: u16)"

definition dec32 :: "u8 \<Rightarrow> u8 \<Rightarrow> u8 \<Rightarrow> u8 \<Rightarrow> u32" where
  "dec32 b0 b1 b2 b3 = ucast b0 OR (push_bit 8 (ucast b1) OR (push_bit 16 (ucast b2) OR push_bit 24 (ucast b3)))"

definition put32 :: "fatfs \<Rightarrow> int \<Rightarrow> nat \<Rightarrow> u32 \<Rightarrow> blk \<Rightarrow> blk" where
  "put32 fs fat k w b = put_cell fs fat (k + 3) (ucast (drop_bit 24 w)) (put_cell fs fat (k + 2) (ucast (drop_bit 16 w))
     (put_cell fs fat (k + 1) (ucast (drop_bit 8 w)) (put_cell fs fat k (ucast w) b)))"

text \<open>The blocks of a copy of the table, and a device from which all of them can be fetched.\<close>

definition fat_region :: "fatfs \<Rightarrow> int \<Rightarrow> u32 set" where
  "fat_region fs fat = fat_lba fs fat ` {s. s < fat_size fs}"

definition in_table :: "fatfs \<Rightarrow> nat \<Rightarrow> bool" where
  "in_table fs k \<longleftrightarrow> k div ssize fs < unat (fat_size fs)"

definition fat_ok :: "fatfs \<Rightarrow> int \<Rightarrow> blk \<Rightarrow> bool" where
  "fat_ok fs fat b \<longleftrightarrow> fat_geom fs fat b \<and> (\<forall>lba \<in> fat_region fs fat. CHECK_SUCCESS (blk_status b lba))"

text \<open>Only blocks of \<open>R\<close> have changed; every block that has changed is marked for writing back.\<close>

definition same_outside :: "u32 set \<Rightarrow> blk \<Rightarrow> blk \<Rightarrow> bool" where
  "same_outside R b b' \<longleftrightarrow> blk_status b' = blk_status b \<and> (\<forall>lba. length (blk_data b' lba) = length (blk_data b lba)) \<and>
     (\<forall>lba. lba \<notin> R \<longrightarrow> blk_data b' lba = blk_data b lba)"

definition all_marked :: "blk \<Rightarrow> blk \<Rightarrow> bool" where
  "all_marked b b' \<longleftrightarrow> blk_dirty b \<subseteq> blk_dirty b' \<and> (\<forall>lba. blk_data b' lba = blk_data b lba \<or> lba \<in> blk_dirty b')"

definition tbl12 :: "fatfs \<Rightarrow> int \<Rightarrow> blk \<Rightarrow> u32 \<Rightarrow> u32" where
  "tbl12 fs fat b e = dec12 e (cell fs fat b (pos12 e)) (cell fs fat b (pos12 e + 1))"

definition tbl16 :: "fatfs \<Rightarrow> int \<Rightarrow> blk \<Rightarrow> u32 \<Rightarrow> u32" where
  "tbl16 fs fat b e = dec16 (cell fs fat b (2 * unat e)) (cell fs fat b (2 * unat e + 1))"

definition tbl32 :: "fatfs \<Rightarrow> int \<Rightarrow> blk \<Rightarrow> u32 \<Rightarrow> u32" where
  "tbl32 fs fat b e = dec32 (cell fs fat b (4 * unat e)) (cell fs fat b (4 * unat e + 1))
     (cell fs fat b (4 * unat e + 2)) (cell fs fat b (4 * unat e + 3)) AND 0x0FFFFFFF"

definition max_cluster :: "fat_type \<Rightarrow> u32" where
  "max_cluster t = (case t of FT_FAT12 \<Rightarrow> FAT12_MAX_CLUSTER | FT_FAT16 \<Rightarrow> FAT16_MAX_CLUSTER | FT_FAT32 \<Rightarrow> FAT32_MAX_CLUSTER)"

definition end_cluster :: "fat_type \<Rightarrow> u32" where
  "end_cluster t = (case t of FT_FAT12 \<Rightarrow> FAT12_END_CLUSTER | FT_FAT16 \<Rightarrow> FAT16_END_CLUSTER | FT_FAT32 \<Rightarrow> FAT32_END_CLUSTER)"

definition last_byte :: "fat_type \<Rightarrow> u32 \<Rightarrow> nat" where
  "last_byte t e = (case t of FT_FAT12 \<Rightarrow> pos12 e + 1 | FT_FAT16 \<Rightarrow> 2 * unat e + 1 | FT_FAT32 \<Rightarrow> 4 * unat e + 3)"

text \<open>The entries that lie in the table, the values an entry can take, and the entry in a copy of the table.\<close>

definition entries_of :: "fatfs \<Rightarrow> u32 set" where
  "entries_of fs = {e. e \<le> max_cluster (fat_type fs) \<and> in_table fs (last_byte (fat_type fs) e)}"

definition values_of :: "fatfs \<Rightarrow> u32 set" where
  "values_of fs = {v. v \<le> end_cluster (fat_type fs)}"

definition table_of :: "fatfs \<Rightarrow> int \<Rightarrow> blk \<Rightarrow> u32 \<Rightarrow> u32" where
  "table_of fs = (case fat_type fs of FT_FAT12 \<Rightarrow> tbl12 fs | FT_FAT16 \<Rightarrow> tbl16 fs | FT_FAT32 \<Rightarrow> tbl32 fs)"

text \<open>A volume whose copies of the table lie one after the other in the 32-bit sector numbers, all readable.\<close>

definition copies_of :: "fatfs \<Rightarrow> int set" where
  "copies_of fs = {i. 0 \<le> i \<and> i < uint (fat_count fs)}"

definition volume_ok :: "fatfs \<Rightarrow> blk \<Rightarrow> bool" where
  "volume_ok fs b \<longleftrightarrow> 0 < fat_count fs \<and> unat (reserved_sectors fs) + unat (fat_count fs) * unat (fat_size fs) \<le> 2 ^ 32 \<and>
     (\<forall>i \<in> copies_of fs. fat_ok fs i b)"

definition volume_region :: "fatfs \<Rightarrow> u32 set" where
  "volume_region fs = (\<Union>i \<in> copies_of fs. fat_region fs i)"

text \<open>The entry \<open>e\<close> has the value \<open>v\<close> in the copies of \<open>I\<close>; nothing else in a table has changed.\<close>

definition mirrored :: "fatfs \<Rightarrow> int set \<Rightarrow> u32 \<Rightarrow> u32 \<Rightarrow> blk \<Rightarrow> blk \<Rightarrow> bool" where
  "mirrored fs I e v b b' \<longleftrightarrow> (\<forall>i \<in> copies_of fs. \<forall>e' \<in> entries_of fs.
     table_of fs i b' e' = (if i \<in> I \<and> e' = e then v else table_of fs i b e'))"

section \<open>Probing and mounting\<close>

text \<open>Little-endian fields of a sector, by byte offset; packed structs have no padding.\<close>

definition field8 :: "u8 list \<Rightarrow> nat \<Rightarrow> u8" where
  "field8 s k = s ! k"

definition field16 :: "u8 list \<Rightarrow> nat \<Rightarrow> u16" where
  "field16 s k = ucast (s ! k) OR push_bit 8 (ucast (s ! (k + 1)))"

definition field32 :: "u8 list \<Rightarrow> nat \<Rightarrow> u32" where
  "field32 s k = ucast (s ! k) OR (push_bit 8 (ucast (s ! (k + 1)))
     OR (push_bit 16 (ucast (s ! (k + 2))) OR push_bit 24 (ucast (s ! (k + 3)))))"

definition ascii :: "string \<Rightarrow> u8 list" where
  "ascii cs = map (\<lambda>c. of_nat (of_char c)) cs"

text \<open>The three file system type strings, at offsets 54 and 82 of the boot sector.\<close>

definition bad_fs_type :: "u8 list \<Rightarrow> bool" where
  "bad_fs_type s \<longleftrightarrow> take 8 (drop 54 s) \<noteq> ascii ''FAT12   '' \<and> take 8 (drop 54 s) \<noteq> ascii ''FAT16   '' \<and>
     take 8 (drop 82 s) \<noteq> ascii ''FAT32   ''"

definition bad_fsinfo :: "u8 list \<Rightarrow> bool" where
  "bad_fsinfo s \<longleftrightarrow> field32 s 0 \<noteq> 0x41615252 \<or> field32 s 484 \<noteq> 0x61417272 \<or> field32 s 508 \<noteq> 0xAA550000"

text \<open>The layout computed from the boot sector, the same in \<^verbatim>\<open>probe\<close> and \<^verbatim>\<open>mount\<close>.\<close>

definition bpb_fat_size :: "u8 list \<Rightarrow> u32" where
  "bpb_fat_size s = (if field16 s 22 \<noteq> 0 then ucast (field16 s 22) else field32 s 36)"

definition bpb_total_sectors :: "u8 list \<Rightarrow> u32" where
  "bpb_total_sectors s = (if field16 s 19 \<noteq> 0 then ucast (field16 s 19) else field32 s 32)"

definition bpb_data_begin :: "u8 list \<Rightarrow> u32" where
  "bpb_data_begin s = ucast (field16 s 14) + ucast (field8 s 16) * bpb_fat_size s"

definition bpb_root_sectors :: "u8 list \<Rightarrow> u32" where
  "bpb_root_sectors s = (ucast (field16 s 17) * 32 + (ucast (field16 s 11) - 1)) div ucast (field16 s 11)"

definition bpb_clusters :: "u8 list \<Rightarrow> u32 \<Rightarrow> u32" where
  "bpb_clusters s root_sectors = (bpb_total_sectors s - bpb_data_begin s - root_sectors) div ucast (field8 s 13)"

text \<open>\<open>ifst\<close> is the status with which the driver of the device answers the request for its block interface.\<close>

definition probe :: "status \<Rightarrow> blk \<Rightarrow> (status \<times> blk) outcome" where
  "probe ifst b =
     (if \<not> CHECK_SUCCESS ifst then Ok (ifst, b)
      else let (st, b1) = fetch 0 b; bpb = blk_data b1 0 in
      if \<not> CHECK_SUCCESS st then Ok (st, b1)
      else if length bpb < 512 then Fault
      else if field16 bpb 510 \<noteq> 0xAA55 then Ok (STATUS_INVALID_SIGNATURE, release 0 False b1)
      else if bad_fs_type bpb then Ok (STATUS_INVALID_SIGNATURE, release 0 False b1)
      else if field16 bpb 11 = 0 \<or> field8 bpb 13 = 0 then Fault
      else if FAT16_MAX_CLUSTER < bpb_clusters bpb (bpb_root_sectors bpb) then
        let info = ucast (field16 bpb 48); (st, b2) = fetch info b1 in
        if \<not> CHECK_SUCCESS st then Ok (st, release 0 False b2)
        else if length (blk_data b2 info) < 512 then Fault
        else if bad_fsinfo (blk_data b2 info)
        then Ok (STATUS_INVALID_SIGNATURE, release 0 False (release info False b2))
        else Ok (STATUS_SUCCESS, release 0 False (release info False b2))
      else Ok (STATUS_SUCCESS, release 0 False b1))"

text \<open>
  \<^verbatim>\<open>mount\<close>: \<open>crst\<close>, \<open>alst\<close> and \<open>ifst\<close> are the answers of the file system registry, the memory
  allocator and the device driver, \<open>fs0\<close> the new file system object and \<open>d0\<close> the contents of the
  newly allocated data.  The result has the object handed out and what has become of \<^verbatim>\<open>dev->data\<close>:
  it is left alone, points to the data of the mounted file system, or to data that has been freed.
\<close>

record fsobj =
  fs_data :: "fatfs option"

datatype devptr = Dev_kept | Dev_data fatfs | Dev_freed

definition mount_data :: "u8 list \<Rightarrow> fatfs \<Rightarrow> fatfs outcome" where
  "mount_data bpb d0 =
     (if field16 bpb 11 = 0 \<or> field8 bpb 13 = 0 then Fault
      else let rsc = ucast (bpb_root_sectors bpb); clusters = bpb_clusters bpb (ucast rsc) in
        Ok (d0\<lparr>sector_size := field16 bpb 11, sectors_per_cluster := field8 bpb 13,
             cluster_size := ucast (field16 bpb 11) * ucast (field8 bpb 13),
             root_entry_count := field16 bpb 17, reserved_sectors := field16 bpb 14, root_sector_count := rsc,
             fat_size := bpb_fat_size bpb, total_sector_count := bpb_total_sectors bpb, fat_count := field8 bpb 16,
             data_area_begin := bpb_data_begin bpb,
             fat_type := (if clusters \<le> FAT12_MAX_CLUSTER then FT_FAT12
                          else if clusters \<le> FAT16_MAX_CLUSTER then FT_FAT16 else FT_FAT32)\<rparr>))"

definition mount ::
  "status \<Rightarrow> status \<Rightarrow> status \<Rightarrow> fsobj \<Rightarrow> fatfs \<Rightarrow> blk \<Rightarrow> (status \<times> fsobj option \<times> devptr \<times> blk) outcome" where
  "mount crst alst ifst fs0 d0 b =
     (if \<not> CHECK_SUCCESS crst then Ok (crst, None, Dev_kept, b)
      else if \<not> CHECK_SUCCESS alst then Ok (alst, None, Dev_kept, b)
      else if \<not> CHECK_SUCCESS ifst then Ok (ifst, None, Dev_freed, b)
      else let (st, b1) = fetch 0 b; bpb = blk_data b1 0 in
      if \<not> CHECK_SUCCESS st then Ok (st, None, Dev_freed, b1)
      else if length bpb < 512 then Fault
      else if field16 bpb 510 \<noteq> 0xAA55 then Ok (STATUS_INVALID_SIGNATURE, None, Dev_freed, release 0 False b1)
      else if bad_fs_type bpb then Ok (STATUS_INVALID_SIGNATURE, None, Dev_freed, release 0 False b1)
      else obind (mount_data bpb d0) (\<lambda>d.
        if fat_type d = FT_FAT32 then
          let info = field16 bpb 48;
              d1 = d\<lparr>root_sector_count := 0, root_cluster := field32 bpb 44, fsinfo_sector := info\<rparr>;
              (st, b2) = fetch (ucast info) b1
          in if \<not> CHECK_SUCCESS st then Ok (st, None, Dev_freed, release 0 False b2)
             else if length (blk_data b2 (ucast info)) < 512 then Fault
             else if bad_fsinfo (blk_data b2 (ucast info))
             then Ok (STATUS_INVALID_SIGNATURE, None, Dev_freed, release 0 False (release (ucast info) False b2))
             else Ok (STATUS_SUCCESS, Some fs0,
               Dev_data (d1\<lparr>free_clusters := field32 (blk_data b2 (ucast info)) 488,
                         next_free_cluster := field32 (blk_data b2 (ucast info)) 492\<rparr>),
               release 0 False (release (ucast info) False b2))
        else Ok (STATUS_SUCCESS, Some fs0, Dev_data d, release 0 False b1)))"

text \<open>The directory handle that \<^verbatim>\<open>open_root_directory\<close> makes, when its allocations succeed.\<close>

record directory_data =
  head_cluster :: u32
  current_cluster :: u32
  current_entry_index :: u32

definition open_root_directory :: "status \<Rightarrow> status \<Rightarrow> fatfs \<Rightarrow> status \<times> directory_data option" where
  "open_root_directory alst1 alst2 d =
     (if \<not> CHECK_SUCCESS alst1 then (alst1, None)
      else if \<not> CHECK_SUCCESS alst2 then (alst2, None)
      else let h = (if fat_type d = FT_FAT32 then root_cluster d else 0) in
        (STATUS_SUCCESS, Some \<lparr>head_cluster = h, current_cluster = h, current_entry_index = 0\<rparr>))"

definition reads_only :: "blk \<Rightarrow> status \<times> u32 option \<times> blk \<Rightarrow> bool" where
  "reads_only b r \<longleftrightarrow> (case r of (st, v, b') \<Rightarrow> b' = b \<and> (v \<noteq> None \<longleftrightarrow> CHECK_SUCCESS st))"

text \<open>A volume with two copies of a table of one sector of twelve bytes.\<close>

definition ex_fs :: fatfs where
  "ex_fs = \<lparr>sectors_per_cluster = 1, fat_type = FT_FAT12, fat_count = 2, reserved_sectors = 1, sector_size = 12,
     root_entry_count = 16, root_sector_count = 1, fsinfo_sector = 0, cluster_size = 12, data_area_begin = 3,
     fat_size = 1, free_clusters = 0, next_free_cluster = 0, total_sector_count = 10, root_cluster = 0\<rparr>"

definition ex_blk :: blk where
  "ex_blk = \<lparr>blk_data = (\<lambda>lba. replicate 12 0), blk_status = (\<lambda>lba. STATUS_SUCCESS), blk_pins = (\<lambda>lba. 0), blk_dirty = {}\<rparr>"

text \<open>A device whose first sector is the boot sector of a small FAT12 volume.\<close>

definition ex_boot :: "u8 list" where
  "ex_boot = (replicate 512 0)[12 := 2, 13 := 1, 14 := 1, 16 := 2, 17 := 16, 19 := 100, 22 := 1,
     54 := 0x46, 55 := 0x41, 56 := 0x54, 57 := 0x31, 58 := 0x32, 59 := 0x20, 60 := 0x20, 61 := 0x20,
     510 := 0x55, 511 := 0xAA]"

definition ex_boot_blk :: blk where
  "ex_boot_blk = ex_blk\<lparr>blk_data := \<lambda>_. ex_boot\<rparr>"

lemma cell_lba_inj:
  assumes "j < 2 ^ 31" "k < 2 ^ 31" shows "cell_lba fs fat j = cell_lba fs fat k \<longleftrightarrow> j div ssize fs = k div ssize fs"
proof -
  have "j div ssize fs < 2 ^ 32" "k div ssize fs < 2 ^ 32"
    using assms le_less_trans [OF div_le_dividend, of j "2 ^ 32" "ssize fs"] le_less_trans [OF div_le_dividend, of k "2 ^ 32" "ssize fs"]
    by simp_all
  then have "of_nat (j div ssize fs) = (of_nat (k div ssize fs) :: u32) \<longleftrightarrow> j div ssize fs = k div ssize fs"
    by (metis unat_of_nat_u32)
  then show ?thesis by (simp add: cell_lba_def fat_lba_def)
qed

lemma cell_put_cell:
  assumes "fat_geom fs fat b" "j < 2 ^ 31" "k < 2 ^ 31"
  shows "cell fs fat (put_cell fs fat k v b) j = (if j = k then v else cell fs fat b j)"
proof (cases "j div ssize fs = k div ssize fs")
  case False
  then show ?thesis using cell_lba_inj [OF assms(2,3)] by (auto simp: cell_def put_cell_def)
next
  case True
  then have "cell_lba fs fat j = cell_lba fs fat k" using cell_lba_inj [OF assms(2,3)] by simp
  moreover have "j mod ssize fs = k mod ssize fs \<longleftrightarrow> j = k" using True by (metis mod_div_mult_eq)
  moreover have "k mod ssize fs < ssize fs" using assms(1) by (simp add: fat_geom_def)
  ultimately show ?thesis using assms(1) by (auto simp: cell_def put_cell_def fat_geom_def)
qed

lemma put_cell_geom [simp]: "fat_geom fs fat (put_cell fs fat' k v b) = fat_geom fs fat b"
  by (auto simp: fat_geom_def put_cell_def)

lemma put_cell_keeps [simp]:
  "blk_status (put_cell fs fat k v b) = blk_status b" "blk_pins (put_cell fs fat k v b) = blk_pins b"
  by (simp_all add: put_cell_def)

lemma get8_cell:
  assumes "fat_geom fs fat b" "unat i = k mod ssize fs" "lba = cell_lba fs fat k"
  shows "get8 lba i b = Ok (cell fs fat b k)"
  using assms by (auto simp: get8_def cell_def fat_geom_def)

lemma set8_cell:
  assumes "fat_geom fs fat b" "unat i = k mod ssize fs" "lba = cell_lba fs fat k"
  shows "set8 lba i v b = Ok (put_cell fs fat k v b)"
  using assms by (auto simp: set8_def put_cell_def fat_geom_def)

text \<open>Pins do not change what is read, and a fetch is undone by a release.\<close>

lemma release_pin [simp]: "release lba False (pin lba b) = b" "release lba True (pin lba b) = mark lba b"
  by (simp_all add: release_def pin_def mark_def)

text \<open>Dirty marks do not change what is read; they are collected in front.\<close>

lemma mark_simps [simp]:
  "blk_status (mark l b) = blk_status b" "blk_data (mark l b) = blk_data b" "blk_pins (mark l b) = blk_pins b"
  "blk_dirty (mark l b) = insert l (blk_dirty b)" "cell fs fat (mark l b) k = cell fs fat b k"
  "fat_geom fs fat (mark l b) = fat_geom fs fat b" "put_cell fs fat k v (mark l b) = mark l (put_cell fs fat k v b)"
  "pin l' (mark l b) = mark l (pin l' b)" "release l' d (mark l b) = mark l (release l' d b)" "mark l (mark l b) = mark l b"
  by (simp_all add: mark_def pin_def release_def cell_def fat_geom_def put_cell_def insert_commute)

lemma pin_simps [simp]:
  "blk_status (pin l b) = blk_status b" "blk_data (pin l b) = blk_data b"
  "cell fs fat (pin l b) k = cell fs fat b k" "fat_geom fs fat (pin l b) = fat_geom fs fat b"
  "put_cell fs fat k v (pin l b) = pin l (put_cell fs fat k v b)"
  by (simp_all add: pin_def cell_def fat_geom_def put_cell_def)

lemma mark_commute: "mark l (mark m b) = mark m (mark l b)"
  by (simp add: mark_def insert_commute)

lemma fetch_ok: "CHECK_SUCCESS (blk_status b lba) \<Longrightarrow> fetch lba b = (blk_status b lba, pin lba b)"
  by (simp add: fetch_def)

text \<open>Sector and byte index of a position in the table.\<close>

lemma div_size_cell:
  assumes "fat_geom fs fat b" "unat i = k" "k < 2 ^ 31"
  shows "\<exists>s j. div_size i (ucast (sector_size fs)) = Ok (s, j) \<and> unat j = k mod ssize fs \<and>
     fat_lba fs fat s = cell_lba fs fat k \<and>
     (if k mod ssize fs + 1 < ssize fs
      then j < ucast (sector_size fs) - 1 \<and> j \<noteq> ucast (sector_size fs) - 1 \<and> unat (j + 1) = (k + 1) mod ssize fs \<and>
           cell_lba fs fat (k + 1) = cell_lba fs fat k
      else \<not> j < ucast (sector_size fs) - 1 \<and> j = ucast (sector_size fs) - 1 \<and> (k + 1) mod ssize fs = 0 \<and>
           fat_lba fs fat (s + 1) = cell_lba fs fat (k + 1))"
proof -
  let ?n = "ucast (sector_size fs) :: u32"
  have s16: "ssize fs < 65536" using unsigned_less [of "sector_size fs", where ?'a = nat] by simp
  then have un: "unat ?n = ssize fs" by (simp add: unsigned_ucast_eq take_bit_nat_eq_self)
  have pos: "0 < ssize fs" using assms(1) by (simp add: fat_geom_def)
  have nz: "?n \<noteq> 0" using un pos by (metis less_numeral_extra(3) unat_0)
  let ?s = "i div ?n" and ?j = "i mod ?n"
  have us: "unat ?s = k div ssize fs" and uj: "unat ?j = k mod ssize fs"
    using assms(2) un by (simp_all add: unat_div unat_mod)
  have s: "?s = of_nat (k div ssize fs)" by (simp add: us [symmetric])
  have n1: "unat (?n - 1) = ssize fs - 1" using un pos by (simp add: unat_sub word_le_nat_alt)
  have jb: "k mod ssize fs < ssize fs" using pos by simp
  have lt: "?j < ?n - 1 \<longleftrightarrow> k mod ssize fs + 1 < ssize fs" using uj n1 jb by (auto simp: word_less_nat_alt)
  have eq: "?j = ?n - 1 \<longleftrightarrow> k mod ssize fs + 1 = ssize fs" using uj n1 jb by (auto simp: word_unat_eq_iff)
  have j1: "unat (?j + 1) = k mod ssize fs + 1" using uj jb s16 by (simp add: unat_word_ariths)
  have A: "(k + 1) mod ssize fs = k mod ssize fs + 1 \<and> (k + 1) div ssize fs = k div ssize fs" if "k mod ssize fs + 1 < ssize fs"
    using that by (simp add: mod_Suc div_Suc)
  have B: "(k + 1) mod ssize fs = 0 \<and> (k + 1) div ssize fs = k div ssize fs + 1" if "\<not> k mod ssize fs + 1 < ssize fs"
    using that jb by (simp add: mod_Suc div_Suc)
  have d: "div_size i ?n = Ok (?s, ?j)" using nz by (simp add: div_size_def)
  have c: "fat_lba fs fat ?s = cell_lba fs fat k" by (simp add: cell_lba_def s)
  show ?thesis
  proof (cases "k mod ssize fs + 1 < ssize fs")
    case True
    then have "cell_lba fs fat (k + 1) = cell_lba fs fat k" using A by (simp add: cell_lba_def)
    then show ?thesis
      using True A lt eq j1 uj d c by (intro exI [of _ ?s] exI [of _ ?j]) simp
  next
    case False
    then have "fat_lba fs fat (?s + 1) = cell_lba fs fat (k + 1)" using B by (simp add: cell_lba_def s add.commute)
    then show ?thesis
      using False B lt eq jb uj d c by (intro exI [of _ ?s] exI [of _ ?j]) simp
  qed
qed

lemma pos12_word:
  assumes "e \<le> FAT12_MAX_CLUSTER"
  shows "unat (e + drop_bit 1 e) = pos12 e" "pos12 e + 1 < 2 ^ 31"
proof -
  have e: "unat e \<le> 0xFF4" using assms by (simp add: word_le_nat_alt)
  then show "pos12 e + 1 < 2 ^ 31" by (simp add: pos12_def)
  show "unat (e + drop_bit 1 e) = pos12 e"
    using e by (simp add: pos12_def drop_bit_eq_div unat_word_ariths unat_div)
qed

lemma read12_cells:
  assumes g: "fat_geom fs fat b" and e: "e \<le> FAT12_MAX_CLUSTER"
    and av: "avail fs fat b (pos12 e)" "avail fs fat b (pos12 e + 1)"
  shows "read_fat_entry12 fs fat e b =
    Ok (STATUS_SUCCESS, Some (dec12 e (cell fs fat b (pos12 e)) (cell fs fat b (pos12 e + 1))), b)"
proof -
  let ?k = "pos12 e"
  have k: "?k < 2 ^ 31" using pos12_word(2) [OF e] by simp
  obtain s j where d: "div_size (e + drop_bit 1 e) (ucast (sector_size fs)) = Ok (s, j)" "unat j = ?k mod ssize fs"
     "fat_lba fs fat s = cell_lba fs fat ?k"
     "if ?k mod ssize fs + 1 < ssize fs
      then j < ucast (sector_size fs) - 1 \<and> j \<noteq> ucast (sector_size fs) - 1 \<and> unat (j + 1) = (?k + 1) mod ssize fs \<and>
           cell_lba fs fat (?k + 1) = cell_lba fs fat ?k
      else \<not> j < ucast (sector_size fs) - 1 \<and> j = ucast (sector_size fs) - 1 \<and> (?k + 1) mod ssize fs = 0 \<and>
           fat_lba fs fat (s + 1) = cell_lba fs fat (?k + 1)"
    using div_size_cell [OF g pos12_word(1) [OF e] k] by blast
  have nb: "\<not> bad_fat fs fat" using g by (simp add: fat_geom_def)
  have ne: "\<not> FAT12_MAX_CLUSTER < e" using e by (simp add: not_less)
  have g0: "get8 (cell_lba fs fat ?k) j b' = Ok (cell fs fat b' ?k)" if "fat_geom fs fat b'" for b'
    by (rule get8_cell [OF that d(2)]) simp
  show ?thesis
  proof (cases "?k mod ssize fs + 1 < ssize fs")
    case True
    have f: "j < ucast (sector_size fs) - 1" using d(4) True by simp
    have g1: "get8 (cell_lba fs fat ?k) (j + 1) b' = Ok (cell fs fat b' (Suc ?k))" if "fat_geom fs fat b'" for b'
      by (rule get8_cell [OF that]) (use d(4) True in auto)
    show ?thesis
      using f d(1,3) ne nb av g by (simp add: read_fat_entry12_def fetch_ok g0 g1 Let_def)
  next
    case False
    have f: "\<not> j < ucast (sector_size fs) - 1" "fat_lba fs fat (s + 1) = cell_lba fs fat (Suc ?k)"
      using d(4) False by simp_all
    have g1: "get8 (cell_lba fs fat (Suc ?k)) 0 b' = Ok (cell fs fat b' (Suc ?k))" if "fat_geom fs fat b'" for b'
      by (rule get8_cell [OF that]) (use d(4) False in auto)
    show ?thesis
      using f d(1,3) ne nb av g by (simp add: read_fat_entry12_def fetch_ok g0 g1 Let_def)
  qed
qed

lemma write12_cells:
  assumes g: "fat_geom fs fat b" and e: "e \<le> FAT12_MAX_CLUSTER" and v: "v \<le> FAT12_END_CLUSTER"
    and av: "avail fs fat b (pos12 e)" "avail fs fat b (pos12 e + 1)"
  shows "write_fat_entry12 fs fat e v b =
    Ok (STATUS_SUCCESS, mark (cell_lba fs fat (pos12 e)) (mark (cell_lba fs fat (pos12 e + 1))
      (put_cell fs fat (pos12 e) (low12 e v (cell fs fat b (pos12 e)))
        (put_cell fs fat (pos12 e + 1) (high12 e v (cell fs fat b (pos12 e + 1))) b))))"
proof -
  let ?k = "pos12 e"
  have k: "?k < 2 ^ 31" "Suc ?k < 2 ^ 31" using pos12_word(2) [OF e] by simp_all
  obtain s j where d: "div_size (e + drop_bit 1 e) (ucast (sector_size fs)) = Ok (s, j)" "unat j = ?k mod ssize fs"
     "fat_lba fs fat s = cell_lba fs fat ?k"
     "if ?k mod ssize fs + 1 < ssize fs
      then j < ucast (sector_size fs) - 1 \<and> j \<noteq> ucast (sector_size fs) - 1 \<and> unat (j + 1) = (?k + 1) mod ssize fs \<and>
           cell_lba fs fat (?k + 1) = cell_lba fs fat ?k
      else \<not> j < ucast (sector_size fs) - 1 \<and> j = ucast (sector_size fs) - 1 \<and> (?k + 1) mod ssize fs = 0 \<and>
           fat_lba fs fat (s + 1) = cell_lba fs fat (?k + 1)"
    using div_size_cell [OF g pos12_word(1) [OF e] k(1)] by blast
  have nb: "\<not> bad_fat fs fat" using g by (simp add: fat_geom_def)
  have ne: "\<not> FAT12_MAX_CLUSTER < e" "\<not> FAT12_END_CLUSTER < v" using e v by (simp_all add: not_less)
  have g0: "get8 (cell_lba fs fat ?k) j b' = Ok (cell fs fat b' ?k)" "set8 (cell_lba fs fat ?k) j w b' = Ok (put_cell fs fat ?k w b')"
    if "fat_geom fs fat b'" for b' w
    by (rule get8_cell [OF that d(2)], simp) (rule set8_cell [OF that d(2)], simp)
  have other: "cell fs fat (put_cell fs fat (Suc ?k) w b) ?k = cell fs fat b ?k" for w
    using cell_put_cell [OF g k] by simp
  show ?thesis
  proof (cases "?k mod ssize fs + 1 < ssize fs")
    case True
    have f: "j \<noteq> ucast (sector_size fs) - 1" "cell_lba fs fat (Suc ?k) = cell_lba fs fat ?k" using d(4) True by simp_all
    have g1: "get8 (cell_lba fs fat ?k) (j + 1) b' = Ok (cell fs fat b' (Suc ?k))"
      "set8 (cell_lba fs fat ?k) (j + 1) w b' = Ok (put_cell fs fat (Suc ?k) w b')" if "fat_geom fs fat b'" for b' w
      by (rule get8_cell [OF that], use d(4) True in auto) (rule set8_cell [OF that], use d(4) True in auto)
    show ?thesis
      using f d(1,3) ne nb av g other by (simp add: write_fat_entry12_def fetch_ok g0 g1 Let_def)
  next
    case False
    have f: "fat_lba fs fat (s + 1) = cell_lba fs fat (Suc ?k)" and jj: "j = ucast (sector_size fs) - 1"
      using d(4) False by simp_all
    have g1: "get8 (cell_lba fs fat (Suc ?k)) 0 b' = Ok (cell fs fat b' (Suc ?k))"
      "set8 (cell_lba fs fat (Suc ?k)) 0 w b' = Ok (put_cell fs fat (Suc ?k) w b')" if "fat_geom fs fat b'" for b' w
      by (rule get8_cell [OF that], use d(4) False in auto) (rule set8_cell [OF that], use d(4) False in auto)
    show ?thesis
      using f d(1,3) ne nb av g other
      by (simp add: write_fat_entry12_def fetch_ok g0 [unfolded jj] g1 Let_def jj mark_commute [of _ "cell_lba fs fat (Suc ?k)"])
  qed
qed

lemma byte_masks: "(0xF0 :: 'a::len word) = push_bit 4 (mask 4)" "(0x0F :: 'a word) = mask 4" "(0xFF :: 'a word) = mask 8"
  "(0xFF0 :: 'a word) = push_bit 4 (mask 8)" "(0xF00 :: 'a word) = push_bit 8 (mask 4)"
  by (simp_all add: mask_eq_exp_minus_1 push_bit_eq_mult)

lemma dec12_written:
  assumes "v \<le> FAT12_END_CLUSTER" shows "dec12 e (low12 e v o0) (high12 e v o1) = v"
proof -
  have "v < 2 ^ 12" using assms by (simp add: word_le_nat_alt word_less_nat_alt)
  then have "take_bit 12 v = v" by (rule word_less_exp_take_bit) simp
  then have b: "\<And>n. bit v n \<Longrightarrow> n < 12" by (metis bit_take_bit_iff)
  show ?thesis
    unfolding dec12_def low12_def high12_def byte_masks
    by (intro bit_word_eqI) (auto simp: bit_simps dest: b, metis le_add_diff_inverse not_less)
qed

lemma dec12_shared:
  "e AND 1 = 0 \<Longrightarrow> e' AND 1 \<noteq> 0 \<Longrightarrow> dec12 e' (high12 e v old) x = dec12 e' old x"
  "e AND 1 \<noteq> 0 \<Longrightarrow> e' AND 1 = 0 \<Longrightarrow> dec12 e' x (low12 e v old) = dec12 e' x old"
  unfolding dec12_def low12_def high12_def byte_masks
  by (intro bit_word_eqI; auto simp: bit_simps)+

text \<open>Entries of two or four whole bytes do not cross sectors.\<close>

lemma stride_cell:
  fixes n w j ss :: nat
  assumes "w dvd ss" "0 < ss" "0 < w" "j < w"
  shows "(w * n + j) div ss = n div (ss div w)" "(w * n + j) mod ss = w * (n mod (ss div w)) + j"
proof -
  obtain m where m: "ss = w * m" using assms(1) by (auto simp: dvd_def)
  then have mp: "0 < m" "ss div w = m" using assms by auto
  have r: "w * (n mod m) + j < w * m"
  proof -
    have "w * (n mod m) + j < w * (n mod m) + w" using assms(4) by simp
    also have "\<dots> = w * Suc (n mod m)" by simp
    also have "\<dots> \<le> w * m" using mp(1) by (intro mult_le_mono2) (simp add: Suc_leI)
    finally show ?thesis .
  qed
  have e: "w * n + j = (w * (n mod m) + j) + (w * m) * (n div m)"
    using mod_mult_div_eq [of n m] by (metis add.assoc add.commute distrib_left mult.assoc)
  have "(w * n + j) div ss = n div m"
    unfolding e m using r mp(1) assms(3) by (subst div_mult_self2) (auto simp: div_less)
  then show "(w * n + j) div ss = n div (ss div w)" using mp(2) by simp
  have "(w * n + j) mod ss = w * (n mod m) + j"
    unfolding e m using r by (subst mod_mult_self2) (simp add: mod_less)
  then show "(w * n + j) mod ss = w * (n mod (ss div w)) + j" using mp(2) by simp
qed

lemma cell_lba_stride:
  assumes "fat_geom fs fat b" "w dvd 4" "0 < w" "j < w" shows "cell_lba fs fat (w * n + j) = cell_lba fs fat (w * n)"
  using stride_cell(1) [of w "ssize fs" j n] stride_cell(1) [of w "ssize fs" 0 n] assms
  by (simp add: cell_lba_def fat_geom_def dvd_trans)

lemma stride_div_size:
  assumes g: "fat_geom fs fat b" and w: "w = 2 \<or> w = (4 :: nat)" and e: "w * unat e < 2 ^ 30"
    and sh: "n = drop_bit (if w = 2 then 1 else 2) (ucast (sector_size fs))"
  shows "\<exists>s i. div_size e n = Ok (s, i) \<and> (\<forall>j < w. fat_lba fs fat s = cell_lba fs fat (w * unat e + j) \<and>
      unat (of_nat w * i + of_nat j) = (w * unat e + j) mod ssize fs)"
proof -
  have s16: "ssize fs < 65536" using unsigned_less [of "sector_size fs", where ?'a = nat] by simp
  have ss: "0 < ssize fs" "4 dvd ssize fs" using g by (simp_all add: fat_geom_def)
  then have wd: "w dvd ssize fs" "0 < w" using w by auto
  have un: "unat n = ssize fs div w"
    using w sh s16 by (auto simp: drop_bit_eq_div unat_div unsigned_ucast_eq take_bit_nat_eq_self)
  have "0 < ssize fs div w" using wd ss(1) by (simp add: div_greater_zero_iff dvd_imp_le)
  then have nz: "n \<noteq> 0" using un by (metis less_numeral_extra(3) unat_0)
  let ?s = "e div n" and ?i = "e mod n"
  have us: "?s = of_nat (unat e div (ssize fs div w))" by (simp add: un [symmetric] unat_div [symmetric])
  have ui: "unat ?i = unat e mod (ssize fs div w)" using un by (simp add: unat_mod)
  have "fat_lba fs fat ?s = cell_lba fs fat (w * unat e + j) \<and> unat (of_nat w * ?i + of_nat j) = (w * unat e + j) mod ssize fs"
    if j: "j < w" for j
  proof -
    note sc = stride_cell [OF wd(1) ss(1) wd(2) j, of "unat e"]
    have lt: "w * (unat e mod (ssize fs div w)) + j < 65536"
      using sc(2) ss(1) s16 by (metis le_less_trans less_imp_le mod_less_divisor order.strict_trans)
    have "unat (of_nat w * ?i + of_nat j :: u32) = w * unat ?i + j"
      using w j lt ui by (auto simp: unat_word_ariths)
    then show ?thesis using sc us ui by (simp add: cell_lba_def)
  qed
  then show ?thesis using nz by (intro exI [of _ ?s] exI [of _ ?i]) (simp add: div_size_def)
qed

lemma read16_cells:
  assumes g: "fat_geom fs fat b" and e: "e \<le> FAT16_MAX_CLUSTER" and av: "avail fs fat b (2 * unat e)"
  shows "read_fat_entry16 fs fat e b =
    Ok (STATUS_SUCCESS, Some (dec16 (cell fs fat b (2 * unat e)) (cell fs fat b (2 * unat e + 1))), b)"
proof -
  let ?k = "2 * unat e"
  have small: "2 * unat e < 2 ^ 30" using e by (simp add: word_le_nat_alt)
  obtain s i where d: "div_size e (drop_bit 1 (ucast (sector_size fs))) = Ok (s, i)"
     "\<forall>j < 2. fat_lba fs fat s = cell_lba fs fat (?k + j) \<and> unat (of_nat 2 * i + of_nat j) = (?k + j) mod ssize fs"
    using stride_div_size [OF g, of 2 e] small by auto
  have d0: "fat_lba fs fat s = cell_lba fs fat ?k" "unat (2 * i) = ?k mod ssize fs"
    and d1: "fat_lba fs fat s = cell_lba fs fat (?k + 1)" "unat (2 * i + 1) = (?k + 1) mod ssize fs"
    using d(2) [rule_format, of 0] d(2) [rule_format, of 1] by simp_all
  have nb: "\<not> bad_fat fs fat" using g by (simp add: fat_geom_def)
  have ne: "\<not> FAT16_MAX_CLUSTER < e" using e by (simp add: not_less)
  have gg: "get8 (fat_lba fs fat s) (2 * i) b' = Ok (cell fs fat b' ?k)"
      "get8 (fat_lba fs fat s) (2 * i + 1) b' = Ok (cell fs fat b' (?k + 1))" if "fat_geom fs fat b'" for b'
    by (rule get8_cell [OF that d0(2,1)], rule get8_cell [OF that d1(2,1)])
  show ?thesis
    using d(1) ne nb av g d0(1) gg by (simp add: read_fat_entry16_def fetch_ok get16_def dec16_def Let_def)
qed

lemma write16_cells:
  assumes g: "fat_geom fs fat b" and e: "e \<le> FAT16_MAX_CLUSTER" and v: "v \<le> FAT16_END_CLUSTER"
    and av: "avail fs fat b (2 * unat e)"
  shows "write_fat_entry16 fs fat e v b = Ok (STATUS_SUCCESS, mark (cell_lba fs fat (2 * unat e))
    (put_cell fs fat (2 * unat e + 1) (ucast (drop_bit 8 (ucast v :: u16))) (put_cell fs fat (2 * unat e) (ucast (ucast v :: u16)) b)))"
proof -
  let ?k = "2 * unat e"
  have small: "2 * unat e < 2 ^ 30" using e by (simp add: word_le_nat_alt)
  obtain s i where d: "div_size e (drop_bit 1 (ucast (sector_size fs))) = Ok (s, i)"
     "\<forall>j < 2. fat_lba fs fat s = cell_lba fs fat (?k + j) \<and> unat (of_nat 2 * i + of_nat j) = (?k + j) mod ssize fs"
    using stride_div_size [OF g, of 2 e] small by auto
  have d0: "fat_lba fs fat s = cell_lba fs fat ?k" "unat (2 * i) = ?k mod ssize fs"
    and d1: "fat_lba fs fat s = cell_lba fs fat (?k + 1)" "unat (2 * i + 1) = (?k + 1) mod ssize fs"
    using d(2) [rule_format, of 0] d(2) [rule_format, of 1] by simp_all
  have nb: "\<not> bad_fat fs fat" using g by (simp add: fat_geom_def)
  have ne: "\<not> FAT16_MAX_CLUSTER < e" "\<not> FAT16_END_CLUSTER < v" using e v by (simp_all add: not_less)
  have gg: "set8 (fat_lba fs fat s) (2 * i) w b' = Ok (put_cell fs fat ?k w b')"
      "set8 (fat_lba fs fat s) (2 * i + 1) w b' = Ok (put_cell fs fat (?k + 1) w b')" if "fat_geom fs fat b'" for b' w
    by (rule set8_cell [OF that d0(2,1)], rule set8_cell [OF that d1(2,1)])
  show ?thesis
    using d(1) ne nb av g d0(1) gg by (simp add: write_fat_entry16_def fetch_ok set16_def Let_def)
qed

lemma cells32:
  assumes g: "fat_geom fs fat b" and e: "e \<le> FAT32_MAX_CLUSTER"
  shows "\<exists>s i. div_size e (drop_bit 2 (ucast (sector_size fs))) = Ok (s, i) \<and>
    (\<forall>j < 4. fat_lba fs fat s = cell_lba fs fat (4 * unat e + j)) \<and>
    unat (4 * i) = (4 * unat e) mod ssize fs \<and> unat (4 * i + 1) = (4 * unat e + 1) mod ssize fs \<and>
    unat (4 * i + 2) = (4 * unat e + 2) mod ssize fs \<and> unat (4 * i + 3) = (4 * unat e + 3) mod ssize fs"
proof -
  have small: "4 * unat e < 2 ^ 30" using e by (simp add: word_le_nat_alt)
  obtain s i where d: "div_size e (drop_bit 2 (ucast (sector_size fs))) = Ok (s, i)"
     "\<forall>j < 4. fat_lba fs fat s = cell_lba fs fat (4 * unat e + j) \<and> unat (of_nat 4 * i + of_nat j) = (4 * unat e + j) mod ssize fs"
    using stride_div_size [OF g, of 4 e] small by auto
  have "unat (4 * i + of_nat j) = (4 * unat e + j) mod ssize fs" if "j < 4" for j using d(2) that by simp
  from this [of 0] this [of 1] this [of 2] this [of 3] show ?thesis using d by auto
qed

lemma read32_cells:
  assumes g: "fat_geom fs fat b" and e: "e \<le> FAT32_MAX_CLUSTER" and av: "avail fs fat b (4 * unat e)"
  shows "read_fat_entry32 fs fat e b =
    Ok (STATUS_SUCCESS, Some (dec32 (cell fs fat b (4 * unat e)) (cell fs fat b (4 * unat e + 1))
      (cell fs fat b (4 * unat e + 2)) (cell fs fat b (4 * unat e + 3)) AND 0x0FFFFFFF), b)"
proof -
  let ?k = "4 * unat e"
  obtain s i where d: "div_size e (drop_bit 2 (ucast (sector_size fs))) = Ok (s, i)"
    "\<forall>j < 4. fat_lba fs fat s = cell_lba fs fat (?k + j)"
    "unat (4 * i) = ?k mod ssize fs" "unat (4 * i + 1) = (?k + 1) mod ssize fs"
    "unat (4 * i + 2) = (?k + 2) mod ssize fs" "unat (4 * i + 3) = (?k + 3) mod ssize fs"
    using cells32 [OF g e] by blast
  have l: "fat_lba fs fat s = cell_lba fs fat ?k" "fat_lba fs fat s = cell_lba fs fat (?k + 1)"
    "fat_lba fs fat s = cell_lba fs fat (?k + 2)" "fat_lba fs fat s = cell_lba fs fat (?k + 3)"
    using d(2) [rule_format, of 0] d(2) [rule_format, of 1] d(2) [rule_format, of 2] d(2) [rule_format, of 3] by simp_all
  have nb: "\<not> bad_fat fs fat" using g by (simp add: fat_geom_def)
  have ne: "\<not> FAT32_MAX_CLUSTER < e" using e by (simp add: not_less)
  have gg: "get8 (fat_lba fs fat s) (4 * i) b' = Ok (cell fs fat b' ?k)" "get8 (fat_lba fs fat s) (4 * i + 1) b' = Ok (cell fs fat b' (?k + 1))"
      "get8 (fat_lba fs fat s) (4 * i + 2) b' = Ok (cell fs fat b' (?k + 2))" "get8 (fat_lba fs fat s) (4 * i + 3) b' = Ok (cell fs fat b' (?k + 3))"
    if "fat_geom fs fat b'" for b'
    using get8_cell [OF that d(3) l(1)] get8_cell [OF that d(4) l(2)] get8_cell [OF that d(5) l(3)] get8_cell [OF that d(6) l(4)] by simp_all
  show ?thesis
    using d(1) ne nb av g l(1) gg by (simp add: read_fat_entry32_def fetch_ok get32_def dec32_def Let_def)
qed

lemma write32_cells:
  assumes g: "fat_geom fs fat b" and e: "e \<le> FAT32_MAX_CLUSTER" and v: "v \<le> FAT32_END_CLUSTER" and av: "avail fs fat b (4 * unat e)"
  shows "write_fat_entry32 fs fat e v b = Ok (STATUS_SUCCESS, mark (cell_lba fs fat (4 * unat e)) (put32 fs fat (4 * unat e)
    ((dec32 (cell fs fat b (4 * unat e)) (cell fs fat b (4 * unat e + 1))
      (cell fs fat b (4 * unat e + 2)) (cell fs fat b (4 * unat e + 3)) AND 0xF0000000) OR (v AND 0x0FFFFFFF)) b))"
proof -
  let ?k = "4 * unat e"
  obtain s i where d: "div_size e (drop_bit 2 (ucast (sector_size fs))) = Ok (s, i)"
    "\<forall>j < 4. fat_lba fs fat s = cell_lba fs fat (?k + j)"
    "unat (4 * i) = ?k mod ssize fs" "unat (4 * i + 1) = (?k + 1) mod ssize fs"
    "unat (4 * i + 2) = (?k + 2) mod ssize fs" "unat (4 * i + 3) = (?k + 3) mod ssize fs"
    using cells32 [OF g e] by blast
  have l: "fat_lba fs fat s = cell_lba fs fat ?k" "fat_lba fs fat s = cell_lba fs fat (?k + 1)"
    "fat_lba fs fat s = cell_lba fs fat (?k + 2)" "fat_lba fs fat s = cell_lba fs fat (?k + 3)"
    using d(2) [rule_format, of 0] d(2) [rule_format, of 1] d(2) [rule_format, of 2] d(2) [rule_format, of 3] by simp_all
  have nb: "\<not> bad_fat fs fat" using g by (simp add: fat_geom_def)
  have ne: "\<not> FAT32_MAX_CLUSTER < e" "\<not> FAT32_END_CLUSTER < v" using e v by (simp_all add: not_less)
  have gg: "get8 (fat_lba fs fat s) (4 * i) b' = Ok (cell fs fat b' ?k)" "get8 (fat_lba fs fat s) (4 * i + 1) b' = Ok (cell fs fat b' (?k + 1))"
      "get8 (fat_lba fs fat s) (4 * i + 2) b' = Ok (cell fs fat b' (?k + 2))" "get8 (fat_lba fs fat s) (4 * i + 3) b' = Ok (cell fs fat b' (?k + 3))"
      "set8 (fat_lba fs fat s) (4 * i) w b' = Ok (put_cell fs fat ?k w b')" "set8 (fat_lba fs fat s) (4 * i + 1) w b' = Ok (put_cell fs fat (?k + 1) w b')"
      "set8 (fat_lba fs fat s) (4 * i + 2) w b' = Ok (put_cell fs fat (?k + 2) w b')" "set8 (fat_lba fs fat s) (4 * i + 3) w b' = Ok (put_cell fs fat (?k + 3) w b')"
    if "fat_geom fs fat b'" for b' w
    using get8_cell [OF that d(3) l(1)] get8_cell [OF that d(4) l(2)] get8_cell [OF that d(5) l(3)] get8_cell [OF that d(6) l(4)]
      set8_cell [OF that d(3) l(1)] set8_cell [OF that d(4) l(2)] set8_cell [OF that d(5) l(3)] set8_cell [OF that d(6) l(4)] by simp_all
  show ?thesis
    using d(1) ne nb av g l(1) gg
    by (simp add: write_fat_entry32_def fetch_ok get32_def set32_def dec32_def put32_def Let_def)
qed

lemma dec32_bytes: "dec32 (ucast w) (ucast (drop_bit 8 w)) (ucast (drop_bit 16 w)) (ucast (drop_bit 24 w)) = w"
proof (rule bit_word_eqI)
  fix n assume "n < LENGTH(32)"
  then have n: "n < 32" by simp
  consider "n < 8" | "8 \<le> n" "n < 16" | "16 \<le> n" "n < 24" | "24 \<le> n" by linarith
  then show "bit (dec32 (ucast w) (ucast (drop_bit 8 w)) (ucast (drop_bit 16 w)) (ucast (drop_bit 24 w))) n = bit w n"
    using n unfolding dec32_def by cases (auto simp: bit_simps)
qed

lemma dec16_bytes:
  assumes "v \<le> FAT16_END_CLUSTER"
  shows "dec16 (ucast (ucast v :: u16)) (ucast (drop_bit 8 (ucast v :: u16))) = v"
proof -
  have "v < 2 ^ 16" using assms by (simp add: word_le_nat_alt word_less_nat_alt)
  then have "take_bit 16 v = v" by (rule word_less_exp_take_bit) simp
  then have b: "\<And>n. bit v n \<Longrightarrow> n < 16" by (metis bit_take_bit_iff)
  show ?thesis unfolding dec16_def by (intro bit_word_eqI) (auto simp: bit_simps dest: b)
qed

lemma all_marked_refl [simp]: "all_marked b b"
  by (simp add: all_marked_def)

lemma all_marked_trans: "all_marked b b1 \<Longrightarrow> all_marked b1 b2 \<Longrightarrow> all_marked b b2"
  unfolding all_marked_def by (metis subsetD subset_trans)

lemma all_marked_put:
  "all_marked b b' \<Longrightarrow> cell_lba fs fat k \<in> blk_dirty b' \<Longrightarrow> all_marked b (put_cell fs fat k v b')"
  by (auto simp: all_marked_def put_cell_def)

section \<open>The table as a map\<close>

text \<open>
  What the entry functions of a file system promise: \<open>tbl b e\<close> is the entry \<open>e\<close> of a copy of the
  table on the device.  Reading gives it and changes nothing, writing changes that entry only.
\<close>

locale fat_table =
  fixes rd :: "u32 \<Rightarrow> blk \<Rightarrow> (status \<times> u32 option \<times> blk) outcome"
    and wr :: "u32 \<Rightarrow> u32 \<Rightarrow> blk \<Rightarrow> (status \<times> blk) outcome"
    and ok :: "blk \<Rightarrow> bool" and region :: "u32 set" and entries :: "u32 set" and vals :: "u32 set"
    and tbl :: "blk \<Rightarrow> u32 \<Rightarrow> u32"
  assumes read_law: "ok b \<Longrightarrow> e \<in> entries \<Longrightarrow> rd e b = Ok (STATUS_SUCCESS, Some (tbl b e), b)"
    and write_law: "ok b \<Longrightarrow> e \<in> entries \<Longrightarrow> v \<in> vals \<Longrightarrow>
      \<exists>b'. wr e v b = Ok (STATUS_SUCCESS, b') \<and> ok b' \<and> blk_pins b' = blk_pins b \<and> same_outside region b b' \<and>
           all_marked b b' \<and> (\<forall>e' \<in> entries. tbl b' e' = (if e' = e then v else tbl b e'))"
    and region_law: "ok b \<Longrightarrow> (\<forall>lba \<in> region. blk_data b lba = blk_data b' lba) \<Longrightarrow> e \<in> entries \<Longrightarrow> tbl b e = tbl b' e"
begin

text \<open>After any sequence of writes a read returns the last value written to the entry.\<close>

lemma read_after_writes:
  assumes "ok b" and "\<forall>(e, v) \<in> set ws. e \<in> entries \<and> v \<in> vals" and "e \<in> entries"
  shows "\<exists>b'. status_loop (\<lambda>(e, v). wr e v) ws b = Ok (STATUS_SUCCESS, b') \<and> ok b' \<and> blk_pins b' = blk_pins b \<and>
    same_outside region b b' \<and> all_marked b b' \<and>
    rd e b' = Ok (STATUS_SUCCESS, Some (case map_of (rev ws) e of Some v \<Rightarrow> v | None \<Rightarrow> tbl b e), b')"
  using assms
proof (induction ws arbitrary: b)
  case Nil
  then show ?case using read_law by (simp add: same_outside_def all_marked_def)
next
  case (Cons w ws)
  obtain e1 v1 where w: "w = (e1, v1)" by (cases w)
  obtain b1 where b1: "wr e1 v1 b = Ok (STATUS_SUCCESS, b1)" "ok b1" "blk_pins b1 = blk_pins b" "same_outside region b b1" "all_marked b b1"
    "\<forall>e' \<in> entries. tbl b1 e' = (if e' = e1 then v1 else tbl b e')"
    using write_law [OF Cons.prems(1), of e1 v1] Cons.prems(2) w by auto
  obtain b' where b': "status_loop (\<lambda>(e, v). wr e v) ws b1 = Ok (STATUS_SUCCESS, b')" "ok b'" "blk_pins b' = blk_pins b1" "same_outside region b1 b'" "all_marked b1 b'"
    "rd e b' = Ok (STATUS_SUCCESS, Some (case map_of (rev ws) e of Some v \<Rightarrow> v | None \<Rightarrow> tbl b1 e), b')"
    using Cons.IH [OF b1(2)] Cons.prems(2,3) by auto
  have "(case map_of (rev (w # ws)) e of Some v \<Rightarrow> v | None \<Rightarrow> tbl b e) =
      (case map_of (rev ws) e of Some v \<Rightarrow> v | None \<Rightarrow> tbl b1 e)"
    using b1(6) Cons.prems(3) w by (auto simp: map_add_def split: option.splits)
  moreover have "same_outside region b b'" using b1(4) b'(4) by (simp add: same_outside_def)
  moreover have "all_marked b b'" using b1(5) b'(5) all_marked_trans by blast
  ultimately show ?case using b1 b' w by auto
qed

end

lemma put_cell_dirty [simp]: "blk_dirty (put_cell fs fat k v b) = blk_dirty b"
  by (simp add: put_cell_def)

lemma fat_ok_mark [simp]: "fat_ok fs fat (mark l b) = fat_ok fs fat b"
  by (simp add: fat_ok_def)

lemma tbl_mark [simp]: "tbl12 fs fat (mark l b) = tbl12 fs fat b" "tbl16 fs fat (mark l b) = tbl16 fs fat b"
  "tbl32 fs fat (mark l b) = tbl32 fs fat b"
  by (simp_all add: tbl12_def [abs_def] tbl16_def [abs_def] tbl32_def [abs_def])

lemma fat_ok_put [simp]: "fat_ok fs fat (put_cell fs fat' k v b) = fat_ok fs fat b"
  by (simp add: fat_ok_def)

lemma odd_word: "e AND 1 \<noteq> 0 \<longleftrightarrow> odd (unat e)" for e :: u32
proof -
  have "unat (e AND 1) = unat e mod 2" by (simp add: and_one_eq unat_mod)
  then have "odd (unat e) \<longleftrightarrow> unat (e AND 1) \<noteq> 0" by presburger
  then show ?thesis by (simp add: word_unat_eq_iff)
qed

lemma half_sum_mono: "(n :: nat) < m \<Longrightarrow> n + n div 2 < m + m div 2"
  by (simp add: add_less_le_mono div_le_mono)

lemma half_sum_inj: "(n :: nat) + n div 2 = m + m div 2 \<longleftrightarrow> n = m"
  using half_sum_mono [of n m] half_sum_mono [of m n] by (cases n m rule: linorder_cases) auto

lemma half_sum_step:
  assumes "(m :: nat) + m div 2 = n + n div 2 + 1" shows "even n \<and> odd m"
proof -
  have gt: "n < m" using assms half_sum_mono [of m n] by (cases n m rule: linorder_cases) auto
  have "m < n + 2"
  proof (rule ccontr)
    assume "\<not> m < n + 2"
    then have "(n + 2) + (n + 2) div 2 \<le> m + m div 2" by (intro add_mono div_le_mono) auto
    then show False using assms by simp
  qed
  then have "m = Suc n" using gt by simp
  then have "Suc n div 2 = n div 2" using assms by simp
  then have "even n" by (metis Suc_n_not_le_n div_Suc dvd_eq_mod_eq_0 even_Suc_div_two odd_Suc_div_two order_refl)
  then show ?thesis using \<open>m = Suc n\<close> by simp
qed

lemma tbl12_write:
  assumes g: "fat_geom fs fat b" and e: "e \<le> FAT12_MAX_CLUSTER" "e' \<le> FAT12_MAX_CLUSTER" and v: "v \<le> FAT12_END_CLUSTER"
  shows "tbl12 fs fat (put_cell fs fat (pos12 e) (low12 e v (cell fs fat b (pos12 e)))
      (put_cell fs fat (pos12 e + 1) (high12 e v (cell fs fat b (pos12 e + 1))) b)) e' =
    (if e' = e then v else tbl12 fs fat b e')"
proof -
  note k = pos12_word(2) [OF e(1)] pos12_word(2) [OF e(2)]
  have c: "cell fs fat (put_cell fs fat (pos12 e) x (put_cell fs fat (pos12 e + 1) y b)) j =
      (if j = pos12 e then x else if j = pos12 e + 1 then y else cell fs fat b j)" if "j < 2 ^ 31" for x y j
    using cell_put_cell [of fs fat "put_cell fs fat (pos12 e + 1) y b" j "pos12 e" x]
      cell_put_cell [OF g that, of "pos12 e + 1" y] g that k by simp
  show ?thesis
  proof (cases "e' = e")
    case True
    then show ?thesis using c [of "pos12 e"] c [of "pos12 e + 1"] k dec12_written [OF v] by (simp add: tbl12_def)
  next
    case False
    then have ne: "unat e' \<noteq> unat e" by (simp add: word_unat_eq_iff)
    have c0: "cell fs fat (put_cell fs fat (pos12 e) x (put_cell fs fat (pos12 e + 1) y b)) (pos12 e') =
        (if pos12 e' = pos12 e + 1 then y else cell fs fat b (pos12 e'))" for x y
    proof -
      have "pos12 e' \<noteq> pos12 e" using ne half_sum_inj by (simp add: pos12_def)
      then show ?thesis using c [of "pos12 e'"] k by simp
    qed
    have c1: "cell fs fat (put_cell fs fat (pos12 e) x (put_cell fs fat (pos12 e + 1) y b)) (pos12 e' + 1) =
        (if pos12 e' + 1 = pos12 e then x else cell fs fat b (pos12 e' + 1))" for x y
    proof -
      have "pos12 e' \<noteq> pos12 e" using ne half_sum_inj by (simp add: pos12_def)
      then show ?thesis using c [of "pos12 e' + 1"] k by simp
    qed
    have h: "e AND 1 = 0 \<and> e' AND 1 \<noteq> 0" if "pos12 e' = pos12 e + 1"
    proof -
      have "even (unat e) \<and> odd (unat e')" using that half_sum_step by (simp add: pos12_def)
      then show ?thesis using odd_word [of e] odd_word [of e'] by auto
    qed
    have l: "e AND 1 \<noteq> 0 \<and> e' AND 1 = 0" if "pos12 e' + 1 = pos12 e"
    proof -
      have "odd (unat e) \<and> even (unat e')" using that half_sum_step [of "unat e" "unat e'"] by (simp add: pos12_def)
      then show ?thesis using odd_word [of e] odd_word [of e'] by auto
    qed
    consider "pos12 e' = pos12 e + 1" | "pos12 e' + 1 = pos12 e" | "pos12 e' \<noteq> pos12 e + 1" "pos12 e' + 1 \<noteq> pos12 e"
      by blast
    then show ?thesis
    proof cases
      case 1
      then show ?thesis
        using False c0 c1 dec12_shared(1) [of e e' v] h [OF 1] unfolding tbl12_def by simp
    next
      case 2
      then show ?thesis
        using False c0 c1 dec12_shared(2) [of e e' _ v] l [OF 2] unfolding tbl12_def by simp
    next
      case 3
      then show ?thesis using False c0 c1 unfolding tbl12_def by simp
    qed
  qed
qed

lemma tbl16_write:
  assumes g: "fat_geom fs fat b" and e: "e \<le> FAT16_MAX_CLUSTER" "e' \<le> FAT16_MAX_CLUSTER" and v: "v \<le> FAT16_END_CLUSTER"
  shows "tbl16 fs fat (put_cell fs fat (2 * unat e + 1) (ucast (drop_bit 8 (ucast v :: u16)))
      (put_cell fs fat (2 * unat e) (ucast (ucast v :: u16)) b)) e' = (if e' = e then v else tbl16 fs fat b e')"
proof -
  have n: "unat e \<le> 0xFFF4" "unat e' \<le> 0xFFF4" using e by (simp_all add: word_le_nat_alt)
  have c: "cell fs fat (put_cell fs fat (2 * unat e + 1) y (put_cell fs fat (2 * unat e) x b)) j =
      (if j = 2 * unat e + 1 then y else if j = 2 * unat e then x else cell fs fat b j)" if "j < 2 ^ 31" for x y j
    using cell_put_cell [of fs fat "put_cell fs fat (2 * unat e) x b" j "2 * unat e + 1" y]
      cell_put_cell [OF g that, of "2 * unat e" x] g that n by simp
  show ?thesis
  proof (cases "e' = e")
    case True
    then show ?thesis using c [of "2 * unat e"] c [of "2 * unat e + 1"] n dec16_bytes [OF v] by (simp add: tbl16_def)
  next
    case False
    then have "unat e' \<noteq> unat e" by (simp add: word_unat_eq_iff)
    then have "2 * unat e' \<noteq> 2 * unat e + 1" "2 * unat e' \<noteq> 2 * unat e" "2 * unat e' + 1 \<noteq> 2 * unat e" by presburger+
    then show ?thesis using c [of "2 * unat e'"] c [of "2 * unat e' + 1"] n False by (simp add: tbl16_def)
  qed
qed

lemma cell_put32:
  assumes g: "fat_geom fs fat b" and "k + 3 < 2 ^ 31" "j < 2 ^ 31"
  shows "cell fs fat (put32 fs fat k w b) j = (if j = k then ucast w else if j = k + 1 then ucast (drop_bit 8 w)
     else if j = k + 2 then ucast (drop_bit 16 w) else if j = k + 3 then ucast (drop_bit 24 w) else cell fs fat b j)"
  using assms by (simp add: put32_def cell_put_cell)

lemma or_field_32: "v \<le> FAT32_END_CLUSTER \<Longrightarrow> ((w AND 0xF0000000) OR (v AND 0x0FFFFFFF)) AND 0x0FFFFFFF = v" for v w :: u32
proof -
  assume "v \<le> FAT32_END_CLUSTER"
  then have "v < 2 ^ 28" by (simp add: word_le_nat_alt word_less_nat_alt)
  then have "take_bit 28 v = v" by (rule word_less_exp_take_bit) simp
  then have b: "\<And>n. bit v n \<Longrightarrow> n < 28" by (metis bit_take_bit_iff)
  have m: "(0x0FFFFFFF :: u32) = mask 28" "(0xF0000000 :: u32) = push_bit 28 (mask 4)"
    by (simp_all add: mask_eq_exp_minus_1 push_bit_eq_mult)
  show ?thesis unfolding m by (intro bit_word_eqI) (auto simp: bit_simps dest: b)
qed

lemma tbl32_write:
  assumes g: "fat_geom fs fat b" and e: "e \<le> FAT32_MAX_CLUSTER" "e' \<le> FAT32_MAX_CLUSTER" and v: "v \<le> FAT32_END_CLUSTER"
  shows "tbl32 fs fat (put32 fs fat (4 * unat e) ((x AND 0xF0000000) OR (v AND 0x0FFFFFFF)) b) e' =
    (if e' = e then v else tbl32 fs fat b e')"
proof -
  have n: "unat e \<le> 0x0FFFFFF6" "unat e' \<le> 0x0FFFFFF6" using e by (simp_all add: word_le_nat_alt)
  have k: "4 * unat e + 3 < 2 ^ 31" using n by simp
  show ?thesis
  proof (cases "e' = e")
    case True
    have "tbl32 fs fat (put32 fs fat (4 * unat e) w b) e = w AND 0x0FFFFFFF" for w
      using cell_put32 [OF g k, of _ w] n dec32_bytes [of w] by (simp add: tbl32_def)
    then show ?thesis using True or_field_32 [OF v] by simp
  next
    case False
    then have "unat e' \<noteq> unat e" by (simp add: word_unat_eq_iff)
    then have "4 * unat e' + i \<noteq> 4 * unat e + j" if "i < 4" "j < 4" for i j using that by presburger
    from this [of 0 0] this [of 0 1] this [of 0 2] this [of 0 3] this [of 1 0] this [of 1 1] this [of 1 2] this [of 1 3]
      this [of 2 0] this [of 2 1] this [of 2 2] this [of 2 3] this [of 3 0] this [of 3 1] this [of 3 2] this [of 3 3]
    show ?thesis using cell_put32 [OF g k] n False by (simp add: tbl32_def)
  qed
qed

lemma put32_keeps [simp]: "fat_ok fs fat (put32 fs fat' k w b) = fat_ok fs fat b" "blk_pins (put32 fs fat' k w b) = blk_pins b"
  by (simp_all add: put32_def)

lemma cell_lba_region:
  assumes "in_table fs k" shows "cell_lba fs fat k \<in> fat_region fs fat"
proof -
  have "k div ssize fs < 2 ^ 32" using assms unat_u32_less [of "fat_size fs"] by (simp add: in_table_def)
  then have "(of_nat (k div ssize fs) :: u32) < fat_size fs"
    using assms by (simp add: in_table_def word_less_nat_alt)
  then show ?thesis by (simp add: cell_lba_def fat_region_def)
qed

lemma in_table_mono: "in_table fs k \<Longrightarrow> j \<le> k \<Longrightarrow> in_table fs j"
  unfolding in_table_def using div_le_mono [of j k "ssize fs"] by simp

lemma fat_ok_avail: "fat_ok fs fat b \<Longrightarrow> in_table fs k \<Longrightarrow> j \<le> k \<Longrightarrow> avail fs fat b j"
  using cell_lba_region in_table_mono by (auto simp: fat_ok_def)

lemma same_outside_refl [simp]: "same_outside R b b"
  by (simp add: same_outside_def)

lemma same_outside_mark [simp]: "same_outside R b (mark l b') = same_outside R b b'"
  by (simp add: same_outside_def)

text \<open>Writing the marked blocks.\<close>

lemma all_marked_mark: "all_marked b b' \<Longrightarrow> all_marked b (mark l b')"
  by (auto simp: all_marked_def)

lemma all_marked_mark_put:
  assumes "all_marked b (mark l b')" "cell_lba fs fat k = l" shows "all_marked b (mark l (put_cell fs fat k v b'))"
  using all_marked_put [OF assms(1), of fs fat k v] assms(2) by simp

lemma all_marked_cells:
  "all_marked b (mark (cell_lba fs fat k) (mark (cell_lba fs fat j) (put_cell fs fat k v (put_cell fs fat j w b))))"
  "cell_lba fs fat j = cell_lba fs fat k \<Longrightarrow>
     all_marked b (mark (cell_lba fs fat k) (put_cell fs fat j w (put_cell fs fat k v b)))"
  by (simp_all add: all_marked_def put_cell_def mark_def subset_insertI subset_insertI2)

lemma same_outside_put: "in_table fs k \<Longrightarrow> same_outside (fat_region fs fat) b b' \<Longrightarrow> same_outside (fat_region fs fat) b (put_cell fs fat k v b')"
  using cell_lba_region [of fs k fat] by (auto simp: same_outside_def put_cell_def)

lemma cell_region: "\<forall>lba \<in> fat_region fs fat. blk_data b lba = blk_data b' lba \<Longrightarrow> in_table fs k \<Longrightarrow> cell fs fat b k = cell fs fat b' k"
  using cell_lba_region [of fs k fat] by (simp add: cell_def)

interpretation fat12: fat_table "read_fat_entry12 fs fat" "write_fat_entry12 fs fat" "fat_ok fs fat" "fat_region fs fat"
    "{e. e \<le> FAT12_MAX_CLUSTER \<and> in_table fs (pos12 e + 1)}" "{v. v \<le> FAT12_END_CLUSTER}" "tbl12 fs fat" for fs fat
proof (unfold_locales, goal_cases)
  case (1 b e)
  then show ?case using read12_cells [of fs fat b e] fat_ok_avail [of fs fat b "pos12 e + 1"]
    by (simp add: fat_ok_def tbl12_def)
next
  case (2 b e v)
  then have t: "in_table fs (pos12 e)" "in_table fs (pos12 e + 1)" using in_table_mono [of fs "pos12 e + 1"] by auto
  then show ?case
    using 2 write12_cells [of fs fat b e v] fat_ok_avail [of fs fat b "pos12 e + 1"] tbl12_write [of fs fat b e _ v]
    by (simp add: fat_ok_def same_outside_put all_marked_cells)
next
  case (3 b b' e)
  then show ?case using cell_region [OF 3(2)] in_table_mono [of fs "pos12 e + 1"] by (simp add: tbl12_def)
qed

interpretation fat16: fat_table "read_fat_entry16 fs fat" "write_fat_entry16 fs fat" "fat_ok fs fat" "fat_region fs fat"
    "{e. e \<le> FAT16_MAX_CLUSTER \<and> in_table fs (2 * unat e + 1)}" "{v. v \<le> FAT16_END_CLUSTER}" "tbl16 fs fat" for fs fat
proof (unfold_locales, goal_cases)
  case (1 b e)
  then show ?case using read16_cells [of fs fat b e] fat_ok_avail [of fs fat b "2 * unat e + 1"]
    by (simp add: fat_ok_def tbl16_def)
next
  case (2 b e v)
  then have t: "in_table fs (2 * unat e)" "in_table fs (2 * unat e + 1)" using in_table_mono [of fs "2 * unat e + 1"] by auto
  then show ?case
    using 2 write16_cells [of fs fat b e v] fat_ok_avail [of fs fat b "2 * unat e + 1"] tbl16_write [of fs fat b e _ v]
    using cell_lba_stride [of fs fat b 2 1 "unat e"]
    by (simp add: fat_ok_def same_outside_put all_marked_cells)
next
  case (3 b b' e)
  then show ?case using cell_region [OF 3(2)] in_table_mono [of fs "2 * unat e + 1"] by (simp add: tbl16_def)
qed

interpretation fat32: fat_table "read_fat_entry32 fs fat" "write_fat_entry32 fs fat" "fat_ok fs fat" "fat_region fs fat"
    "{e. e \<le> FAT32_MAX_CLUSTER \<and> in_table fs (4 * unat e + 3)}" "{v. v \<le> FAT32_END_CLUSTER}" "tbl32 fs fat" for fs fat
proof (unfold_locales, goal_cases)
  case (1 b e)
  then show ?case using read32_cells [of fs fat b e] fat_ok_avail [of fs fat b "4 * unat e + 3"]
    by (simp add: fat_ok_def tbl32_def)
next
  case (2 b e v)
  let ?b = "mark (cell_lba fs fat (4 * unat e)) (put32 fs fat (4 * unat e) ((dec32 (cell fs fat b (4 * unat e)) (cell fs fat b (4 * unat e + 1))
      (cell fs fat b (4 * unat e + 2)) (cell fs fat b (4 * unat e + 3)) AND 0xF0000000) OR (v AND 0x0FFFFFFF)) b)"
  have t: "in_table fs (4 * unat e + j)" if "j \<le> 3" for j using 2 that in_table_mono [of fs "4 * unat e + 3"] by auto
  have "write_fat_entry32 fs fat e v b = Ok (STATUS_SUCCESS, ?b)"
    using 2 write32_cells [of fs fat b e v] fat_ok_avail [of fs fat b "4 * unat e + 3"] by (simp add: fat_ok_def)
  moreover have "fat_ok fs fat ?b" "blk_pins ?b = blk_pins b" using 2 by simp_all
  moreover have "same_outside (fat_region fs fat) b (mark (cell_lba fs fat (4 * unat e)) (put32 fs fat (4 * unat e) w b))" for w
    using t [of 0] t [of 1] t [of 2] t [of 3] by (simp add: put32_def same_outside_put)
  moreover have "all_marked b (mark (cell_lba fs fat (4 * unat e)) (put32 fs fat (4 * unat e) w b))" for w
    using 2 cell_lba_stride [of fs fat b 4 1 "unat e"] cell_lba_stride [of fs fat b 4 2 "unat e"]
      cell_lba_stride [of fs fat b 4 3 "unat e"]
    by (simp add: fat_ok_def put32_def all_marked_mark_put all_marked_mark)
  moreover have "\<forall>e' \<in> {e. e \<le> FAT32_MAX_CLUSTER \<and> in_table fs (4 * unat e + 3)}.
      tbl32 fs fat ?b e' = (if e' = e then v else tbl32 fs fat b e')"
    using 2 tbl32_write [of fs fat b e _ v] by (simp add: fat_ok_def)
  ultimately show ?case by blast
next
  case (3 b b' e)
  then show ?case using cell_region [OF 3(2)] in_table_mono [of fs "4 * unat e + 3"] by (simp add: tbl32_def)
qed

lemmas kind_defs = read_entry_of_def write_entry_of_def entries_of_def values_of_def table_of_def max_cluster_def
  end_cluster_def last_byte_def

text \<open>The functions that \<^verbatim>\<open>mount\<close> selects by type implement the table of each copy.\<close>

interpretation copy: fat_table "read_entry_of fs fat" "write_entry_of fs fat" "fat_ok fs fat" "fat_region fs fat"
    "entries_of fs" "values_of fs" "table_of fs fat" for fs fat
proof (cases "fat_type fs")
  case FT_FAT12
  then show "fat_table (read_entry_of fs fat) (write_entry_of fs fat) (fat_ok fs fat) (fat_region fs fat)
    (entries_of fs) (values_of fs) (table_of fs fat)" using fat12.fat_table_axioms [of fs fat] by (simp add: kind_defs)
next
  case FT_FAT16
  then show "fat_table (read_entry_of fs fat) (write_entry_of fs fat) (fat_ok fs fat) (fat_region fs fat)
    (entries_of fs) (values_of fs) (table_of fs fat)" using fat16.fat_table_axioms [of fs fat] by (simp add: kind_defs)
next
  case FT_FAT32
  then show "fat_table (read_entry_of fs fat) (write_entry_of fs fat) (fat_ok fs fat) (fat_region fs fat)
    (entries_of fs) (values_of fs) (table_of fs fat)" using fat32.fat_table_axioms [of fs fat] by (simp add: kind_defs)
qed

text \<open>Copies of the table do not overlap.\<close>

lemma unat_fat_lba:
  assumes "volume_ok fs b" and i: "i \<in> copies_of fs" and s: "s < fat_size fs"
  shows "unat (fat_lba fs i s) = unat (reserved_sectors fs) + nat i * unat (fat_size fs) + unat s"
proof -
  have n: "nat i < unat (fat_count fs)" using i by (auto simp: copies_of_def nat_less_iff)
  have "nat i * unat (fat_size fs) + unat s < Suc (nat i) * unat (fat_size fs)"
    using s by (simp add: word_less_nat_alt)
  also have "\<dots> \<le> unat (fat_count fs) * unat (fat_size fs)" using n by (intro mult_le_mono1) simp
  finally have lt: "unat (reserved_sectors fs) + nat i * unat (fat_size fs) + unat s < 2 ^ 32"
    using assms(1) by (simp add: volume_ok_def)
  have w: "fat_lba fs i s = of_nat (unat (reserved_sectors fs) + nat i * unat (fat_size fs) + unat s)"
    using i by (simp add: fat_lba_def copies_of_def)
  show ?thesis unfolding w by (rule unat_of_nat_u32 [OF lt])
qed

lemma regions_disjoint:
  assumes v: "volume_ok fs b" and i: "i \<in> copies_of fs" and j: "j \<in> copies_of fs" and ne: "i \<noteq> j"
  shows "fat_region fs i \<inter> fat_region fs j = {}"
proof -
  have False if s: "s < fat_size fs" "t < fat_size fs" and eq: "fat_lba fs i s = fat_lba fs j t" for s t
  proof -
    have e: "nat i * unat (fat_size fs) + unat s = nat j * unat (fat_size fs) + unat t"
      using unat_fat_lba [OF v i s(1)] unat_fat_lba [OF v j s(2)] eq by simp
    have "unat s < unat (fat_size fs)" "unat t < unat (fat_size fs)" using s by (simp_all add: word_less_nat_alt)
    then have "nat i = nat j" using e by (metis add.commute div_less div_mult_self1 add_cancel_right_left less_nat_zero_code)
    then show False using ne i j by (auto simp: copies_of_def)
  qed
  then show ?thesis by (auto simp: fat_region_def)
qed

lemma same_outside_trans:
  "same_outside R b b1 \<Longrightarrow> same_outside S b1 b2 \<Longrightarrow> same_outside (R \<union> S) b b2"
  by (simp add: same_outside_def)

lemma same_outside_mono: "same_outside R b b' \<Longrightarrow> R \<subseteq> S \<Longrightarrow> same_outside S b b'"
  by (auto simp: same_outside_def)

lemma same_outside_fat_ok: "same_outside R b b' \<Longrightarrow> fat_ok fs i b' = fat_ok fs i b"
  by (simp add: same_outside_def fat_ok_def fat_geom_def)

lemma same_outside_volume_ok: "same_outside R b b' \<Longrightarrow> volume_ok fs b' = volume_ok fs b"
  by (simp add: volume_ok_def same_outside_fat_ok [of R b b'])

lemma write_copy:
  assumes v: "volume_ok fs b" and i: "i \<in> copies_of fs" and e: "e \<in> entries_of fs" "val \<in> values_of fs"
  shows "\<exists>b'. write_entry_of fs i e val b = Ok (STATUS_SUCCESS, b') \<and> volume_ok fs b' \<and> blk_pins b' = blk_pins b \<and>
    same_outside (volume_region fs) b b' \<and> all_marked b b' \<and> mirrored fs {i} e val b b'"
proof -
  have "fat_ok fs i b" using v i by (simp add: volume_ok_def)
  then obtain b' where b': "write_entry_of fs i e val b = Ok (STATUS_SUCCESS, b')" "blk_pins b' = blk_pins b"
    "same_outside (fat_region fs i) b b'" "all_marked b b'"
    "\<forall>e' \<in> entries_of fs. table_of fs i b' e' = (if e' = e then val else table_of fs i b e')"
    using copy.write_law [of fs i b e val] e by blast
  have "table_of fs j b' e' = table_of fs j b e'" if j: "j \<in> copies_of fs" "j \<noteq> i" and e': "e' \<in> entries_of fs" for j e'
  proof (rule copy.region_law [OF _ _ e'], goal_cases)
    case 1
    show ?case using v j(1) same_outside_fat_ok [OF b'(3)] by (simp add: volume_ok_def)
  next
    case 2
    show ?case
    proof
      fix lba assume "lba \<in> fat_region fs j"
      then have "lba \<notin> fat_region fs i" using regions_disjoint [OF v j(1) i j(2)] by auto
      then show "blk_data b' lba = blk_data b lba" using b'(3) by (simp add: same_outside_def)
    qed
  qed
  then have "mirrored fs {i} e val b b'" unfolding mirrored_def using b'(5) by (metis singleton_iff)
  moreover have "same_outside (volume_region fs) b b'"
    using same_outside_mono [OF b'(3), of "volume_region fs"] i by (auto simp: volume_region_def)
  ultimately show ?thesis using b' v same_outside_volume_ok by blast
qed

lemma mirrored_trans: "mirrored fs I e v b b1 \<Longrightarrow> mirrored fs J e v b1 b2 \<Longrightarrow> mirrored fs (I \<union> J) e v b b2"
  by (auto simp: mirrored_def)

lemma write_copies_all:
  assumes "volume_ok fs b" and "set is \<subseteq> copies_of fs" and e: "e \<in> entries_of fs" "val \<in> values_of fs"
  shows "\<exists>b'. write_copies fs is e val b = Ok (STATUS_SUCCESS, b') \<and> volume_ok fs b' \<and> blk_pins b' = blk_pins b \<and>
    same_outside (volume_region fs) b b' \<and> all_marked b b' \<and> mirrored fs (set is) e val b b'"
  using assms(1,2)
proof (induction "is" arbitrary: b)
  case Nil
  then show ?case by (simp add: mirrored_def)
next
  case (Cons i js)
  obtain b1 where b1: "write_entry_of fs i e val b = Ok (STATUS_SUCCESS, b1)" "volume_ok fs b1" "blk_pins b1 = blk_pins b"
    "same_outside (volume_region fs) b b1" "all_marked b b1" "mirrored fs {i} e val b b1"
    using write_copy [OF Cons.prems(1) _ e, of i] Cons.prems(2) by auto
  obtain b2 where b2: "write_copies fs js e val b1 = Ok (STATUS_SUCCESS, b2)" "volume_ok fs b2" "blk_pins b2 = blk_pins b1"
    "same_outside (volume_region fs) b1 b2" "all_marked b1 b2" "mirrored fs (set js) e val b1 b2"
    using Cons.IH [OF b1(2)] Cons.prems(2) by auto
  have "same_outside (volume_region fs) b b2" using same_outside_trans [OF b1(4) b2(4)] by simp
  moreover have "mirrored fs (set (i # js)) e val b b2" using mirrored_trans [OF b1(6) b2(6)] by simp
  moreover have "all_marked b b2" using all_marked_trans [OF b1(5) b2(5)] .
  ultimately show ?case using b1 b2 by simp
qed

lemma write_fat_entry_mirrors:
  assumes v: "volume_ok fs b" and e: "e \<in> entries_of fs" "val \<in> values_of fs"
  shows "\<exists>b'. write_fat_entry fs e val b = Ok (STATUS_SUCCESS, b') \<and> volume_ok fs b' \<and> blk_pins b' = blk_pins b \<and>
    same_outside (volume_region fs) b b' \<and> all_marked b b' \<and> mirrored fs (copies_of fs) e val b b'"
proof -
  have "0 < uint (fat_count fs)" using v by (simp add: volume_ok_def word_less_def)
  then have c: "copies_of fs = set (0 # [1 .. uint (fat_count fs) - 1])" by (auto simp: copies_of_def)
  have "write_fat_entry fs e val b = write_copies fs (0 # [1 .. uint (fat_count fs) - 1]) e val b"
    using write_copy [OF v _ e, of 0] c by (auto simp: write_fat_entry_def)
  then show ?thesis using write_copies_all [OF v _ e, of "0 # [1 .. uint (fat_count fs) - 1]"] c by simp
qed

text \<open>Written through the driver, the table reads the same in every copy.\<close>

interpretation volume: fat_table "read_entry_of fs i" "write_fat_entry fs" "\<lambda>b. i \<in> copies_of fs \<and> volume_ok fs b"
    "volume_region fs" "entries_of fs" "values_of fs" "table_of fs i" for fs i
proof (unfold_locales, goal_cases)
  case (1 b e)
  then show ?case using copy.read_law [of fs i b e] by (simp add: volume_ok_def)
next
  case (2 b e v)
  then show ?case using write_fat_entry_mirrors [of fs b e v] by (fastforce simp: mirrored_def)
next
  case (3 b b' e)
  then show ?case using copy.region_law [of fs i b b' e] by (auto simp: volume_region_def volume_ok_def)
qed

lemma get_pin [simp]: "get8 l i (pin l' b) = get8 l i b" "get16 l i (pin l' b) = get16 l i b" "get32 l i (pin l' b) = get32 l i b"
  by (simp_all add: get8_def get16_def get32_def)

lemmas opost_ops = opost_any [of _ "get8 l i b" for l i b] opost_any [of _ "get16 l i b" for l i b]
  opost_any [of _ "get32 l i b" for l i b] opost_any [of _ "div_size i n" for i n]

lemma read16_only: "opost (reads_only b) (read_fat_entry16 fs fat e b)"
  by (auto simp: read_fat_entry16_def fetch_def Let_def reads_only_def intro!: opost_ops)

lemma read32_only: "opost (reads_only b) (read_fat_entry32 fs fat e b)"
  by (auto simp: read_fat_entry32_def fetch_def Let_def reads_only_def intro!: opost_ops)

lemma read12_only: "opost (reads_only b) (read_fat_entry12 fs fat e b)"
  by (auto simp: read_fat_entry12_def fetch_def Let_def reads_only_def intro!: opost_ops)

lemma opost_set8: "(\<And>b'. blk_pins b' = blk_pins b \<Longrightarrow> P b') \<Longrightarrow> opost P (set8 l i v b)"
  by (simp add: set8_def)

lemma opost_set16: "(\<And>b'. blk_pins b' = blk_pins b \<Longrightarrow> P b') \<Longrightarrow> opost P (set16 l i v b)"
  unfolding set16_def by (auto intro!: opost_set8)

lemma opost_set32: "(\<And>b'. blk_pins b' = blk_pins b \<Longrightarrow> P b') \<Longrightarrow> opost P (set32 l i v b)"
  unfolding set32_def by (auto intro!: opost_set8)

lemma pins_simps: "blk_pins (pin l b) = (blk_pins b)(l := blk_pins b l + 1)"
  "blk_pins (release l d b) = (blk_pins b)(l := blk_pins b l - 1)"
  by (simp_all add: pin_def release_def)

lemma write16_pins: "opost (\<lambda>(st, b'). blk_pins b' = blk_pins b) (write_fat_entry16 fs fat e v b)"
  by (auto simp: write_fat_entry16_def fetch_def Let_def pins_simps intro!: opost_ops opost_set16)

lemma write32_pins: "opost (\<lambda>(st, b'). blk_pins b' = blk_pins b) (write_fat_entry32 fs fat e v b)"
  by (auto simp: write_fat_entry32_def fetch_def Let_def pins_simps intro!: opost_ops opost_set32)

lemma write12_pins: "opost (\<lambda>(st, b'). blk_pins b' = blk_pins b) (write_fat_entry12 fs fat e v b)"
  by (auto simp: write_fat_entry12_def fetch_def Let_def pins_simps intro!: opost_ops opost_set8)

lemma write_entry_pins: "opost (\<lambda>(st, b'). blk_pins b' = blk_pins b) (write_entry_of fs fat e v b)"
  using write12_pins write16_pins write32_pins by (simp add: write_entry_of_def split: fat_type.split)

lemma write_copies_pins: "opost (\<lambda>(st, b'). blk_pins b' = blk_pins b \<and> (st = STATUS_SUCCESS \<or> st = STATUS_FS_INCONSISTENT)) (write_copies fs is e v b)"
proof (induction "is" arbitrary: b)
  case (Cons i js)
  show ?case
    by (simp, rule opost_weaken [OF write_entry_pins]) (use Cons.IH in \<open>fastforce simp: opost_def\<close>)
qed simp

lemma mount_probe:
  assumes "CHECK_SUCCESS crst" "CHECK_SUCCESS alst" and ss: "64 \<le> field16 (blk_data b 0) 11"
  shows "obind (mount crst alst ifst fs0 d0 b) (\<lambda>(st, fso, dev, b'). Ok (st, b')) = probe ifst b"
proof -
  let ?ss = "field16 (blk_data b 0) 11" and ?rec = "field16 (blk_data b 0) 17"
  let ?n = "(ucast ?rec * 32 + (ucast ?ss - 1)) div ucast ?ss :: u32"
  have r: "unat ?rec < 65536" "unat ?ss < 65536" "64 \<le> unat ?ss"
    using unsigned_less [of ?rec, where ?'a = nat] unsigned_less [of ?ss, where ?'a = nat] ss by (simp_all add: word_le_nat_alt)
  have u: "unat (ucast ?rec :: u32) = unat ?rec" "unat (ucast ?ss :: u32) = unat ?ss"
    using r by (simp_all add: unsigned_ucast_eq take_bit_nat_eq_self)
  have "unat (ucast ?ss - 1 :: u32) = unat ?ss - 1" using u r by (simp add: unat_sub word_le_nat_alt)
  then have "unat (ucast ?rec * 32 + (ucast ?ss - 1) :: u32) = unat ?rec * 32 + (unat ?ss - 1)"
    using u r by (simp add: unat_word_ariths)
  then have "unat ?n = (unat ?rec * 32 + (unat ?ss - 1)) div unat ?ss" using u by (simp add: unat_div)
  also have "\<dots> \<le> (65535 * 32 + 65534) div unat ?ss" using r by (intro div_le_mono) simp
  also have "\<dots> \<le> (65535 * 32 + 65534) div 64" using r by (intro div_le_mono2) simp_all
  finally have "unat ?n < 65536" by simp
  then have "ucast (ucast ?n :: u16) = ?n" using word_less_exp_take_bit [of ?n 16] by (simp add: word_less_nat_alt unsigned_ucast_eq)
  then have t: "ucast (ucast (bpb_root_sectors (blk_data b 0)) :: u16) = bpb_root_sectors (blk_data b 0)"
    by (simp add: bpb_root_sectors_def)
  consider "\<not> CHECK_SUCCESS ifst \<or> \<not> CHECK_SUCCESS (blk_status b 0) \<or> length (blk_data b 0) < 512 \<or>
      field16 (blk_data b 0) 510 \<noteq> 0xAA55 \<or> bad_fs_type (blk_data b 0)"
    | "CHECK_SUCCESS ifst" "CHECK_SUCCESS (blk_status b 0)" "\<not> length (blk_data b 0) < 512"
      "field16 (blk_data b 0) 510 = 0xAA55" "\<not> bad_fs_type (blk_data b 0)" by blast
  then show ?thesis
  proof cases
    case 1
    then show ?thesis using assms(1,2) by (auto simp: mount_def probe_def fetch_def Let_def)
  next
    case 2
    show ?thesis
    proof (cases "?ss = 0 \<or> field8 (blk_data b 0) 13 = 0")
      case True
      then show ?thesis using 2 assms(1,2) by (simp add: mount_def probe_def mount_data_def fetch_def Let_def)
    next
      case False
      let ?c = "bpb_clusters (blk_data b 0) (bpb_root_sectors (blk_data b 0))"
      show ?thesis
      proof (cases "FAT16_MAX_CLUSTER < ?c")
        case True
        then have "\<not> ?c \<le> FAT12_MAX_CLUSTER" "\<not> ?c \<le> FAT16_MAX_CLUSTER" by (auto simp: word_less_nat_alt word_le_nat_alt)
        then show ?thesis using 2 False assms(1,2) True by (simp add: mount_def probe_def mount_data_def fetch_def Let_def t)
      next
        case c: False
        then have "?c \<le> FAT16_MAX_CLUSTER" by (simp add: not_less)
        then show ?thesis using 2 False assms(1,2) c by (simp add: mount_def probe_def mount_data_def fetch_def Let_def t)
      qed
    qed
  qed
qed

text \<open>
  A mounted file system has the layout of its boot sector, its data hangs off the device, and the
  object handed out is the one that was created, as it was.
\<close>

lemma mount_result:
  "opost (\<lambda>(st, fso, dev, b'). b' = b \<and>
     (if CHECK_SUCCESS st then fso = Some fs0 \<and> (\<exists>d. dev = Dev_data d \<and> sector_size d \<noteq> 0 \<and> sectors_per_cluster d \<noteq> 0 \<and>
        data_area_begin d = ucast (reserved_sectors d) + ucast (fat_count d) * fat_size d \<and>
        root_sector_count d = (if fat_type d = FT_FAT32 then 0 else ucast (bpb_root_sectors (blk_data b 0))))
      else fso = None \<and> dev = (if CHECK_SUCCESS crst \<and> CHECK_SUCCESS alst then Dev_freed else Dev_kept)))
     (mount crst alst ifst fs0 d0 b)"
  by (simp add: mount_def mount_data_def bpb_data_begin_def fetch_def Let_def)

text \<open>Sectors and clusters of the data area correspond.\<close>

lemma sector_cluster:
  assumes "0 < sectors_per_cluster fs" and "2 \<le> c"
    and "(uint c - 2) * uint (sectors_per_cluster fs) + uint (data_area_begin fs) + uint (root_sector_count fs) < 2 ^ 32"
    and "0 \<le> j" "j < uint (sectors_per_cluster fs)"
  shows "sector_to_cluster fs (cluster_to_sector fs c + j) = Ok c"
proof -
  let ?n = "uint (sectors_per_cluster fs)" and ?d = "uint (data_area_begin fs)" and ?r = "uint (root_sector_count fs)"
  have n: "0 < ?n" using assms(1) by (simp add: word_less_def)
  have c2: "2 \<le> uint c" using assms(2) by (simp add: word_le_def)
  have m: "0 \<le> (uint c - 2) * ?n" using n c2 by simp
  have "(c - 2) * ucast (sectors_per_cluster fs) + data_area_begin fs + ucast (root_sector_count fs) =
    of_int ((uint c - 2) * ?n + ?d + ?r)" by simp
  then have s: "cluster_to_sector fs c = (uint c - 2) * ?n + ?d + ?r"
    unfolding cluster_to_sector_def using assms(3) m
    by (simp only: uint_word_of_int) (simp add: mod_pos_pos_trivial take_bit_eq_mod)
  have a: "cluster_to_sector fs c + j - ?d - ?r = (uint c - 2) * ?n + j" using s by simp
  have "cdiv (cluster_to_sector fs c + j - ?d - ?r) ?n = uint c - 2"
    unfolding a cdiv_def using m assms(4,5) n by simp
  then show ?thesis using n by (auto simp: sector_to_cluster_def)
qed

text \<open>
  C7: Writing the file allocation table.  After any sequence of writes through \<^verbatim>\<open>write_fat_entry\<close>
  to entries of the table, with values the entries can hold, every write has reported success, each
  copy of the table reads the last value written to an entry and what it held before if there was
  none, also for neighbouring 12-bit entries that share a byte; no block outside the tables has
  changed, every changed block is marked for writing back and every block fetched has been released.
\<close>

theorem fat_read_after_writes:
  assumes "volume_ok fs b" and "\<forall>(e, v) \<in> set ws. e \<in> entries_of fs \<and> v \<in> values_of fs"
    and "e \<in> entries_of fs" and "i \<in> copies_of fs"
  shows "\<exists>b'. status_loop (\<lambda>(e, v). write_fat_entry fs e v) ws b = Ok (STATUS_SUCCESS, b') \<and>
    blk_pins b' = blk_pins b \<and> same_outside (volume_region fs) b b' \<and> all_marked b b' \<and>
    read_entry_of fs i e b' = Ok (STATUS_SUCCESS,
      Some (case map_of (rev ws) e of Some v \<Rightarrow> v | None \<Rightarrow> table_of fs i b e), b')"
  using volume.read_after_writes [of i fs b ws e] assms by blast

lemma ex_volume: "volume_ok ex_fs ex_blk"
  by (auto simp: volume_ok_def ex_fs_def ex_blk_def fat_ok_def fat_geom_def copies_of_def bad_fat_def)

lemma ex_entries: "2 \<in> entries_of ex_fs" "3 \<in> entries_of ex_fs" "v \<le> 0xFFF \<Longrightarrow> v \<in> values_of ex_fs"
  by (simp_all add: entries_of_def values_of_def ex_fs_def max_cluster_def end_cluster_def last_byte_def in_table_def pos12_def)

theorem fat_read_after_writes_witness:
  "\<exists>b'. status_loop (\<lambda>(e, v). write_fat_entry ex_fs e v) [(2, 0xABC), (3, 0x123)] ex_blk = Ok (STATUS_SUCCESS, b') \<and>
    read_entry_of ex_fs 1 2 b' = Ok (STATUS_SUCCESS, Some 0xABC, b')"
  using fat_read_after_writes [of ex_fs ex_blk "[(2, 0xABC), (3, 0x123)]" 2 1] ex_volume ex_entries
  by (auto simp: copies_of_def ex_fs_def)

text \<open>
  C38: Error paths of the table.  Whatever the device answers, an entry read leaves the device as it
  was and yields a value exactly when it reports success, and an entry written to all copies
  releases every block it fetched; once the first copy has been written, the only failure reported
  is an inconsistent file system.
\<close>

theorem fat_errors_balanced:
  "opost (\<lambda>(st, v, b'). b' = b \<and> (v \<noteq> None \<longleftrightarrow> CHECK_SUCCESS st)) (read_fat_entry fs e b) \<and>
   opost (\<lambda>(st, b'). blk_pins b' = blk_pins b \<and> (CHECK_SUCCESS st \<or> st = STATUS_FS_INCONSISTENT \<or>
       (\<exists>b1. write_entry_of fs 0 e v b = Ok (st, b1)))) (write_fat_entry fs e v b)"
proof
  show "opost (\<lambda>(st, v, b'). b' = b \<and> (v \<noteq> None \<longleftrightarrow> CHECK_SUCCESS st)) (read_fat_entry fs e b)"
    using read12_only [of b fs 0 e] read16_only [of b fs 0 e] read32_only [of b fs 0 e]
    unfolding read_fat_entry_def read_entry_of_def reads_only_def [abs_def] by (cases "fat_type fs") simp_all
next
  let ?Q = "\<lambda>(st, b'). blk_pins b' = blk_pins b \<and> (CHECK_SUCCESS st \<or> st = STATUS_FS_INCONSISTENT \<or>
       (\<exists>b1. write_entry_of fs 0 e v b = Ok (st, b1)))"
  have w: "opost ?Q (write_copies fs js e v b1)" if "blk_pins b1 = blk_pins b" for js b1
    using write_copies_pins [of b1 fs js e v] by (rule opost_weaken) (use that in auto)
  show "opost ?Q (write_fat_entry fs e v b)"
  proof (cases "write_entry_of fs 0 e v b")
    case (Ok r)
    obtain st b1 where r: "r = (st, b1)" by (cases r)
    have "blk_pins b1 = blk_pins b" using write_entry_pins [of b fs 0 e v] Ok r by simp
    then show ?thesis using Ok r w by (simp add: write_fat_entry_def)
  qed (simp_all add: write_fat_entry_def)
qed

text \<open>
  C37: Mounting accepts what probing accepts.  When the file system object or its data cannot be
  allocated, \<^verbatim>\<open>mount\<close> returns the status of the allocation and touches nothing.  Otherwise, for
  sectors of at least 64 bytes, it faults exactly when \<^verbatim>\<open>probe\<close> does and returns the status that
  \<^verbatim>\<open>probe\<close> returns for the device, with every block released and none changed.  Unlike \<^verbatim>\<open>probe\<close> it
  always overwrites \<^verbatim>\<open>dev->data\<close>: on success the created object is handed out as it was and
  \<^verbatim>\<open>dev->data\<close> points to data laid out by the boot sector, on failure no object is handed out and
  \<^verbatim>\<open>dev->data\<close> points to freed data.
\<close>

theorem mount_agrees_with_probe:
  assumes "64 \<le> field16 (blk_data b 0) 11"
  shows "if \<not> CHECK_SUCCESS crst then mount crst alst ifst fs0 d0 b = Ok (crst, None, Dev_kept, b)
    else if \<not> CHECK_SUCCESS alst then mount crst alst ifst fs0 d0 b = Ok (alst, None, Dev_kept, b)
    else case probe ifst b of
      Ok (st, b') \<Rightarrow> b' = b \<and> (\<exists>fso dev. mount crst alst ifst fs0 d0 b = Ok (st, fso, dev, b) \<and>
        (if CHECK_SUCCESS st
         then fso = Some fs0 \<and> (\<exists>d. dev = Dev_data d \<and> sector_size d \<noteq> 0 \<and> sectors_per_cluster d \<noteq> 0 \<and>
           data_area_begin d = ucast (reserved_sectors d) + ucast (fat_count d) * fat_size d \<and>
           root_sector_count d = (if fat_type d = FT_FAT32 then 0 else ucast (bpb_root_sectors (blk_data b 0))))
         else fso = None \<and> dev = Dev_freed))
    | Panic e \<Rightarrow> mount crst alst ifst fs0 d0 b = Panic e
    | Fault \<Rightarrow> mount crst alst ifst fs0 d0 b = Fault
    | Hang \<Rightarrow> mount crst alst ifst fs0 d0 b = Hang"
proof -
  let ?m = "mount crst alst ifst fs0 d0 b"
  consider "\<not> CHECK_SUCCESS crst" | "CHECK_SUCCESS crst" "\<not> CHECK_SUCCESS alst" | "CHECK_SUCCESS crst" "CHECK_SUCCESS alst"
    by blast
  then show ?thesis
  proof cases
    case 3
    note agree = mount_probe [OF 3 assms, of ifst fs0 d0, symmetric]
    show ?thesis
    proof (cases ?m)
      case (Ok r)
      obtain st fso dev b' where r: "r = (st, fso, dev, b')" by (cases r)
      have "b' = b \<and> (if CHECK_SUCCESS st
         then fso = Some fs0 \<and> (\<exists>d. dev = Dev_data d \<and> sector_size d \<noteq> 0 \<and> sectors_per_cluster d \<noteq> 0 \<and>
           data_area_begin d = ucast (reserved_sectors d) + ucast (fat_count d) * fat_size d \<and>
           root_sector_count d = (if fat_type d = FT_FAT32 then 0 else ucast (bpb_root_sectors (blk_data b 0))))
         else fso = None \<and> dev = Dev_freed)"
        using mount_result [of b fs0 crst alst ifst d0] 3 Ok r by simp
      then show ?thesis using 3 Ok r agree by (simp del: split_paired_Ex)
    qed (use 3 agree in simp_all)
  qed (simp_all add: mount_def)
qed

theorem mount_agrees_with_probe_witness:
  "\<exists>d. mount 0 0 0 \<lparr>fs_data = None\<rparr> ex_fs ex_boot_blk = Ok (STATUS_SUCCESS, Some \<lparr>fs_data = None\<rparr>, Dev_data d, ex_boot_blk) \<and>
     data_area_begin d = ucast (reserved_sectors d) + ucast (fat_count d) * fat_size d"
proof -
  have ss: "64 \<le> field16 (blk_data ex_boot_blk 0) 11" by code_simp
  have "case probe 0 ex_boot_blk of Ok (st, b') \<Rightarrow> st = STATUS_SUCCESS | _ \<Rightarrow> False" by code_simp
  then obtain b' where "probe 0 ex_boot_blk = Ok (STATUS_SUCCESS, b')"
    by (auto split: outcome.splits)
  then show ?thesis
    using mount_agrees_with_probe [OF ss, of 0 0 0 "\<lparr>fs_data = None\<rparr>" ex_fs] by auto
qed

text \<open>
  What mounting leaves behind.  Every fetched block is released on every path.  On success the
  data reachable from the device has a sector and cluster size other than zero, the data area begins after the
  copies of the table and a FAT32 volume has no root directory area; the file system object handed
  out is the created one with its data field never assigned.  On failure no object is handed out, and
  the device is left with a pointer to freed data once the data had been allocated.
\<close>

theorem mount_outcome:
  "opost (\<lambda>(st, fso, dev, b'). b' = b \<and>
     (if CHECK_SUCCESS st then fso = Some fs0 \<and> (\<exists>d. dev = Dev_data d \<and> sector_size d \<noteq> 0 \<and> sectors_per_cluster d \<noteq> 0 \<and>
        data_area_begin d = ucast (reserved_sectors d) + ucast (fat_count d) * fat_size d \<and>
        root_sector_count d = (if fat_type d = FT_FAT32 then 0 else ucast (bpb_root_sectors (blk_data b 0))))
      else fso = None \<and> dev = (if CHECK_SUCCESS crst \<and> CHECK_SUCCESS alst then Dev_freed else Dev_kept)))
     (mount crst alst ifst fs0 d0 b)"
  by (rule mount_result)

text \<open>
  Cluster arithmetic.  For a cluster of the data area every sector of the cluster is mapped
  back to it, as long as the first sector of the cluster has a 32-bit number.
\<close>

theorem sector_to_cluster_inverse:
  assumes "0 < sectors_per_cluster fs" and "2 \<le> c"
    and "(uint c - 2) * uint (sectors_per_cluster fs) + uint (data_area_begin fs) + uint (root_sector_count fs) < 2 ^ 32"
    and "0 \<le> j" "j < uint (sectors_per_cluster fs)"
  shows "sector_to_cluster fs (cluster_to_sector fs c + j) = Ok c"
  by (rule sector_cluster [OF assms])

theorem sector_to_cluster_inverse_witness:
  "sector_to_cluster (ex_fs\<lparr>sectors_per_cluster := 4\<rparr>) (cluster_to_sector (ex_fs\<lparr>sectors_per_cluster := 4\<rparr>) 5 + 3) = Ok 5"
  by (rule sector_to_cluster_inverse) (simp_all add: ex_fs_def)

end
