(* ===== verification/Caltime.thy ===== *)
theory Caltime
  imports Prelude
begin

text \<open>
  Calendar time of the boot loader, \<^verbatim>\<open>boot/stdc/time\<close>: the broken-down time of a number of seconds
  since 1970 (\<^verbatim>\<open>gmtime.c\<close>, \<^verbatim>\<open>localtime.c\<close>), its inverse (\<^verbatim>\<open>mktime.c\<close>) and the reading of the clock
  (\<^verbatim>\<open>time.c\<close>), compared with a calendar that counts the days of the years and months.  \<^verbatim>\<open>time_t\<close> has
  64 bits and is an integer here, \<^verbatim>\<open>int\<close> and \<^verbatim>\<open>long\<close> have 32 bits: conversions wrap and an overflow of
  signed arithmetic is \<open>Fault\<close>.
\<close>

section \<open>Broken-down time\<close>

record tm =
  tm_sec :: int
  tm_min :: int
  tm_hour :: int
  tm_mday :: int
  tm_mon :: int
  tm_year :: int
  tm_wday :: int
  tm_yday :: int
  tm_isdst :: int

definition is_leap :: "int \<Rightarrow> int" where
  "is_leap year = (if (cmod year 4 = 0 \<and> cmod year 100 \<noteq> 0) \<or> cmod year 400 = 0 then 1 else 0)"

definition gmtime_r :: "int \<Rightarrow> tm \<Rightarrow> tm" where
  "gmtime_r time result =
     (let sec = cmod time 60; time1 = cdiv time 60; minute = cmod time1 60; time2 = cdiv time1 60;
          hour = cmod time2 24; days = cdiv time2 24 + 719468;
          era = cdiv (if 0 \<le> days then days else days - 146096) 146097;
          doe = to_unsigned (days - era * 146097);
          yoe = to_unsigned (doe - doe div 1460 + doe div 36524 - doe div 146096) div 365;
          y = yoe + era * 400;
          doy = to_unsigned (doe - (365 * yoe + yoe div 4 - yoe div 100));
          mp = to_unsigned (5 * doy + 2) div 153;
          d = to_unsigned (doy - to_unsigned (153 * mp + 2) div 5 + 1);
          m = (if mp < 10 then to_unsigned (mp + 3) else to_unsigned (mp - 9));
          year = to_int (y + (if m \<le> 2 then 1 else 0)) - 1900
      in result\<lparr>tm_sec := to_int sec, tm_min := to_int minute, tm_hour := to_int hour,
           tm_year := year, tm_mon := to_int (to_unsigned (m - 1)), tm_mday := to_int d,
           tm_yday := to_int (if m \<le> 2 then if m = 1 then to_unsigned (d - 1) else to_unsigned (31 + d - 1)
                              else to_unsigned (doy + 58 + is_leap (year + 1900)))\<rparr>)"

definition mktime :: "tm \<Rightarrow> int outcome" where
  "mktime t =
     (let year0 = tm_year t + 1900;
          mon = (if tm_mon t < 2 then tm_mon t + 12 else tm_mon t);
          year = (if tm_mon t < 2 then year0 - 1 else year0);
          years = year * 365 + cdiv year 4 - cdiv year 100 + cdiv year 400;
          months = cdiv (153 * (mon - 2) + 2) 5 + tm_mday t - 1
      in if fits_int year0 \<and> fits_int mon \<and> fits_int year \<and> fits_int (year * 365) \<and> fits_int (year * 365 + cdiv year 4) \<and>
            fits_int (year * 365 + cdiv year 4 - cdiv year 100) \<and> fits_int years \<and> fits_int (mon - 2) \<and>
            fits_int (153 * (mon - 2)) \<and> fits_int (153 * (mon - 2) + 2) \<and> fits_int (months + 1) \<and> fits_int months \<and>
            fits_int (tm_min t * 60)
         then Ok ((years + months - 719468) * 86400 + tm_hour t * 3600 + tm_min t * 60 + tm_sec t)
         else Fault)"

text \<open>The offset of the time zone is a configuration variable.\<close>

definition localtime_r :: "int \<Rightarrow> int \<Rightarrow> tm \<Rightarrow> tm" where
  "localtime_r config_timezone_offset time result = gmtime_r (time + config_timezone_offset) result"

record rtc_time =
  rtc_year :: int
  rtc_month :: int
  rtc_mday :: int
  rtc_hour :: int
  rtc_minute :: int
  rtc_second :: int

text \<open>
  The clock device is found, has an interface and answers with the given statuses and time; the
  fields of a designated initialiser that are not named are zero.
\<close>

definition time_of_rtc ::
  "status \<Rightarrow> status \<Rightarrow> status \<Rightarrow> rtc_time \<Rightarrow> bool \<Rightarrow> int \<Rightarrow> int outcome" where
  "time_of_rtc findst ifst gettst rtctime config_rtc_utc config_timezone_offset =
     (if \<not> CHECK_SUCCESS findst then Ok 0
      else if \<not> CHECK_SUCCESS ifst then Ok 0
      else if \<not> CHECK_SUCCESS gettst then Ok 0
      else obind (mktime \<lparr>tm_sec = rtc_second rtctime, tm_min = rtc_minute rtctime, tm_hour = rtc_hour rtctime,
                    tm_mday = rtc_mday rtctime, tm_mon = rtc_month rtctime - 1, tm_year = rtc_year rtctime - 1900,
                    tm_wday = 0, tm_yday = 0, tm_isdst = 0\<rparr>)
             (\<lambda>newtimet. Ok (if config_rtc_utc then newtimet else newtimet - config_timezone_offset)))"

section \<open>The calendar\<close>

text \<open>The Gregorian calendar, by counting days; months are numbered from 1.\<close>

definition leap :: "int \<Rightarrow> bool" where
  "leap y \<longleftrightarrow> (4 dvd y \<and> \<not> 100 dvd y) \<or> 400 dvd y"

definition year_days :: "int \<Rightarrow> int" where
  "year_days y = (if leap y then 366 else 365)"

definition month_days :: "int \<Rightarrow> int \<Rightarrow> int" where
  "month_days y m = (if m = 2 then if leap y then 29 else 28 else if m \<in> {4, 6, 9, 11} then 30 else 31)"

definition day_of_year :: "int \<Rightarrow> int \<Rightarrow> int \<Rightarrow> int" where
  "day_of_year y m d = sum_list (map (month_days y) [1 .. m - 1]) + (d - 1)"

text \<open>The days from the first of January 1970 to a date, negative for an earlier date.\<close>

definition day_number :: "int \<Rightarrow> int \<Rightarrow> int \<Rightarrow> int" where
  "day_number y m d = sum_list (map year_days [1970 .. y - 1]) - sum_list (map year_days [y .. 1969]) + day_of_year y m d"

text \<open>The day number in the form the code computes it, with years that begin in March.\<close>

definition march_days :: "int \<Rightarrow> int" where
  "march_days y = y * 365 + y div 4 - y div 100 + y div 400"

definition civil_days :: "int \<Rightarrow> int \<Rightarrow> int \<Rightarrow> int" where
  "civil_days y m d = (if m < 3 then march_days (y - 1) + (153 * (m + 9) + 2) div 5
     else march_days y + (153 * (m - 3) + 2) div 5) + d - 1 - 719468"

text \<open>The year within an era of 400 years, from the day within the era.\<close>

definition year_of_era :: "int \<Rightarrow> int" where
  "year_of_era doe = (doe - doe div 1460 + doe div 36524 - doe div 146096) div 365"

definition era_year_start :: "int \<Rightarrow> int" where
  "era_year_start y = 365 * y + y div 4 - y div 100"

definition tm_zero :: tm where
  "tm_zero = \<lparr>tm_sec = 0, tm_min = 0, tm_hour = 0, tm_mday = 0, tm_mon = 0, tm_year = 0, tm_wday = 0, tm_yday = 0, tm_isdst = 0\<rparr>"

section \<open>Lemmas\<close>

lemma div_step:
  assumes "0 < (n :: int)" shows "y div n = (y - 1) div n + (if n dvd y then 1 else 0)"
proof (cases "n dvd y")
  case True
  then obtain k where k: "y = n * k" by (auto simp: dvd_def)
  have "(n * k - 1) div n = k - 1"
    using int_div_pos_eq [of "n * k - 1" n "k - 1" "n - 1"] assms by (simp add: algebra_simps)
  then show ?thesis using k assms by simp
next
  case False
  then have "0 < y mod n" using assms by (metis dvd_eq_mod_eq_0 order_le_less pos_mod_sign)
  moreover have "y mod n < n" using assms by simp
  ultimately have "(y - 1) div n = y div n"
    using int_div_pos_eq [of "y - 1" n "y div n" "y mod n - 1"] by simp
  then show ?thesis using False by simp
qed

lemma march_days_step: "march_days y = march_days (y - 1) + year_days y"
proof -
  have "400 dvd y \<Longrightarrow> 100 dvd y" "100 dvd y \<Longrightarrow> 4 dvd y" by (auto intro: dvd_trans [rotated])
  then show ?thesis
    using div_step [of 4 y] div_step [of 100 y] div_step [of 400 y]
    by (auto simp: march_days_def year_days_def leap_def)
qed

lemma civil_days_new_year:
  assumes "1970 \<le> y" shows "sum_list (map year_days [1970 .. y - 1]) = civil_days y 1 1"
  using assms
proof (induction y rule: int_ge_induct)
  case base
  then show ?case by (simp add: civil_days_def march_days_def)
next
  case (step y)
  have "[1970 .. y] = [1970 .. y - 1] @ [y]" using step.hyps by (simp add: upto_rec2)
  then show ?case using step march_days_step [of y] by (simp add: civil_days_def)
qed

lemma civil_days_old_year:
  assumes "y \<le> 1970" shows "sum_list (map year_days [y .. 1969]) = - civil_days y 1 1"
  using assms
proof (induction y rule: int_le_induct)
  case base
  then show ?case by (simp add: civil_days_def march_days_def)
next
  case (step y)
  have "[y - 1 .. 1969] = (y - 1) # [y .. 1969]" using step.hyps by (simp add: upto_rec1)
  then show ?case using step march_days_step [of "y - 1"] by (simp add: civil_days_def)
qed

lemma month_cases:
  assumes "1 \<le> m" "m \<le> (12 :: int)"
  shows "m \<in> {1, 2, 3, 4, 5, 6, 7, 8, 9, 10, 11, 12}"
proof -
  have "[1 .. 12] = [1, 2, 3, 4, 5, 6, 7, 8, 9, 10, 11, 12 :: int]" by (simp add: upto.simps)
  then have "{1 .. 12} = {1, 2, 3, 4, 5, 6, 7, 8, 9, 10, 11, 12 :: int}" by (metis set_upto list.simps(15) list.set(1))
  then show ?thesis using assms by (metis atLeastAtMost_iff)
qed

lemma day_of_year_civil:
  assumes "1 \<le> m" "m \<le> 12" shows "day_of_year y m d = civil_days y m d - civil_days y 1 1"
  using month_cases [OF assms] unfolding insert_iff empty_iff
  by (elim disjE) (simp_all add: day_of_year_def month_days_def civil_days_def march_days_step [of y] year_days_def upto.simps)

lemma day_number_civil:
  assumes "1 \<le> m" "m \<le> 12" shows "day_number y m d = civil_days y m d"
  using civil_days_new_year [of y] civil_days_old_year [of y] day_of_year_civil [OF assms]
  by (cases "1970 \<le> y") (simp_all add: day_number_def)

lemma year_of_era_aux:
  fixes doe c q a Y :: int
  assumes c: "36524 * c \<le> doe" "doe < 36524 * c + 36524" "0 \<le> c" "c \<le> 3"
    and q: "1460 * q \<le> doe" "doe < 1460 * q + 1460"
    and Y: "365 * Y \<le> doe - q + c" "doe - q + c < 365 * Y + 365"
    and a: "4 * a \<le> Y" "Y < 4 * a + 4"
  shows "100 * c \<le> Y \<and> Y < 100 * c + 100 \<and> 365 * Y + a - c \<le> doe \<and> doe \<le> 365 * Y + a - c + 365 \<and>
    (doe = 365 * Y + a - c + 365 \<longrightarrow> Y = 4 * a + 3 \<and> Y \<noteq> 100 * c + 99)"
proof -
  consider "c = 0" | "c = 1" | "c = 2" | "c = 3" using c by linarith
  then have q25: "25 * c \<le> q \<and> q \<le> 25 * c + 25"
    using c q by cases linarith+
  then have b: "100 * c \<le> Y" "Y < 100 * c + 100" using c q Y by linarith+
  have aq: "a \<le> q" using q25 c q Y a by linarith
  have qa: "q \<le> a + 1" using q25 c q Y a by linarith
  have "365 * Y + a - c \<le> doe" using aq Y by linarith
  moreover have "doe \<le> 365 * Y + a - c + 365" using qa Y by linarith
  moreover have "Y = 4 * a + 3 \<and> Y \<noteq> 100 * c + 99" if "doe = 365 * Y + a - c + 365"
  proof -
    have "q = a + 1" using that Y qa by linarith
    then have "Y = 4 * a + 3" using that q a b c by linarith
    moreover have "Y \<noteq> 100 * c + 99" using \<open>Y = 4 * a + 3\<close> that c by linarith
    ultimately show ?thesis by blast
  qed
  ultimately show ?thesis using b by blast
qed

lemma leap_after:
  assumes "Y = 4 * a + 3" "100 * c \<le> Y" "Y < 100 * c + 100" "Y \<noteq> 100 * c + 99" shows "leap (Y + 1)"
proof -
  have "Y + 1 = 4 * (a + 1)" using assms(1) by simp
  then have "4 dvd Y + 1" by (metis dvd_triv_left)
  moreover have "\<not> 100 dvd Y + 1"
  proof
    assume "100 dvd Y + 1"
    then obtain k where k: "Y + 1 = 100 * k" by (auto simp: dvd_def)
    then have "c < k" "k \<le> c + 1" using assms by linarith+
    then show False using k assms(4) by simp
  qed
  ultimately show ?thesis by (simp add: leap_def)
qed

lemma div_bounds: "0 < n \<Longrightarrow> n * (x div n) \<le> x" "0 < n \<Longrightarrow> x < n * (x div n) + n" for n x :: int
  using mult_div_mod_eq [of n x] pos_mod_sign [of n x] pos_mod_bound [of n x] by linarith+

lemma year_of_era:
  assumes "0 \<le> doe" "doe < 146097"
  shows "0 \<le> year_of_era doe \<and> year_of_era doe \<le> 399 \<and> era_year_start (year_of_era doe) \<le> doe \<and>
    doe \<le> era_year_start (year_of_era doe) + 365 \<and> (doe = era_year_start (year_of_era doe) + 365 \<longrightarrow> leap (year_of_era doe + 1))"
proof (cases "doe = 146096")
  case True
  then show ?thesis
    by (simp add: year_of_era_def era_year_start_def leap_def)
next
  case False
  let ?c = "doe div 36524" and ?q = "doe div 1460" and ?Y = "year_of_era doe"
  have c: "36524 * ?c \<le> doe" "doe < 36524 * ?c + 36524" by (simp_all add: div_bounds)
  then have c3: "0 \<le> ?c" "?c \<le> 3" using assms False by linarith+
  have q: "1460 * ?q \<le> doe" "doe < 1460 * ?q + 1460" by (simp_all add: div_bounds)
  have "doe div 146096 = 0" using assms False by (simp add: div_pos_pos_trivial)
  then have ye: "?Y = (doe - ?q + ?c) div 365" by (simp add: year_of_era_def)
  have Y: "365 * ?Y \<le> doe - ?q + ?c" "doe - ?q + ?c < 365 * ?Y + 365" unfolding ye by (simp_all add: div_bounds)
  have a: "4 * (?Y div 4) \<le> ?Y" "?Y < 4 * (?Y div 4) + 4" by (simp_all add: div_bounds)
  note r = year_of_era_aux [OF c c3 q Y a]
  have "?Y div 100 = ?c" by (rule int_div_pos_eq [of _ _ _ "?Y - 100 * ?c"]) (use r in auto)
  then have s: "era_year_start ?Y = 365 * ?Y + ?Y div 4 - ?c" by (simp add: era_year_start_def)
  have l: "leap (?Y + 1)" if "doe = era_year_start ?Y + 365"
    using leap_after [of ?Y "?Y div 4" ?c] r that s by simp
  show ?thesis
    using r s c3 l by auto
qed

lemma month_of_doy:
  fixes doy mp :: int
  assumes "0 \<le> doy" "doy \<le> 365" and mp: "mp = (5 * doy + 2) div 153"
  shows "0 \<le> mp" "mp \<le> 11" "(153 * mp + 2) div 5 \<le> doy"
    "doy - (153 * mp + 2) div 5 + 1 \<le> (if mp = 11 then if doy = 365 then 29 else 28 else if mp \<in> {1, 3, 6, 8} then 30 else 31)"
proof -
  have b: "153 * mp \<le> 5 * doy + 2" "5 * doy + 2 < 153 * mp + 153" unfolding mp by (simp_all add: div_bounds)
  then show m: "0 \<le> mp" "mp \<le> 11" using assms(1,2) by linarith+
  then have "mp + 1 \<in> {1, 2, 3, 4, 5, 6, 7, 8, 9, 10, 11, 12}" by (intro month_cases) simp_all
  then have e: "mp \<in> {0, 1, 2, 3, 4, 5, 6, 7, 8, 9, 10, 11}" by auto
  show "(153 * mp + 2) div 5 \<le> doy" using b(1) div_bounds(1) [of 5 "153 * mp + 2"] by linarith
  show "doy - (153 * mp + 2) div 5 + 1 \<le> (if mp = 11 then if doy = 365 then 29 else 28 else if mp \<in> {1, 3, 6, 8} then 30 else 31)"
    using e b assms(2) unfolding insert_iff empty_iff by (elim disjE) auto
qed

text \<open>The date of a day number, with the year beginning in March in the form of the code.\<close>

lemma civil_of_era:
  fixes era yoe mp m d doy :: int
  assumes "0 \<le> yoe" "yoe \<le> 399" and mp: "0 \<le> mp" "mp \<le> 11"
    and m: "m = (if mp < 10 then mp + 3 else mp - 9)" and d: "d = doy - (153 * mp + 2) div 5 + 1"
  shows "civil_days (yoe + era * 400 + (if m \<le> 2 then 1 else 0)) m d = era_year_start yoe + era * 146097 + doy - 719468"
proof -
  have "march_days (yoe + era * 400) = era_year_start yoe + era * 146097"
  proof -
    have "(yoe + era * 400) div 4 = yoe div 4 + era * 100" "(yoe + era * 400) div 100 = yoe div 100 + era * 4"
      "(yoe + era * 400) div 400 = era"
      using int_div_pos_eq [of "yoe + era * 400" 4 "yoe div 4 + era * 100" "yoe mod 4"]
        int_div_pos_eq [of "yoe + era * 400" 100 "yoe div 100 + era * 4" "yoe mod 100"]
        int_div_pos_eq [of "yoe + era * 400" 400 era yoe] assms(1,2) by simp_all
    then show ?thesis by (simp add: march_days_def era_year_start_def)
  qed
  then show ?thesis using m d mp by (auto simp: civil_days_def)
qed

lemma is_leap_leap: "0 \<le> y \<Longrightarrow> is_leap y = (if leap y then 1 else 0)"
  by (simp add: is_leap_def leap_def dvd_eq_mod_eq_0)

lemma day_of_year_early: "day_of_year y 1 d = d - 1" "day_of_year y 2 d = 31 + d - 1"
  by (simp_all add: day_of_year_def month_days_def)

lemma day_of_year_march:
  assumes "3 \<le> m" "m \<le> 12" shows "day_of_year y m d = (153 * (m - 3) + 2) div 5 + d - 1 + 59 + (if leap y then 1 else 0)"
  using day_of_year_civil [of m y d] march_days_step [of y] assms by (simp add: civil_days_def year_days_def)

lemma gmtime_date:
  assumes days: "days = cdiv (cdiv (cdiv t 60) 60) 24 + 719468" and b: "0 \<le> days" "days < 2000000000" and r: "r = gmtime_r t r0"
  shows "\<exists>y m d. tm_year r = y - 1900 \<and> tm_mon r = m - 1 \<and> tm_mday r = d \<and> 0 \<le> y - (if m \<le> 2 then 1 else 0) \<and> y \<le> 5480000 \<and>
    1 \<le> m \<and> m \<le> 12 \<and> 1 \<le> d \<and> d \<le> month_days y m \<and> civil_days y m d = days - 719468 \<and>
    tm_yday r = day_of_year y m d - (if m \<le> 2 then 0 else 1)"
proof -
  define era where "era = days div 146097"
  define doe where "doe = days mod 146097"
  define yoe where "yoe = year_of_era doe"
  define doy where "doy = doe - era_year_start yoe"
  define mp where "mp = (5 * doy + 2) div 153"
  define d where "d = doy - (153 * mp + 2) div 5 + 1"
  define m where "m = (if mp < 10 then mp + 3 else mp - 9)"
  define y where "y = yoe + era * 400 + (if m \<le> 2 then 1 else 0)"
  have dd: "days = doe + era * 146097" by (simp add: doe_def era_def)
  have doe: "0 \<le> doe" "doe < 146097" by (simp_all add: doe_def)
  note Y = year_of_era [OF doe, folded yoe_def]
  have doy: "0 \<le> doy" "doy \<le> 365" "doy = 365 \<Longrightarrow> leap (yoe + 1)" using Y by (auto simp: doy_def)
  note M = month_of_doy [OF doy(1,2) mp_def]
  have era: "0 \<le> era" "era < 13690" using b doe dd by linarith+
  have m: "1 \<le> m" "m \<le> 12" using M by (auto simp: m_def)
  have d1: "1 \<le> d" using M by (simp add: d_def)
  have c: "civil_days y m d = days - 719468"
    using civil_of_era [OF _ _ M(1,2) m_def d_def, of yoe era] Y dd by (simp add: y_def doy_def)
  have leap_y: "leap (yoe + era * 400 + 1) = leap (yoe + 1)"
  proof -
    have "k dvd yoe + era * 400 + 1 \<longleftrightarrow> k dvd yoe + 1" if "k dvd 400" for k
      using that by (metis add.assoc add.commute dvd_add_right_iff dvd_mult)
    then show ?thesis by (simp add: leap_def)
  qed
  have dm: "d \<le> month_days y m"
    using M(1,2,4) doy(3) leap_y by (auto simp: d_def [symmetric] m_def month_days_def y_def split: if_splits)
  have y0: "0 \<le> y - (if m \<le> 2 then 1 else 0)" using Y era by (simp add: y_def)
  have bounds: "d \<le> 31" "0 \<le> 5 * doy + 2" "0 \<le> 153 * mp + 2" "y \<le> 5480000"
    using dm M(1,2) doy(1,2) Y era by (simp_all add: month_days_def y_def split: if_splits)
  have e: "cdiv (if 0 \<le> days then days else days - 146096) 146097 = era" using b by (simp add: era_def)
  have xb: "0 \<le> doe - doe div 1460 + doe div 36524 - doe div 146096" "doe - doe div 1460 + doe div 36524 - doe div 146096 < 2 ^ 32"
    using doe div_bounds [of 1460 doe] div_bounds [of 36524 doe] div_bounds [of 146096 doe] by linarith (use doe div_bounds [of 1460 doe] div_bounds [of 36524 doe] div_bounds [of 146096 doe] in simp)
  have u1: "to_unsigned (days - era * 146097) = doe" using dd doe by simp
  have u2: "to_unsigned (doe - doe div 1460 + doe div 36524 - doe div 146096) div 365 = yoe"
    unfolding to_unsigned_id [OF xb] yoe_def year_of_era_def ..
  have "doe - (365 * yoe + yoe div 4 - yoe div 100) = doy" by (simp add: doy_def era_year_start_def)
  then have u3: "to_unsigned (doe - (365 * yoe + yoe div 4 - yoe div 100)) = doy" using doy by simp
  have u4: "to_unsigned (5 * doy + 2) div 153 = mp" using doy(1,2) by (simp add: mp_def)
  have "to_unsigned (153 * mp + 2) = 153 * mp + 2" using M(1,2) by simp
  then have u5: "to_unsigned (doy - to_unsigned (153 * mp + 2) div 5 + 1) = d" using d1 bounds(1) by (simp add: d_def [symmetric])
  have u6: "(if mp < 10 then to_unsigned (mp + 3) else to_unsigned (mp - 9)) = m" using M(1,2) by (simp add: m_def)
  have u7: "to_int (yoe + era * 400 + (if m \<le> 2 then 1 else 0)) = y" unfolding y_def [symmetric]
    using bounds(4) y0 by (auto split: if_splits)
  have u8: "to_int (to_unsigned (m - 1)) = m - 1" "to_int d = d" using m d1 bounds(1) by simp_all
  note u = u1 u2 u3 u4 u5 u6 u7 u8
  have fields: "tm_year (gmtime_r t r0) = y - 1900 \<and> tm_mon (gmtime_r t r0) = m - 1 \<and> tm_mday (gmtime_r t r0) = d \<and>
    tm_yday (gmtime_r t r0) = to_int (if m \<le> 2 then if m = 1 then to_unsigned (d - 1) else to_unsigned (31 + d - 1)
        else to_unsigned (doy + 58 + is_leap y))"
    unfolding gmtime_r_def Let_def days [symmetric] e u by simp
  show ?thesis
  proof (intro exI conjI)
    show "civil_days y m d = days - 719468" by (rule c)
    have yd: "tm_yday r = to_int (if m \<le> 2 then if m = 1 then to_unsigned (d - 1) else to_unsigned (31 + d - 1)
        else to_unsigned (doy + 58 + is_leap y))" and f: "tm_year r = y - 1900" "tm_mon r = m - 1" "tm_mday r = d"
      unfolding r using fields by simp_all
    show "tm_year r = y - 1900" "tm_mon r = m - 1" "tm_mday r = d" by (rule f)+
    show "tm_yday r = day_of_year y m d - (if m \<le> 2 then 0 else 1)"
    proof (cases "m \<le> 2")
      case True
      then have "m = 1 \<or> m = 2" using m by linarith
      then show ?thesis using yd d1 bounds(1) by (elim disjE) (simp_all add: day_of_year_early)
    next
      case False
      then have "mp = m - 3" using M by (auto simp: m_def split: if_splits)
      then have "day_of_year y m d = doy + 59 + is_leap y"
        using day_of_year_march [of m y d] False m bounds Y era by (simp add: d_def is_leap_leap y_def)
      then show ?thesis using yd False doy bounds by (simp add: is_leap_def)
    qed
  qed (use m d1 dm bounds(4) y0 in \<open>simp_all\<close>)
qed

lemma cmod_bound: "0 < n \<Longrightarrow> \<bar>cmod x n\<bar> < n"
  using div_bounds [of n x] div_bounds [of n "- x"] by (auto simp: cmod_def cdiv_def)

lemma cmod_sign: "0 < n \<Longrightarrow> 0 \<le> x \<Longrightarrow> 0 \<le> cmod x n" "0 < n \<Longrightarrow> x \<le> 0 \<Longrightarrow> cmod x n \<le> 0"
  using div_bounds [of n x] div_bounds [of n "- x"] by (auto simp: cmod_def cdiv_def)

lemma cdiv_sign: "0 < n \<Longrightarrow> 0 \<le> x \<Longrightarrow> 0 \<le> cdiv x n" "0 < n \<Longrightarrow> x \<le> 0 \<Longrightarrow> cdiv x n \<le> 0"
  by (auto simp: cdiv_def pos_imp_zdiv_nonneg_iff)

lemma tm_clock_update:
  "tm_sec (r\<lparr>tm_sec := a, tm_min := b, tm_hour := c, tm_year := d, tm_mon := e, tm_mday := f, tm_yday := g\<rparr>) = a"
  "tm_min (r\<lparr>tm_sec := a, tm_min := b, tm_hour := c, tm_year := d, tm_mon := e, tm_mday := f, tm_yday := g\<rparr>) = b"
  "tm_hour (r\<lparr>tm_sec := a, tm_min := b, tm_hour := c, tm_year := d, tm_mon := e, tm_mday := f, tm_yday := g\<rparr>) = c"
  by simp_all

lemma gmtime_clock:
  "tm_sec (gmtime_r t r0) = cmod t 60" "tm_min (gmtime_r t r0) = cmod (cdiv t 60) 60"
  "tm_hour (gmtime_r t r0) = cmod (cdiv (cdiv t 60) 60) 24"
  unfolding gmtime_r_def Let_def tm_clock_update
  using cmod_bound [of 60 t] cmod_bound [of 60 "cdiv t 60"] cmod_bound [of 24 "cdiv (cdiv t 60) 60"]
  by (simp_all add: abs_less_iff)

lemma mktime_civil:
  assumes "1 \<le> m" "m \<le> 12" "1 \<le> d" "d \<le> 31" "0 \<le> y - (if m \<le> 2 then 1 else 0)" "y \<le> 5480000"
    and t: "tm_year t = y - 1900" "tm_mon t = m - 1" "tm_mday t = d" and "\<bar>tm_min t\<bar> < 60"
  shows "mktime t = Ok (civil_days y m d * 86400 + tm_hour t * 3600 + tm_min t * 60 + tm_sec t)"
proof -
  define Y where "Y = (if m \<le> 2 then y - 1 else y)"
  define mp where "mp = (if m \<le> 2 then m + 9 else m - 3)"
  define a b c k where "a = Y div 4" and "b = Y div 100" and "c = Y div 400" and "k = (153 * mp + 2) div 5"
  have Y: "0 \<le> Y" "Y \<le> 5480000" using assms(5,6) by (auto simp: Y_def split: if_splits)
  have mp: "0 \<le> mp" "mp \<le> 11" using assms(1,2) by (auto simp: mp_def)
  have dv: "0 \<le> a" "a \<le> Y" "0 \<le> b" "b \<le> Y" "0 \<le> c" "c \<le> Y" "0 \<le> k" "k \<le> 400"
    using Y mp div_bounds [of 4 Y] div_bounds [of 100 Y] div_bounds [of 400 Y] div_bounds [of 5 "153 * mp + 2"]
    unfolding a_def [symmetric] b_def [symmetric] c_def [symmetric] k_def [symmetric] by linarith+
  have cd: "cdiv Y 4 = a" "cdiv Y 100 = b" "cdiv Y 400 = c" "cdiv (153 * mp + 2) 5 = k"
    using Y(1) mp(1) by (simp_all add: a_def b_def c_def k_def)
  have e: "(if tm_mon t < 2 then tm_mon t + 12 else tm_mon t) = mp + 2" "tm_year t + 1900 = y"
    "(if tm_mon t < 2 then y - 1 else y) = Y" using t by (auto simp: mp_def Y_def)
  have civ: "civil_days y m d = Y * 365 + a - b + c + (k + d - 1) - 719468"
    by (simp add: civil_days_def march_days_def Y_def mp_def a_def b_def c_def k_def)
  have f: "fits_int y" "fits_int (mp + 2)" "fits_int Y" "fits_int (Y * 365)" "fits_int (Y * 365 + a)" "fits_int (Y * 365 + a - b)"
    "fits_int (Y * 365 + a - b + c)" "fits_int mp" "fits_int (153 * mp)" "fits_int (153 * mp + 2)" "fits_int (k + d - 1 + 1)"
    "fits_int (k + d - 1)" "fits_int (tm_min t * 60)"
    using Y mp dv assms(3-6,10) by (simp_all add: fits_int_def abs_less_iff split: if_split_asm)
  show ?thesis
    unfolding mktime_def Let_def e add_diff_cancel_right' cd t(3) civ by (simp only: f if_True simp_thms)
qed

lemma cdiv_lower:
  fixes n b x :: int
  assumes "0 < n" "- (n * b) \<le> x" "0 \<le> b" shows "- b \<le> cdiv x n"
proof (cases "0 \<le> x")
  case True
  then show ?thesis using assms by (simp add: pos_imp_zdiv_nonneg_iff order_trans [of "- b" 0])
next
  case False
  have "(- x) div n \<le> (n * b) div n" using assms by (intro zdiv_mono1) simp_all
  then show ?thesis using False assms by (simp add: cdiv_def)
qed

lemma gmtime_days:
  assumes t: "- 62162035200 \<le> t" "t < 2 ^ 47" and r: "r = gmtime_r t r0"
  shows "\<exists>y m d. tm_year r = y - 1900 \<and> tm_mon r = m - 1 \<and> tm_mday r = d \<and> 0 \<le> y - (if m \<le> 2 then 1 else 0) \<and> y \<le> 5480000 \<and>
    1 \<le> m \<and> m \<le> 12 \<and> 1 \<le> d \<and> d \<le> month_days y m \<and>
    t = civil_days y m d * 86400 + tm_hour r * 3600 + tm_min r * 60 + tm_sec r \<and>
    tm_yday r = day_of_year y m d - (if m \<le> 2 then 0 else 1)"
proof -
  define days where "days = cdiv (cdiv (cdiv t 60) 60) 24 + 719468"
  have "- 1036033920 \<le> cdiv t 60" using cdiv_lower [of 60 1036033920 t] t by simp
  then have "- 17267232 \<le> cdiv (cdiv t 60) 60" using cdiv_lower [of 60 17267232] by simp
  then have l: "0 \<le> days" using cdiv_lower [of 24 719468 "cdiv (cdiv t 60) 60"] by (simp add: days_def)
  have e: "t = ((cdiv (cdiv (cdiv t 60) 60) 24 * 24 + cmod (cdiv (cdiv t 60) 60) 24) * 60 + cmod (cdiv t 60) 60) * 60 + cmod t 60"
    using cmod_cdiv [of 24 "cdiv (cdiv t 60) 60"] cmod_cdiv [of 60 "cdiv t 60"] cmod_cdiv [of 60 t] by (simp add: algebra_simps)
  have h: "days < 2000000000"
    using e t(2) cmod_bound [of 24 "cdiv (cdiv t 60) 60"] cmod_bound [of 60 "cdiv t 60"] cmod_bound [of 60 t]
    unfolding days_def by (simp add: abs_less_iff)
  obtain y m d where d: "tm_year r = y - 1900" "tm_mon r = m - 1" "tm_mday r = d" "0 \<le> y - (if m \<le> 2 then 1 else 0)"
    "y \<le> 5480000" "1 \<le> m" "m \<le> 12" "1 \<le> d" "d \<le> month_days y m" "civil_days y m d = days - 719468"
    "tm_yday r = day_of_year y m d - (if m \<le> 2 then 0 else 1)"
    using gmtime_date [OF days_def l h r] by blast
  have "t = civil_days y m d * 86400 + tm_hour r * 3600 + tm_min r * 60 + tm_sec r"
    using e unfolding d(10) r gmtime_clock days_def by (simp add: algebra_simps)
  then show ?thesis using d by blast
qed

lemma march_days_mono: "x \<le> y \<Longrightarrow> march_days x \<le> march_days y"
proof (induction y rule: int_ge_induct)
  case (step i)
  then show ?case using march_days_step [of "i + 1"] by (simp add: year_days_def)
qed simp

lemma civil_days_early:
  assumes "1 \<le> m" "m \<le> 12" "1 \<le> d" "d \<le> month_days y m" "y < 1970" shows "civil_days y m d < 0"
proof -
  have "civil_days y m d < civil_days y 1 1 + year_days y"
    using month_cases [OF assms(1,2)] assms(3,4) march_days_step [of y] unfolding insert_iff empty_iff
    by (elim disjE) (auto simp: civil_days_def month_days_def year_days_def)
  also have "\<dots> = march_days y + 306 - 719468" using march_days_step [of y] by (simp add: civil_days_def)
  also have "\<dots> \<le> march_days 1969 + 306 - 719468" using march_days_mono [of y 1969] assms(5) by simp
  finally show ?thesis by (simp add: march_days_def)
qed

lemma civil_days_late:
  assumes "1 \<le> m" "m \<le> 12" "1 \<le> d" "d \<le> month_days y m" "1970 < y" shows "0 < civil_days y m d"
proof -
  have "0 < march_days 1970 + 306 - 719468" by (simp add: march_days_def)
  also have "\<dots> \<le> march_days (y - 1) + 306 - 719468" using march_days_mono [of 1970 "y - 1"] assms(5) by simp
  also have "\<dots> = civil_days y 1 1" by (simp add: civil_days_def)
  also have "\<dots> \<le> civil_days y m d"
    using month_cases [OF assms(1,2)] assms(3) march_days_step [of y] unfolding insert_iff empty_iff
    by (elim disjE) (auto simp: civil_days_def year_days_def)
  finally show ?thesis .
qed

text \<open>
  C16: \<^verbatim>\<open>mktime\<close> inverts \<^verbatim>\<open>gmtime_r\<close>.  From the first of March of the year 0 up to the year four million,
  before and after 1970, converting a time to broken-down form and back returns it, and none of the 32-bit
  computations in between overflows.
\<close>

theorem mktime_gmtime:
  assumes "- 62162035200 \<le> t" "t < 2 ^ 47"
  shows "mktime (gmtime_r t r0) = Ok t"
proof -
  obtain y m d where d: "tm_year (gmtime_r t r0) = y - 1900" "tm_mon (gmtime_r t r0) = m - 1" "tm_mday (gmtime_r t r0) = d"
    "0 \<le> y - (if m \<le> 2 then 1 else 0)" "y \<le> 5480000" "1 \<le> m" "m \<le> 12" "1 \<le> d" "d \<le> month_days y m"
    and t: "t = civil_days y m d * 86400 + tm_hour (gmtime_r t r0) * 3600 + tm_min (gmtime_r t r0) * 60 + tm_sec (gmtime_r t r0)"
    using gmtime_days [OF assms refl] by blast
  have "d \<le> 31" using d(9) by (simp add: month_days_def split: if_splits)
  moreover have "\<bar>tm_min (gmtime_r t r0)\<bar> < 60" using cmod_bound by (simp add: gmtime_clock)
  ultimately show ?thesis using mktime_civil [OF d(6-8) _ d(4,5,1,2,3)] t by simp
qed

theorem mktime_gmtime_witness: "mktime (gmtime_r 1709210096 tm_zero) = Ok 1709210096"
  by (rule mktime_gmtime) simp_all

text \<open>
  C22: \<^verbatim>\<open>gmtime_r\<close> computes the Gregorian calendar, from the first of March of the year 0 up to the
  year four million.  The fields are a date that exists, with the day of the month within the length
  of that month in that year, and counting the days of all years from 1970 on and of the months
  before the date gives the time back.  For a time since 1970 the hour, minute and second are a time
  of day; for an earlier time they are the remainders of truncating divisions, zero or negative, so
  the date is the one the time rounds up to.  The day of the year is right in January and February
  and one too small from March on.
\<close>

theorem gmtime_calendar:
  assumes "- 62162035200 \<le> t" "t < 2 ^ 47" and "r = gmtime_r t r0" and "y = tm_year r + 1900" and "m = tm_mon r + 1"
  shows "1 \<le> m \<and> m \<le> 12 \<and> 1 \<le> tm_mday r \<and> tm_mday r \<le> month_days y m \<and>
    t = day_number y m (tm_mday r) * 86400 + tm_hour r * 3600 + tm_min r * 60 + tm_sec r \<and>
    (if 0 \<le> t
     then 1970 \<le> y \<and> tm_hour r \<in> {0 ..< 24} \<and> tm_min r \<in> {0 ..< 60} \<and> tm_sec r \<in> {0 ..< 60}
     else y \<le> 1970 \<and> tm_hour r \<in> {- 23 .. 0} \<and> tm_min r \<in> {- 59 .. 0} \<and> tm_sec r \<in> {- 59 .. 0}) \<and>
    tm_yday r = day_of_year y m (tm_mday r) - (if m \<le> 2 then 0 else 1)"
proof -
  from gmtime_days [OF assms(1-3)] obtain y' m' d where o: "tm_year r = y' - 1900" "tm_mon r = m' - 1" "tm_mday r = d"
    "1 \<le> m'" "m' \<le> 12" "1 \<le> d" "d \<le> month_days y' m'"
    "t = civil_days y' m' d * 86400 + tm_hour r * 3600 + tm_min r * 60 + tm_sec r"
    "tm_yday r = day_of_year y' m' d - (if m' \<le> 2 then 0 else 1)" by blast
  have e: "y' = y" "m' = m" "d = tm_mday r" using o(1-3) assms(4,5) by simp_all
  note d = o(4-7) [unfolded e] and t = o(8) [unfolded e] and yd = o(9) [unfolded e]
  note clock = gmtime_clock [of t r0, folded assms(3)]
  have b: "\<bar>tm_hour r\<bar> < 24" "\<bar>tm_min r\<bar> < 60" "\<bar>tm_sec r\<bar> < 60" unfolding clock by (simp_all add: cmod_bound)
  have late: "0 \<le> tm_hour r" "0 \<le> tm_min r" "0 \<le> tm_sec r" "1970 \<le> y" if "0 \<le> t"
  proof -
    show "0 \<le> tm_hour r" "0 \<le> tm_min r" "0 \<le> tm_sec r"
      using that unfolding clock by (simp_all add: cmod_sign cdiv_sign)
    have "0 \<le> civil_days y m (tm_mday r)" using t b that by linarith
    then show "1970 \<le> y" using civil_days_early [OF d] by (metis not_less)
  qed
  have early: "tm_hour r \<le> 0" "tm_min r \<le> 0" "tm_sec r \<le> 0" "y \<le> 1970" if "\<not> 0 \<le> t"
  proof -
    show "tm_hour r \<le> 0" "tm_min r \<le> 0" "tm_sec r \<le> 0"
      using that unfolding clock by (simp_all add: cmod_sign cdiv_sign)
    have "civil_days y m (tm_mday r) \<le> 0" using t b that by linarith
    then show "y \<le> 1970" using civil_days_late [OF d] by (metis not_less)
  qed
  show ?thesis
    using d b late early yd t [folded day_number_civil [OF d(1,2)]] by (auto simp: abs_less_iff)
qed

theorem gmtime_calendar_witness:
  "(let r = gmtime_r 1709210096 tm_zero in
     1709210096 = day_number (tm_year r + 1900) (tm_mon r + 1) (tm_mday r) * 86400 +
       tm_hour r * 3600 + tm_min r * 60 + tm_sec r \<and> tm_sec r \<in> {0 ..< 60}) \<and>
   (let r = gmtime_r (- 1) tm_zero in
     - 1 = day_number (tm_year r + 1900) (tm_mon r + 1) (tm_mday r) * 86400 +
       tm_hour r * 3600 + tm_min r * 60 + tm_sec r \<and> tm_sec r \<in> {- 59 .. 0})"
proof -
  have "- 62162035200 \<le> (1709210096 :: int)" "1709210096 < (2 :: int) ^ 47" by simp_all
  note a = gmtime_calendar [OF this refl refl refl, of tm_zero]
  have "- 62162035200 \<le> (- 1 :: int)" "- 1 < (2 :: int) ^ 47" by simp_all
  note b = gmtime_calendar [OF this refl refl refl, of tm_zero]
  have s: "0 \<le> (1709210096 :: int)" "\<not> 0 \<le> (- 1 :: int)" by simp_all
  show ?thesis using a b s unfolding Let_def by meson
qed

text \<open>One second before 1970 comes out as a second of minus one on the first of January 1970.\<close>

lemma gmtime_before_epoch:
  "gmtime_r (- 1) tm_zero = tm_zero\<lparr>tm_sec := - 1, tm_year := 70, tm_mday := 1\<rparr>"
  by code_simp

end
