(* ===== verification/Stdlib.thy ===== *)
theory Stdlib
  imports Prelude
begin

text \<open>
  Character classes and number parsing of the kernel's C library: \<^verbatim>\<open>kernel/stdc/ctype/ctype.c\<close> and
  \<^verbatim>\<open>kernel/stdc/stdlib\<close>.  A string is the list of its bytes; the terminating zero byte is implicit,
  and a zero byte in the list ends the string too.  A \<^verbatim>\<open>char\<close> is signed, so a byte from 128 on is a
  negative number.  Reading the class table outside its 128 entries is \<open>Fault\<close>.
\<close>

section \<open>Character classes\<close>

definition ctype_table :: "u16 list" where
  "ctype_table = [
    0x0001, 0x0001, 0x0001, 0x0001, 0x0001, 0x0001, 0x0001, 0x0001,
    0x0001, 0x000D, 0x0005, 0x0005, 0x0005, 0x0005, 0x0001, 0x0001,
    0x0001, 0x0001, 0x0001, 0x0001, 0x0001, 0x0001, 0x0001, 0x0001,
    0x0001, 0x0001, 0x0001, 0x0001, 0x0001, 0x0001, 0x0001, 0x0001,
    0x000E, 0x0032, 0x0032, 0x0032, 0x0032, 0x0032, 0x0032, 0x0032,
    0x0032, 0x0032, 0x0032, 0x0032, 0x0032, 0x0032, 0x0032, 0x0032,
    0x0C52, 0x0C52, 0x0C52, 0x0C52, 0x0C52, 0x0C52, 0x0C52, 0x0C52,
    0x0C52, 0x0C52, 0x0032, 0x0032, 0x0032, 0x0032, 0x0032, 0x0032,
    0x0032, 0x09D2, 0x09D2, 0x09D2, 0x09D2, 0x09D2, 0x09D2, 0x01D2,
    0x01D2, 0x01D2, 0x01D2, 0x01D2, 0x01D2, 0x01D2, 0x01D2, 0x01D2,
    0x01D2, 0x01D2, 0x01D2, 0x01D2, 0x01D2, 0x01D2, 0x01D2, 0x01D2,
    0x01D2, 0x01D2, 0x01D2, 0x0032, 0x0032, 0x0032, 0x0032, 0x0032,
    0x0032, 0x0AD2, 0x0AD2, 0x0AD2, 0x0AD2, 0x0AD2, 0x0AD2, 0x02D2,
    0x02D2, 0x02D2, 0x02D2, 0x02D2, 0x02D2, 0x02D2, 0x02D2, 0x02D2,
    0x02D2, 0x02D2, 0x02D2, 0x02D2, 0x02D2, 0x02D2, 0x02D2, 0x02D2,
    0x02D2, 0x02D2, 0x02D2, 0x0032, 0x0032, 0x0032, 0x0032, 0x0001]"

definition ctype_test :: "u16 \<Rightarrow> int \<Rightarrow> int outcome" where
  "ctype_test flag c = (if 0 \<le> c \<and> c < 128 then Ok (if ctype_table ! nat c AND flag \<noteq> 0 then 1 else 0) else Fault)"

definition isalnum :: "int \<Rightarrow> int outcome" where
  "isalnum c = ctype_test 0x0040 c"

definition isalpha :: "int \<Rightarrow> int outcome" where
  "isalpha c = ctype_test 0x0080 c"

definition iscntrl :: "int \<Rightarrow> int outcome" where
  "iscntrl c = ctype_test 0x0001 c"

definition isdigit :: "int \<Rightarrow> int outcome" where
  "isdigit c = ctype_test 0x0400 c"

definition isgraph :: "int \<Rightarrow> int outcome" where
  "isgraph c = ctype_test 0x0010 c"

definition islower :: "int \<Rightarrow> int outcome" where
  "islower c = ctype_test 0x0200 c"

definition isprint :: "int \<Rightarrow> int outcome" where
  "isprint c = ctype_test 0x0002 c"

definition ispunct :: "int \<Rightarrow> int outcome" where
  "ispunct c = ctype_test 0x0020 c"

definition isspace :: "int \<Rightarrow> int outcome" where
  "isspace c = ctype_test 0x0004 c"

definition isupper :: "int \<Rightarrow> int outcome" where
  "isupper c = ctype_test 0x0100 c"

definition isxdigit :: "int \<Rightarrow> int outcome" where
  "isxdigit c = ctype_test 0x0800 c"

definition isblank :: "int \<Rightarrow> int outcome" where
  "isblank c = ctype_test 0x0008 c"

definition toupper :: "int \<Rightarrow> int outcome" where
  "toupper c = obind (ctype_test 0x0200 c) (\<lambda>l. Ok (if l \<noteq> 0 then c - 97 + 65 else c))"

definition tolower :: "int \<Rightarrow> int outcome" where
  "tolower c = obind (ctype_test 0x0100 c) (\<lambda>u. Ok (if u \<noteq> 0 then c - 65 + 97 else c))"

section \<open>Parsing numbers\<close>

datatype errno = EINVAL | ERANGE

text \<open>The value of a digit character.\<close>

definition digit_of :: "u8 \<Rightarrow> int option" where
  "digit_of c = (if 48 \<le> c \<and> c \<le> 57 then Some (uint c - 48)
     else if 97 \<le> c \<and> c \<le> 122 then Some (uint c - 97 + 10)
     else if 65 \<le> c \<and> c \<le> 90 then Some (uint c - 65 + 10) else None)"

fun skip_spaces :: "u8 list \<Rightarrow> u8 list" where
  "skip_spaces (c # cs) = (if c = 32 then skip_spaces cs else c # cs)"
| "skip_spaces [] = []"

definition parse_sign :: "u8 list \<Rightarrow> bool \<times> u8 list" where
  "parse_sign s = (case s of c # cs \<Rightarrow> if c = 43 then (False, cs) else if c = 45 then (True, cs) else (False, s) | [] \<Rightarrow> (False, s))"

text \<open>A leading zero selects base 8 or, with an \<open>x\<close>, base 16, when no base is given.\<close>

definition parse_prefix :: "int \<Rightarrow> u8 list \<Rightarrow> int \<times> u8 list" where
  "parse_prefix base s =
     (case s of
        c # cs \<Rightarrow>
          if c = 48 then
            (case cs of
               x # xs \<Rightarrow> if x \<noteq> 120 \<and> x \<noteq> 88 then (if base = 0 then 8 else base, cs)
                         else (if base = 0 then 16 else base, xs)
             | [] \<Rightarrow> (if base = 0 then 8 else base, cs))
          else (base, s)
      | [] \<Rightarrow> (base, s))"

definition bad_base :: "int \<Rightarrow> bool" where
  "bad_base base \<longleftrightarrow> base < 0 \<or> base = 1 \<or> base > 36"

text \<open>
  The digit loop of the signed conversions, on a word of the width of the result: the value, the
  error set last and the rest of the string, or \<open>None\<close> when the value has become negative.  The
  product and sum wrap, as the check for a negative value presumes.
\<close>

fun signed_digits :: "int \<Rightarrow> 'a::len word \<Rightarrow> u8 list \<Rightarrow> ('a word \<times> errno option \<times> u8 list) option" where
  "signed_digits base ret [] = Some (ret, None, [])"
| "signed_digits base ret (c # cs) =
     (if c = 0 then Some (ret, None, c # cs)
      else case digit_of c of
             None \<Rightarrow> Some (ret, Some EINVAL, c # cs)
           | Some d \<Rightarrow>
               if d \<ge> base then Some (ret, Some EINVAL, c # cs)
               else let ret' = ret * of_int base + of_int d in
                    if sint ret' < 0 then None else signed_digits base ret' cs)"

text \<open>
  The signed conversions: the value, the error number they set, and what they store through
  \<^verbatim>\<open>endptr\<close>, if anything.
\<close>

definition strto_signed :: "u8 list \<Rightarrow> int \<Rightarrow> 'a::len word \<times> errno option \<times> u8 list option" where
  "strto_signed str base =
     (if bad_base base then (0, Some EINVAL, None)
      else let (sign, str1) = parse_sign (skip_spaces str);
               (base1, str2) = parse_prefix base str1
           in case signed_digits base1 0 str2 of
                None \<Rightarrow> (if sign then - (2 ^ (LENGTH('a) - 1)) else 2 ^ (LENGTH('a) - 1) - 1, Some ERANGE, None)
              | Some (ret, err, rest) \<Rightarrow> (if sign then - ret else ret, err, Some rest))"

definition strtol :: "u8 list \<Rightarrow> int \<Rightarrow> u32 \<times> errno option \<times> u8 list option" where
  "strtol = strto_signed"

definition strtoll :: "u8 list \<Rightarrow> int \<Rightarrow> u64 \<times> errno option \<times> u8 list option" where
  "strtoll = strto_signed"

fun unsigned_digits :: "int \<Rightarrow> 'a::len word \<Rightarrow> u8 list \<Rightarrow> 'a word \<times> errno option \<times> u8 list" where
  "unsigned_digits base ret [] = (ret, None, [])"
| "unsigned_digits base ret (c # cs) =
     (if c = 0 then (ret, None, c # cs)
      else case digit_of c of
             None \<Rightarrow> (ret, Some EINVAL, c # cs)
           | Some d \<Rightarrow> if d \<ge> base then (ret, Some EINVAL, c # cs)
                       else unsigned_digits base (ret * of_int base + of_int d) cs)"

definition strto_unsigned :: "u8 list \<Rightarrow> int \<Rightarrow> 'a::len word \<times> errno option \<times> u8 list option" where
  "strto_unsigned str base =
     (if bad_base base then (0, Some EINVAL, None)
      else let (base1, str1) = parse_prefix base (skip_spaces str);
               (ret, err, rest) = unsigned_digits base1 0 str1
           in (ret, err, Some rest))"

definition strtoul :: "u8 list \<Rightarrow> int \<Rightarrow> u32 \<times> errno option \<times> u8 list option" where
  "strtoul = strto_unsigned"

definition strtoull :: "u8 list \<Rightarrow> int \<Rightarrow> u64 \<times> errno option \<times> u8 list option" where
  "strtoull = strto_unsigned"

text \<open>\<^verbatim>\<open>atoi\<close> accepts decimal digits only.\<close>

fun atoi_digits :: "u32 \<Rightarrow> u8 list \<Rightarrow> (u32 \<times> errno option) option" where
  "atoi_digits ret [] = Some (ret, None)"
| "atoi_digits ret (c # cs) =
     (if c = 0 then Some (ret, None)
      else if 48 \<le> c \<and> c \<le> 57
      then let ret' = ret * 10 + (ucast c - 48) in if sint ret' < 0 then None else atoi_digits ret' cs
      else Some (ret, Some EINVAL))"

definition atoi :: "u8 list \<Rightarrow> u32 \<times> errno option" where
  "atoi str =
     (let (sign, str1) = parse_sign (skip_spaces str) in
      case atoi_digits 0 str1 of
        None \<Rightarrow> (if sign then 0x80000000 else 0x7FFFFFFF, Some ERANGE)
      | Some (ret, err) \<Rightarrow> (if sign then - ret else ret, err))"

text \<open>The classes of the ASCII characters.\<close>

definition ascii_upper :: "int \<Rightarrow> bool" where "ascii_upper c \<longleftrightarrow> 65 \<le> c \<and> c \<le> 90"

definition ascii_lower :: "int \<Rightarrow> bool" where "ascii_lower c \<longleftrightarrow> 97 \<le> c \<and> c \<le> 122"

definition ascii_digit :: "int \<Rightarrow> bool" where "ascii_digit c \<longleftrightarrow> 48 \<le> c \<and> c \<le> 57"

definition ascii_alnum :: "int \<Rightarrow> bool" where "ascii_alnum c \<longleftrightarrow> ascii_upper c \<or> ascii_lower c \<or> ascii_digit c"

definition truth :: "bool \<Rightarrow> int outcome" where
  "truth b = Ok (if b then 1 else 0)"

definition ctype_right :: "int \<Rightarrow> bool" where
  "ctype_right c \<longleftrightarrow>
     isalnum c = truth (ascii_alnum c) \<and> isalpha c = truth (ascii_upper c \<or> ascii_lower c) \<and>
     iscntrl c = truth (c < 32 \<or> c = 127) \<and> isdigit c = truth (ascii_digit c) \<and>
     isgraph c = truth (33 \<le> c \<and> c \<le> 126) \<and> islower c = truth (ascii_lower c) \<and>
     isprint c = truth (32 \<le> c \<and> c \<le> 126) \<and> ispunct c = truth (33 \<le> c \<and> c \<le> 126 \<and> \<not> ascii_alnum c) \<and>
     isspace c = truth (c = 32 \<or> 9 \<le> c \<and> c \<le> 13) \<and> isupper c = truth (ascii_upper c) \<and>
     isxdigit c = truth (ascii_digit c \<or> 65 \<le> c \<and> c \<le> 70 \<or> 97 \<le> c \<and> c \<le> 102) \<and>
     isblank c = truth (c = 32 \<or> c = 9) \<and>
     toupper c = Ok (if ascii_lower c then c - 32 else c) \<and> tolower c = Ok (if ascii_upper c then c + 32 else c)"

section \<open>Numbers in a base\<close>

text \<open>The digits of a number, most significant first, as values and as characters.\<close>

function digits_of :: "nat \<Rightarrow> nat \<Rightarrow> nat list" where
  "digits_of b n = (if b < 2 \<or> n < b then [n] else digits_of b (n div b) @ [n mod b])"
  by auto

termination by (relation "measure snd") auto

definition digit_char :: "nat \<Rightarrow> u8" where
  "digit_char d = (if d < 10 then 48 + of_nat d else 87 + of_nat d)"

definition numeral_of :: "nat \<Rightarrow> nat \<Rightarrow> u8 list" where
  "numeral_of b n = map digit_char (digits_of b n)"

definition horner :: "nat \<Rightarrow> nat \<Rightarrow> nat list \<Rightarrow> nat" where
  "horner b a ds = foldl (\<lambda>a d. a * b + d) a ds"

text \<open>What ends a number: the end of the string or a character that is no digit in any base.\<close>

definition ends_number :: "u8 list \<Rightarrow> bool" where
  "ends_number rest \<longleftrightarrow> (case rest of [] \<Rightarrow> True | c # cs \<Rightarrow> c = 0 \<or> digit_of c = None)"

definition end_errno :: "u8 list \<Rightarrow> errno option" where
  "end_errno rest = (case rest of [] \<Rightarrow> None | c # cs \<Rightarrow> if c = 0 then None else Some EINVAL)"

definition sign_chars :: "bool \<Rightarrow> bool \<Rightarrow> u8 list" where
  "sign_chars neg pl = (if neg then [45] else if pl then [43] else [])"

section \<open>Lemmas\<close>

lemma ctype_right_all: "list_all ctype_right [0 .. 127]"
  by code_simp

lemma isspace_ascii: "0 \<le> c \<Longrightarrow> c < 128 \<Longrightarrow> isspace c = Ok (if c = 32 \<or> 9 \<le> c \<and> c \<le> 13 then 1 else 0)"
  using ctype_right_all by (auto simp: list_all_iff ctype_right_def truth_def)

lemma isdigit_ascii: "0 \<le> c \<Longrightarrow> c < 128 \<Longrightarrow> isdigit c = Ok (if 48 \<le> c \<and> c \<le> 57 then 1 else 0)"
  using ctype_right_all by (auto simp: list_all_iff ctype_right_def truth_def ascii_digit_def)

text \<open>
  Character classes.  For every ASCII character the twelve class functions answer 1 or 0 by the
  definition of the class, and the case conversions change exactly the letters of the other case.
\<close>

theorem ctype_ascii:
  assumes "0 \<le> c" "c < 128" shows "ctype_right c"
proof -
  have "c \<in> set [0 .. 127]" using assms by simp
  then show ?thesis using ctype_right_all by (simp add: list_all_iff)
qed

theorem ctype_ascii_witness: "ctype_right 65"
  by (rule ctype_ascii) simp_all

declare digits_of.simps [simp del]

lemma horner_simps [simp]: "horner b a [] = a" "horner b a (d # ds) = horner b (a * b + d) ds"
  "horner b a (ds @ es) = horner b (horner b a ds) es"
  by (simp_all add: horner_def)

lemma horner_digits: "2 \<le> b \<Longrightarrow> horner b 0 (digits_of b n) = n"
proof (induction b n rule: digits_of.induct)
  case (1 b n)
  then show ?case by (subst digits_of.simps) auto
qed

lemma digits_less: "2 \<le> b \<Longrightarrow> d \<in> set (digits_of b n) \<Longrightarrow> d < b"
proof (induction b n rule: digits_of.induct)
  case (1 b n)
  then show ?case using digits_of.simps [of b n] by (auto split: if_splits)
qed

lemma digits_hd: "2 \<le> b \<Longrightarrow> 0 < n \<Longrightarrow> \<exists>d ds. digits_of b n = d # ds \<and> 0 < d"
proof (induction b n rule: digits_of.induct)
  case (1 b n)
  show ?case
  proof (cases "n < b")
    case True
    then show ?thesis using 1 by (subst digits_of.simps) simp
  next
    case False
    then show ?thesis using 1 digits_of.simps [of b n] by (auto simp: div_greater_zero_iff)
  qed
qed

lemma horner_mono: "1 \<le> b \<Longrightarrow> a \<le> horner b a ds"
proof (induction ds arbitrary: a)
  case (Cons d ds)
  have "a \<le> a * b + d" using Cons.prems by (simp add: trans_le_add1)
  then show ?case using Cons.IH [of "a * b + d"] Cons.prems by simp
qed simp

lemma digit_of_char: "d < 36 \<Longrightarrow> digit_of (digit_char d) = Some (int d) \<and> digit_char d \<noteq> 0"
proof -
  assume "d < 36"
  then have "d \<in> set [0 ..< 36]" by simp
  moreover have "list_all (\<lambda>d. digit_of (digit_char d) = Some (int d) \<and> digit_char d \<noteq> 0) [0 ..< 36]" by code_simp
  ultimately show ?thesis by (simp add: list_all_iff)
qed

lemma sint_of_nat_word: "m < 2 ^ (LENGTH('a) - 1) \<Longrightarrow> sint (of_nat m :: 'a::len word) = int m"
proof -
  assume "m < 2 ^ (LENGTH('a) - 1)"
  then have "int m < 2 ^ (LENGTH('a) - 1)" by (metis of_nat_less_iff of_nat_numeral of_nat_power)
  then show ?thesis by (simp add: signed_of_nat signed_take_bit_int_eq_self order_trans [of _ 0])
qed

lemma signed_digits_horner:
  assumes "2 \<le> b" "b \<le> 36" and "\<forall>d \<in> set ds. d < b" and "horner b a ds < 2 ^ (LENGTH('a) - 1)" and "ends_number rest"
  shows "signed_digits (int b) (of_nat a :: 'a::len word) (map digit_char ds @ rest) = Some (of_nat (horner b a ds), end_errno rest, rest)"
  using assms(3,4)
proof (induction ds arbitrary: a)
  case Nil
  then show ?case using assms(5) by (cases rest) (auto simp: ends_number_def end_errno_def)
next
  case (Cons d ds)
  have d: "digit_of (digit_char d) = Some (int d)" "digit_char d \<noteq> 0" using digit_of_char [of d] Cons.prems assms by auto
  have e: "of_nat a * of_int (int b) + of_int (int d) = (of_nat (a * b + d) :: 'a word)" by simp
  have "a * b + d < 2 ^ (LENGTH('a) - 1)" using horner_mono [of b "a * b + d" ds] Cons.prems(2) assms(1) by simp
  then have "\<not> sint (of_nat (a * b + d) :: 'a word) < 0" using sint_of_nat_word [where ?'a = 'a] by (simp only:)
  then show ?case using d Cons.IH [of "a * b + d"] Cons.prems
    unfolding list.map append_Cons signed_digits.simps Let_def d option.case e by simp
qed

lemma unsigned_digits_horner:
  assumes "b \<le> 36" and "\<forall>d \<in> set ds. d < b" and "ends_number rest"
  shows "unsigned_digits (int b) (of_nat a :: 'a::len word) (map digit_char ds @ rest) = (of_nat (horner b a ds), end_errno rest, rest)"
  using assms(2)
proof (induction ds arbitrary: a)
  case Nil
  then show ?case using assms(3) by (cases rest) (auto simp: ends_number_def end_errno_def)
next
  case (Cons d ds)
  have d: "digit_of (digit_char d) = Some (int d)" "digit_char d \<noteq> 0" using digit_of_char [of d] Cons.prems assms by auto
  have e: "of_nat a * of_int (int b) + of_int (int d) = (of_nat (a * b + d) :: 'a word)" by simp
  show ?case using d Cons.IH [of "a * b + d"] Cons.prems
    unfolding list.map append_Cons unsigned_digits.simps d option.case e by simp
qed

lemma digit_char_plain: "d < 36 \<Longrightarrow> digit_char d \<notin> {32, 43, 45}"
  "0 < d \<Longrightarrow> d < 36 \<Longrightarrow> digit_char d \<noteq> 48" "digit_char 0 = 48"
proof -
  have "list_all (\<lambda>d. digit_char d \<notin> {32, 43, 45} \<and> (d = 0 \<or> digit_char d \<noteq> 48)) [0 ..< 36]" by code_simp
  then have l: "d < 36 \<Longrightarrow> digit_char d \<notin> {32, 43, 45} \<and> (d = 0 \<or> digit_char d \<noteq> 48)" for d
    unfolding list_all_iff set_upt by (meson atLeastLessThan_iff le0)
  then show "d < 36 \<Longrightarrow> digit_char d \<notin> {32, 43, 45}" "0 < d \<Longrightarrow> d < 36 \<Longrightarrow> digit_char d \<noteq> 48"
    by blast+
qed (simp add: digit_char_def)

lemma skip_spaces_replicate [simp]: "skip_spaces (replicate k 32 @ s) = skip_spaces s"
  by (induction k) simp_all

text \<open>After the prefix test a numeral is left with its digits, a zero with none.\<close>

lemma parse_prefix_numeral:
  assumes "2 \<le> b" "b \<le> 36" "ends_number rest"
  shows "\<exists>ds. parse_prefix (int b) (numeral_of b n @ rest) = (int b, map digit_char ds @ rest) \<and>
    (\<forall>d \<in> set ds. d < b) \<and> horner b 0 ds = n"
proof (cases "n = 0")
  case True
  have "digits_of b 0 = [0]" using assms(1) by (simp add: digits_of.simps)
  then have "numeral_of b n = [48]" using True by (simp add: numeral_of_def digit_char_plain(3))
  moreover have "c \<noteq> 120 \<and> c \<noteq> 88" if "rest = c # cs" for c cs
    using assms(3) that by (auto simp: ends_number_def digit_of_def)
  ultimately have "parse_prefix (int b) (numeral_of b n @ rest) = (int b, rest)"
    using assms(1) by (auto simp: parse_prefix_def split: list.split)
  then show ?thesis using True by (intro exI [of _ "[]"]) simp
next
  case False
  obtain d ds where d: "digits_of b n = d # ds" "0 < d" using digits_hd [OF assms(1), of n] False by blast
  have l: "\<forall>d \<in> set (digits_of b n). d < b" using digits_less [OF assms(1)] by blast
  have "digit_char d \<noteq> 48" using digit_char_plain(2) [of d] d l assms(2) by simp
  then have "parse_prefix (int b) (numeral_of b n @ rest) = (int b, map digit_char (digits_of b n) @ rest)"
    using d by (simp add: parse_prefix_def numeral_of_def)
  then show ?thesis using l horner_digits [OF assms(1)] by blast
qed

lemma numeral_start:
  assumes "2 \<le> b" "b \<le> 36"
  shows "\<exists>c cs. numeral_of b n = c # cs \<and> c \<notin> {32, 43, 45}"
proof -
  obtain d ds where d: "digits_of b n = d # ds" by (metis digits_of.simps append_is_Nil_conv list.exhaust not_Cons_self2)
  then have "d < b" using digits_less [OF assms(1), of d n] by simp
  then show ?thesis using d digit_char_plain(1) [of d] assms(2) by (simp add: numeral_of_def)
qed

lemma parse_sign_numeral:
  assumes "2 \<le> b" "b \<le> 36"
  shows "parse_sign (skip_spaces (replicate k 32 @ sign_chars neg pl @ numeral_of b n @ rest)) = (neg, numeral_of b n @ rest)"
  using numeral_start [OF assms, of n] by (auto simp: sign_chars_def parse_sign_def)

lemma strto_signed_numeral:
  assumes "2 \<le> b" "b \<le> 36" "ends_number rest" and "n < 2 ^ (LENGTH('a) - 1)"
  shows "strto_signed (replicate k 32 @ sign_chars neg pl @ numeral_of b n @ rest) (int b) =
    ((if neg then - of_nat n else of_nat n) :: 'a::len word, end_errno rest, Some rest)"
proof -
  obtain ds where ds: "parse_prefix (int b) (numeral_of b n @ rest) = (int b, map digit_char ds @ rest)"
    "\<forall>d \<in> set ds. d < b" "horner b 0 ds = n" using parse_prefix_numeral [OF assms(1-3)] by blast
  have "\<not> bad_base (int b)" using assms by (simp add: bad_base_def)
  then show ?thesis
    using signed_digits_horner [OF assms(1,2) ds(2), of 0 rest, where ?'a = 'a] assms(3,4) ds(3)
    using parse_sign_numeral [OF assms(1,2), of k neg pl n rest] by (simp add: strto_signed_def ds(1) del: skip_spaces_replicate)
qed

lemma strto_unsigned_numeral:
  assumes "2 \<le> b" "b \<le> 36" "ends_number rest"
  shows "strto_unsigned (replicate k 32 @ numeral_of b n @ rest) (int b) = (of_nat n :: 'a::len word, end_errno rest, Some rest)"
proof -
  obtain ds where ds: "parse_prefix (int b) (numeral_of b n @ rest) = (int b, map digit_char ds @ rest)"
    "\<forall>d \<in> set ds. d < b" "horner b 0 ds = n" using parse_prefix_numeral [OF assms] by blast
  have "\<not> bad_base (int b)" using assms by (simp add: bad_base_def)
  moreover have "skip_spaces (numeral_of b n @ rest) = numeral_of b n @ rest" using numeral_start [OF assms(1,2), of n] by auto
  ultimately show ?thesis
    using unsigned_digits_horner [OF assms(2) ds(2) assms(3), of 0, where ?'a = 'a] ds(3)
    by (simp add: strto_unsigned_def ds(1))
qed

lemma strto_unsigned_sign:
  assumes "2 \<le> b" "b \<le> 36" and "c = 43 \<or> c = 45"
  shows "strto_unsigned (replicate k 32 @ c # cs) b = (0, Some EINVAL, Some (c # cs))"
proof -
  have "skip_spaces (replicate k 32 @ c # cs) = c # cs" using assms(3) by (induction k) auto
  moreover have "parse_prefix b (c # cs) = (b, c # cs)" using assms(3) by (auto simp: parse_prefix_def)
  moreover have "digit_of c = None \<and> c \<noteq> 0" using assms(3) by (auto simp: digit_of_def)
  moreover have "\<not> bad_base b" using assms(1,2) by (simp add: bad_base_def)
  ultimately show ?thesis by (simp add: strto_unsigned_def)
qed

text \<open>
  C28: Number parsing.  In every base from 2 to 36 \<^verbatim>\<open>strtol\<close> and \<^verbatim>\<open>strtoll\<close> read back the numeral of
  every number whose magnitude fits the result, after any number of spaces and an optional sign;
  \<^verbatim>\<open>strtoul\<close> and \<^verbatim>\<open>strtoull\<close> read back the numeral of every number after any number of spaces, reduced
  modulo the width without any error, but accept no sign: at a sign they stop with \<^verbatim>\<open>EINVAL\<close>, the value
  zero and the end pointer at the sign.  The numeral is followed by the end of the string or by a
  character that is neither a letter nor a digit; the end pointer is left there, and \<^verbatim>\<open>errno\<close> is
  \<^verbatim>\<open>EINVAL\<close> in the second case.
\<close>

theorem strto_numeral:
  assumes "2 \<le> b" "b \<le> 36" "ends_number rest"
  shows "(n < 2 ^ 31 \<longrightarrow> strtol (replicate k 32 @ sign_chars neg pl @ numeral_of b n @ rest) (int b) =
      (if neg then - of_nat n else of_nat n, end_errno rest, Some rest)) \<and>
    (n < 2 ^ 63 \<longrightarrow> strtoll (replicate k 32 @ sign_chars neg pl @ numeral_of b n @ rest) (int b) =
      (if neg then - of_nat n else of_nat n, end_errno rest, Some rest)) \<and>
    strtoul (replicate k 32 @ numeral_of b n @ rest) (int b) = (of_nat n, end_errno rest, Some rest) \<and>
    strtoull (replicate k 32 @ numeral_of b n @ rest) (int b) = (of_nat n, end_errno rest, Some rest) \<and>
    (neg \<or> pl \<longrightarrow>
      strtoul (replicate k 32 @ sign_chars neg pl @ cs) (int b) = (0, Some EINVAL, Some (sign_chars neg pl @ cs)) \<and>
      strtoull (replicate k 32 @ sign_chars neg pl @ cs) (int b) = (0, Some EINVAL, Some (sign_chars neg pl @ cs)))"
proof -
  have "2 \<le> int b" "int b \<le> 36" using assms by simp_all
  note sign = strto_unsigned_sign [OF this, where ?'a = 32] strto_unsigned_sign [OF this, where ?'a = 64]
  show ?thesis
    using strto_signed_numeral [OF assms, of n k neg pl, where ?'a = 32] strto_signed_numeral [OF assms, of n k neg pl, where ?'a = 64]
      strto_unsigned_numeral [OF assms, of k n, where ?'a = 32] strto_unsigned_numeral [OF assms, of k n, where ?'a = 64]
    by (simp add: strtol_def strtoll_def strtoul_def strtoull_def sign_chars_def sign)
qed

theorem strto_numeral_witness:
  "strtol (replicate 2 32 @ sign_chars True False @ numeral_of 10 1234 @ [59]) 10 = (- 1234, Some EINVAL, Some [59]) \<and>
   strtoul (replicate 2 32 @ sign_chars True False @ [49]) 10 = (0, Some EINVAL, Some (sign_chars True False @ [49]))"
  using strto_numeral [of 10 "[59]" 1234 2 True False "[49]"] by (simp add: ends_number_def end_errno_def digit_of_def)

text \<open>The range check looks at the sign of the wrapped product and misses overflows that wrap twice.\<close>

lemma strtol_missed_overflow: "strtol (replicate 10 57) 10 = (1410065407, None, Some [])"
  by code_simp

end
