(* ===== verification/Printf.thy ===== *)
theory Printf
  imports Stdlib
begin

text \<open>
  Formatted output of the kernel, \<^verbatim>\<open>kernel/stdc/stdio/vsnprintf.c\<close>: the decoding of conversion
  specifications, the printing of characters, strings and integers, and the loop over the format.
  Strings are lists of bytes as in \<open>Stdlib\<close>.  The variable arguments are a list of values of the
  sizes the i686 calling convention has; fetching an argument of another kind, or one that is not
  there, is \<open>Fault\<close>, as is a division by zero or a write outside a buffer.  What a function writes through
  its buffer pointer, which only moves forward, is the list of bytes it returns; \<^verbatim>\<open>char_cnt\<close> counts them.
\<close>

section \<open>Conversion specifications\<close>

datatype fmt_spec_type = ST_INVALID | ST_PERCENT | ST_WCHAR | ST_CHAR | ST_WSTR | ST_STR | ST_PTR
  | ST_ULONG_LONG | ST_LONG_LONG | ST_ULONG | ST_LONG | ST_UBYTE | ST_BYTE | ST_USHORT | ST_SHORT
  | ST_UINT | ST_INT | ST_UINTMAX_T | ST_INTMAX_T | ST_SIZE_T | ST_PTRDIFF_T | ST_DOUBLE | ST_LONG_DOUBLE

abbreviation (input) SF_LEFT :: u8 where "SF_LEFT \<equiv> 0x01"
abbreviation (input) SF_PLUS :: u8 where "SF_PLUS \<equiv> 0x02"
abbreviation (input) SF_SPACE :: u8 where "SF_SPACE \<equiv> 0x04"
abbreviation (input) SF_ZERO :: u8 where "SF_ZERO \<equiv> 0x08"
abbreviation (input) SF_LOWER :: u8 where "SF_LOWER \<equiv> 0x10"
abbreviation (input) SF_PREFIX :: u8 where "SF_PREFIX \<equiv> 0x20"
abbreviation (input) SF_PTR :: u8 where "SF_PTR \<equiv> 0x40"

abbreviation (input) WIDTH_AUTO :: int where "WIDTH_AUTO \<equiv> 0"
abbreviation (input) WIDTH_ARG :: int where "WIDTH_ARG \<equiv> - 1"
abbreviation (input) PREC_ARG :: int where "PREC_ARG \<equiv> - 1"

record fmt_spec =
  sp_type :: fmt_spec_type
  sp_width :: int
  sp_flags :: u8
  sp_base :: nat
  sp_precision :: int
  sp_next :: "u8 list"

text \<open>Storing into a signed bit-field of \<open>n\<close> bits: the width has 24, the precision 16.\<close>

definition bitfield :: "nat \<Rightarrow> int \<Rightarrow> int" where
  "bitfield n x = (x + 2 ^ (n - 1)) mod 2 ^ n - 2 ^ (n - 1)"

definition char_at :: "u8 list \<Rightarrow> u8" where
  "char_at s = (case s of c # cs \<Rightarrow> c | [] \<Rightarrow> 0)"

fun decode_flags :: "u8 \<Rightarrow> u8 list \<Rightarrow> u8 \<times> u8 list" where
  "decode_flags fl (c # cs) =
     (if c = 45 then decode_flags (fl OR SF_LEFT) cs
      else if c = 43 then decode_flags (fl OR SF_PLUS) cs
      else if c = 32 then decode_flags (fl OR SF_SPACE) cs
      else if c = 35 then decode_flags (fl OR SF_PREFIX) cs
      else if c = 48 then decode_flags (fl OR SF_ZERO) cs
      else (fl, c # cs))"
| "decode_flags fl [] = (fl, [])"

text \<open>A decimal number, accumulated in a bit-field of \<open>n\<close> bits.\<close>

fun decode_number :: "nat \<Rightarrow> int \<Rightarrow> u8 list \<Rightarrow> (int \<times> u8 list) outcome" where
  "decode_number n v (c # cs) =
     (if c = 0 then Ok (v, c # cs)
      else obind (isdigit (sint c)) (\<lambda>b.
        if b \<noteq> 0 then decode_number n (bitfield n (bitfield n (v * 10) + (sint c - 48))) cs else Ok (v, c # cs)))"
| "decode_number n v [] = Ok (v, [])"

definition decode_width :: "u8 list \<Rightarrow> (int \<times> u8 list) outcome" where
  "decode_width fmt = (if char_at fmt = 42 then Ok (WIDTH_ARG, tl fmt) else decode_number 24 0 fmt)"

definition decode_precision :: "u8 list \<Rightarrow> (int \<times> u8 list) outcome" where
  "decode_precision fmt =
     (if char_at fmt = 46
      then if char_at (tl fmt) = 42 then Ok (PREC_ARG, tl (tl fmt)) else decode_number 16 0 (tl fmt)
      else Ok (0, fmt))"

definition decode_length :: "u8 list \<Rightarrow> fmt_spec_type \<times> u8 list" where
  "decode_length fmt =
     (let c = char_at fmt in
      if c = 104 then if char_at (tl fmt) = 104 then (ST_BYTE, tl (tl fmt)) else (ST_SHORT, tl fmt)
      else if c = 108 then if char_at (tl fmt) = 108 then (ST_LONG_LONG, tl (tl fmt)) else (ST_LONG, tl fmt)
      else if c = 106 then (ST_INTMAX_T, tl fmt)
      else if c = 122 then (ST_SIZE_T, tl fmt)
      else if c = 116 then (ST_PTRDIFF_T, tl fmt)
      else if c = 76 then (ST_LONG_DOUBLE, tl fmt)
      else (ST_INT, fmt))"

definition unsigned_type :: "fmt_spec_type \<Rightarrow> fmt_spec_type" where
  "unsigned_type t = (case t of ST_BYTE \<Rightarrow> ST_UBYTE | ST_SHORT \<Rightarrow> ST_USHORT | ST_INT \<Rightarrow> ST_UINT | ST_LONG \<Rightarrow> ST_ULONG
     | ST_LONG_LONG \<Rightarrow> ST_ULONG_LONG | ST_LONG_DOUBLE \<Rightarrow> ST_INVALID | _ \<Rightarrow> t)"

definition decode_specifier :: "u8 list \<Rightarrow> fmt_spec \<Rightarrow> fmt_spec" where
  "decode_specifier fmt s =
     (let c = char_at fmt; t = sp_type s; done = (\<lambda>s. s\<lparr>sp_next := tl fmt\<rparr>) in
      if c = 37 then done (s\<lparr>sp_type := ST_PERCENT\<rparr>)
      else if c = 100 \<or> c = 105
      then done (s\<lparr>sp_type := if t = ST_LONG_DOUBLE then ST_INVALID else t, sp_base := 10\<rparr>)
      else if c = 117 \<or> c = 111 \<or> c = 120 \<or> c = 88
      then done (s\<lparr>sp_flags := if c = 88 then sp_flags s else sp_flags s OR SF_LOWER, sp_type := unsigned_type t,
                  sp_base := if c = 117 then 10 else if c = 111 then 8 else 16\<rparr>)
      else if c \<in> {102, 70, 101, 69, 103, 71, 97, 65}
      then done (s\<lparr>sp_type := if t = ST_INT then ST_DOUBLE else if t = ST_LONG_DOUBLE then t else ST_INVALID\<rparr>)
      else if c = 99
      then done (s\<lparr>sp_type := if t = ST_INT then ST_CHAR else if t = ST_LONG then ST_WCHAR else ST_INVALID\<rparr>)
      else if c = 115
      then done (s\<lparr>sp_type := if t = ST_INT then ST_STR else if t = ST_LONG then ST_WSTR else ST_INVALID\<rparr>)
      else if c = 112
      then if t = ST_INT
           then done (s\<lparr>sp_precision := if sp_precision s = 0 then 8 else sp_precision s, sp_type := ST_PTR, sp_base := 16\<rparr>)
           else done (s\<lparr>sp_type := ST_INVALID\<rparr>)
      else if c = 110 then done (s\<lparr>sp_flags := sp_flags s OR SF_PTR\<rparr>)
      else s\<lparr>sp_next := fmt\<rparr>)"

definition decode_spec :: "u8 list \<Rightarrow> fmt_spec outcome" where
  "decode_spec fmt0 =
     (let (fl, fmt1) = decode_flags 0 fmt0 in
      obind (decode_width fmt1) (\<lambda>(w, fmt2).
      obind (decode_precision fmt2) (\<lambda>(p, fmt3).
        let (t, fmt4) = decode_length fmt3 in
        Ok (decode_specifier fmt4 \<lparr>sp_type = t, sp_width = w, sp_flags = fl, sp_base = 0, sp_precision = p, sp_next = []\<rparr>))))"

section \<open>Arguments\<close>

datatype arg = A32 u32 | A64 u64 | AStr "u8 list option" | ADouble | ALongDouble

fun va_arg32 :: "arg list \<Rightarrow> (u32 \<times> arg list) outcome" where
  "va_arg32 (A32 w # as) = Ok (w, as)"
| "va_arg32 _ = Fault"

fun va_arg64 :: "arg list \<Rightarrow> (u64 \<times> arg list) outcome" where
  "va_arg64 (A64 w # as) = Ok (w, as)"
| "va_arg64 _ = Fault"

fun va_arg_str :: "arg list \<Rightarrow> (u8 list option \<times> arg list) outcome" where
  "va_arg_str (AStr s # as) = Ok (s, as)"
| "va_arg_str _ = Fault"

fun va_arg_float :: "fmt_spec_type \<Rightarrow> arg list \<Rightarrow> arg list outcome" where
  "va_arg_float ST_DOUBLE (ADouble # as) = Ok as"
| "va_arg_float ST_LONG_DOUBLE (ALongDouble # as) = Ok as"
| "va_arg_float _ _ = Fault"

text \<open>A width or precision given by an argument replaces the one in the specification.\<close>

definition width_arg :: "fmt_spec \<Rightarrow> arg list \<Rightarrow> (fmt_spec \<times> arg list) outcome" where
  "width_arg s as = (if sp_width s = WIDTH_ARG
     then obind (va_arg32 as) (\<lambda>(w, as). Ok (s\<lparr>sp_width := bitfield 24 (sint w)\<rparr>, as)) else Ok (s, as))"

definition precision_arg :: "fmt_spec \<Rightarrow> arg list \<Rightarrow> (fmt_spec \<times> arg list) outcome" where
  "precision_arg s as = (if sp_precision s = PREC_ARG
     then obind (va_arg32 as) (\<lambda>(w, as). Ok (s\<lparr>sp_precision := bitfield 16 (sint w)\<rparr>, as)) else Ok (s, as))"

section \<open>Printing\<close>

text \<open>Writing bytes as long as there is room for \<open>len\<close> more; the loops that pad write one byte repeatedly.\<close>

fun puts :: "u8 list \<Rightarrow> u8 list \<times> nat \<Rightarrow> u8 list \<times> nat" where
  "puts [] (out, len) = (out, len)"
| "puts (c # cs) (out, len) = (if len > 0 then puts cs (out @ [c], len - 1) else (out, len))"

definition pad :: "u8 \<Rightarrow> int \<Rightarrow> u8 list" where
  "pad c n = replicate (nat n) c"

definition print_wchar :: "nat \<Rightarrow> fmt_spec \<Rightarrow> arg list \<Rightarrow> (u8 list \<times> arg list) outcome" where
  "print_wchar len s as =
     obind (va_arg32 as) (\<lambda>(w, as). obind (width_arg s as) (\<lambda>(s, as). obind (precision_arg s as) (\<lambda>(s, as). Ok ([], as))))"

text \<open>
  With a width of zero from an argument and no left adjustment, the loop condition \<^verbatim>\<open>len - 1\<close> starts from
  zero and wraps, and the loop runs past the buffer.
\<close>

definition print_char :: "nat \<Rightarrow> fmt_spec \<Rightarrow> arg list \<Rightarrow> (u8 list \<times> arg list) outcome" where
  "print_char len s0 as =
     (let left = sp_flags s0 AND SF_LEFT \<noteq> 0;
          s1 = (if sp_width s0 = WIDTH_AUTO then s0\<lparr>sp_width := 1\<rparr> else s0)
      in obind (width_arg s1 as) (\<lambda>(s2, as). obind (precision_arg s2 as) (\<lambda>(s3, as). obind (va_arg32 as) (\<lambda>(w, as).
           let ch = ucast w; width = nat (to_unsigned (sp_width s3)); len = (if len > width then width else len)
           in if left then Ok (if len > 0 then ch # replicate (len - 1) 32 else [], as)
              else if len = 0 then Fault
              else Ok (replicate (len - 1) 32 @ [ch], as)))))"

definition print_wstr :: "nat \<Rightarrow> fmt_spec \<Rightarrow> arg list \<Rightarrow> (u8 list \<times> arg list) outcome" where
  "print_wstr len s as =
     obind (va_arg32 as) (\<lambda>(w, as). obind (width_arg s as) (\<lambda>(s, as). obind (precision_arg s as) (\<lambda>(s, as). Ok ([], as))))"

text \<open>The string before its terminator, and the length that \<^verbatim>\<open>strnlen\<close> of the kernel gives.\<close>

definition cstr :: "u8 list \<Rightarrow> u8 list" where
  "cstr s = takeWhile (\<lambda>c. c \<noteq> 0) s"

fun strnlen_from :: "nat \<Rightarrow> u8 list \<Rightarrow> nat \<Rightarrow> nat" where
  "strnlen_from s [] maxlen = s"
| "strnlen_from s (c # cs) maxlen = (if c \<noteq> 0 \<and> s \<le> maxlen then strnlen_from (s + 1) cs maxlen else s)"

definition strnlen :: "u8 list \<Rightarrow> nat \<Rightarrow> nat" where
  "strnlen str maxlen = strnlen_from 0 str maxlen"

definition print_str :: "nat \<Rightarrow> fmt_spec \<Rightarrow> arg list \<Rightarrow> (u8 list \<times> arg list) outcome" where
  "print_str len s0 as =
     (let left = sp_flags s0 AND SF_LEFT \<noteq> 0 in
      obind (width_arg s0 as) (\<lambda>(s1, as). obind (precision_arg s1 as) (\<lambda>(s2, as). obind (va_arg_str as) (\<lambda>(p, as).
        let str = (case p of None \<Rightarrow> [40, 110, 117, 108, 108, 41] | Some s \<Rightarrow> s);
            slen = (if sp_width s2 > 0 then sp_width s2 else to_int (int (strnlen str len)));
            pad_len = sp_width s2 - slen;
            st1 = (if left then ([], len) else puts (pad 32 pad_len) ([], len));
            st2 = puts (take (nat slen) (cstr str)) st1;
            st3 = (if left then puts (pad 32 pad_len) st2 else st2)
        in Ok (fst st3, as)))))"

definition hex_table_lower :: "u8 list" where
  "hex_table_lower = [48, 49, 50, 51, 52, 53, 54, 55, 56, 57, 97, 98, 99, 100, 101, 102]"

definition hex_table_upper :: "u8 list" where
  "hex_table_upper = [48, 49, 50, 51, 52, 53, 54, 55, 56, 57, 65, 66, 67, 68, 69, 70]"

text \<open>The digits, least significant first, in a buffer of 22 bytes.\<close>

function reverse_digits :: "u8 list \<Rightarrow> nat \<Rightarrow> u64 \<Rightarrow> u8 list \<Rightarrow> u8 list outcome" where
  "reverse_digits hex_table base num rbuf =
     (if num = 0 then Ok rbuf
      else if base = 0 then Fault
      else if \<not> length rbuf < 22 \<or> \<not> unat num mod base < length hex_table then Fault
      else reverse_digits hex_table base (of_nat (unat num div base)) (rbuf @ [hex_table ! (unat num mod base)]))"
  by pat_completeness auto
termination by (relation "measure (\<lambda>(h, b, n, r). 22 - length r)") auto

declare reverse_digits.simps [simp del]

definition do_print_int :: "nat \<Rightarrow> u64 \<Rightarrow> fmt_spec \<Rightarrow> bool \<Rightarrow> u8 list outcome" where
  "do_print_int len num0 spec is_signed =
     (let hex_table = (if sp_flags spec AND SF_LOWER \<noteq> 0 then hex_table_lower else hex_table_upper);
          negative = is_signed \<and> sp_base spec = 10 \<and> sint num0 < 0;
          num = (if negative then - num0 else num0);
          sign_char = (if negative then 45 else if sp_flags spec AND SF_SPACE \<noteq> 0 then 32 else 43)
      in obind (reverse_digits hex_table (sp_base spec) num []) (\<lambda>rbuf0.
           let rbuf = (if rbuf0 = [] then [48] else rbuf0);
               rbuf_len = int (length rbuf);
               left = sp_flags spec AND SF_LEFT \<noteq> 0;
               zero = sp_flags spec AND SF_ZERO \<noteq> 0;
               precision = (if zero then bitfield 16 (max (sp_width spec) (sp_precision spec)) else sp_precision spec);
               pad_len0 = (if zero then 0 else sp_width spec - max (sp_precision spec) rbuf_len);
               signed = (sign_char = 45 \<or> sp_flags spec AND (SF_SPACE OR SF_PLUS) \<noteq> 0) \<and> len > 0;
               st1 = (if signed then puts [sign_char] ([], len) else ([], len));
               pad_len = (if signed then pad_len0 - 1 else pad_len0);
               st2 = (if left then st1 else puts (pad 32 pad_len) st1);
               st3 = puts (pad 48 (precision - rbuf_len)) st2;
               st4 = puts (rev rbuf) st3;
               st5 = (if left then puts (pad 32 pad_len) st4 else st4)
           in Ok (fst st5)))"

text \<open>The number argument by the type of the specification, converted to 64 bits, and whether it is signed.\<close>

definition int_arg :: "fmt_spec_type \<Rightarrow> arg list \<Rightarrow> (u64 \<times> bool \<times> arg list) outcome" where
  "int_arg t as =
     (if t \<in> {ST_ULONG_LONG, ST_UINTMAX_T} then obind (va_arg64 as) (\<lambda>(w, as). Ok (w, False, as))
      else if t \<in> {ST_LONG_LONG, ST_INTMAX_T} then obind (va_arg64 as) (\<lambda>(w, as). Ok (w, True, as))
      else if t \<in> {ST_ULONG, ST_UINT, ST_SIZE_T, ST_PTR} then obind (va_arg32 as) (\<lambda>(w, as). Ok (ucast w, False, as))
      else if t \<in> {ST_LONG, ST_INT, ST_PTRDIFF_T} then obind (va_arg32 as) (\<lambda>(w, as). Ok (scast w, True, as))
      else if t = ST_UBYTE then obind (va_arg32 as) (\<lambda>(w, as). Ok (ucast (ucast w :: u8), False, as))
      else if t = ST_BYTE then obind (va_arg32 as) (\<lambda>(w, as). Ok (scast (ucast w :: u8), True, as))
      else if t = ST_USHORT then obind (va_arg32 as) (\<lambda>(w, as). Ok (ucast (ucast w :: u16), False, as))
      else if t = ST_SHORT then obind (va_arg32 as) (\<lambda>(w, as). Ok (scast (ucast w :: u16), True, as))
      else Fault)"

definition print_prefixed :: "nat \<Rightarrow> u64 \<Rightarrow> fmt_spec \<Rightarrow> bool \<Rightarrow> u8 list outcome" where
  "print_prefixed len num s is_signed =
     (let w0 = (if to_unsigned (sp_width s) > int len then bitfield 24 (int len) else sp_width s);
          prefix = sp_flags s AND SF_PREFIX \<noteq> 0 \<and> sp_base s \<noteq> 10;
          p1 = prefix \<and> w0 > 0; w1 = (if p1 then w0 - 1 else w0); len1 = (if p1 then len - 1 else len);
          p2 = prefix \<and> w1 > 0 \<and> sp_base s = 16; w2 = (if p2 then w1 - 1 else w1); len2 = (if p2 then len1 - 1 else len1);
          pre = (if p1 then [48] else []) @ (if p2 then [if sp_flags s AND SF_LOWER \<noteq> 0 then 120 else 88] else [])
      in obind (do_print_int len2 num (s\<lparr>sp_width := w2\<rparr>) is_signed) (\<lambda>ds. Ok (pre @ ds)))"

definition print_int :: "nat \<Rightarrow> fmt_spec \<Rightarrow> arg list \<Rightarrow> (u8 list \<times> arg list) outcome" where
  "print_int len s0 as =
     obind (int_arg (sp_type s0) as) (\<lambda>(num, is_signed, as). obind (width_arg s0 as) (\<lambda>(s1, as).
     obind (precision_arg s1 as) (\<lambda>(s2, as). obind (print_prefixed len num s2 is_signed) (\<lambda>out. Ok (out, as)))))"

definition print_float :: "nat \<Rightarrow> fmt_spec \<Rightarrow> arg list \<Rightarrow> (u8 list \<times> arg list) outcome" where
  "print_float len s as =
     obind (va_arg_float (sp_type s) as) (\<lambda>as. obind (width_arg s as) (\<lambda>(s, as). obind (precision_arg s as) (\<lambda>(s, as). Ok ([], as))))"

definition print_spec :: "nat \<Rightarrow> fmt_spec \<Rightarrow> arg list \<Rightarrow> (u8 list \<times> arg list) outcome" where
  "print_spec len s as =
     (case sp_type s of
        ST_PERCENT \<Rightarrow> Ok (if len > 0 then [37] else [], as)
      | ST_WCHAR \<Rightarrow> print_wchar len s as
      | ST_CHAR \<Rightarrow> print_char len s as
      | ST_WSTR \<Rightarrow> print_wstr len s as
      | ST_STR \<Rightarrow> print_str len s as
      | ST_DOUBLE \<Rightarrow> print_float len s as
      | ST_LONG_DOUBLE \<Rightarrow> print_float len s as
      | ST_INVALID \<Rightarrow> Ok ([], as)
      | _ \<Rightarrow> print_int len s as)"

text \<open>Bytes written and room left add up.\<close>

definition budget :: "nat \<Rightarrow> u8 list \<times> nat \<Rightarrow> bool" where
  "budget len st \<longleftrightarrow> length (fst st) + snd st = len"

text \<open>The widths that occur are values of the bit-field.\<close>

abbreviation small_width :: "fmt_spec \<Rightarrow> bool" where
  "small_width s \<equiv> sp_width s < 2 ^ 23"

text \<open>The text of a number in the digits of the specification.\<close>

definition digits_text :: "fmt_spec \<Rightarrow> nat \<Rightarrow> u8 list" where
  "digits_text s n = map ((!) (if sp_flags s AND SF_LOWER \<noteq> 0 then hex_table_lower else hex_table_upper)) (digits_of (sp_base s) n)"

definition ex_spec :: fmt_spec where
  "ex_spec = \<lparr>sp_type = ST_INT, sp_width = 6, sp_flags = 0, sp_base = 10, sp_precision = 0, sp_next = []\<rparr>"

section \<open>Lemmas\<close>

lemma decode_number_rest: "opost (\<lambda>(v, r). length r \<le> length fmt) (decode_number n v fmt)"
proof (induction n v fmt rule: decode_number.induct)
  case (1 n v c cs)
  show ?case
  proof (cases "isdigit (sint c)")
    case (Ok b)
    then show ?thesis by (auto simp: Ok intro!: opost_weaken [OF 1])
  qed simp_all
qed simp

lemma decode_flags_rest: "length (snd (decode_flags fl fmt)) \<le> length fmt"
  by (induction fl fmt rule: decode_flags.induct) auto

lemma decode_spec_rest: "opost (\<lambda>s. length (sp_next s) \<le> length fmt) (decode_spec fmt)"
proof -
  obtain fl f1 where f: "decode_flags 0 fmt = (fl, f1)" by fastforce
  then have l1: "length f1 \<le> length fmt" using decode_flags_rest [of 0 fmt] by simp
  have w: "opost (\<lambda>(v, r). length r \<le> length f1) (decode_width f1)"
    using decode_number_rest [of f1 24 0] by (simp add: decode_width_def)
  have p: "opost (\<lambda>(v, r). length r \<le> length f2) (decode_precision f2)" for f2
    using decode_number_rest [of "tl f2" 16 0] by (auto simp: decode_precision_def intro: opost_weaken)
  have s: "length (sp_next (decode_specifier f4 s)) \<le> length f4" for f4 s
    by (simp add: decode_specifier_def Let_def)
  have t: "length (snd (decode_length f3)) \<le> length f3" for f3
    by (simp add: decode_length_def Let_def)
  show ?thesis
    unfolding decode_spec_def f
    by (simp add: Let_def split_beta, rule opost_weaken [OF w], clarsimp, rule opost_weaken [OF p], clarsimp)
      (meson l1 order_trans s t)
qed

lemma puts_eq: "puts cs (out, len) = (out @ take len cs, len - length cs)"
proof (induction cs arbitrary: out len)
  case (Cons c cs)
  show ?case by (cases len) (simp_all add: Cons.IH)
qed simp

lemma opost_true [simp]: "opost (\<lambda>_. True) m"
  by (simp add: opost_def)

lemma width_arg_any: "(\<And>s' as'. sp_type s' = sp_type s \<Longrightarrow> sp_flags s' = sp_flags s \<Longrightarrow> sp_base s' = sp_base s \<Longrightarrow> P (s', as')) \<Longrightarrow>
    opost P (width_arg s as)"
  by (auto simp: width_arg_def intro!: opost_any [of _ "va_arg32 as"])

lemma precision_arg_any: "(\<And>s' as'. sp_type s' = sp_type s \<Longrightarrow> sp_flags s' = sp_flags s \<Longrightarrow> sp_base s' = sp_base s \<Longrightarrow>
     sp_width s' = sp_width s \<Longrightarrow> P (s', as')) \<Longrightarrow> opost P (precision_arg s as)"
  by (auto simp: precision_arg_def intro!: opost_any [of _ "va_arg32 as"])

lemmas arg_rules = width_arg_any precision_arg_any opost_any [of _ "va_arg32 as" for as] opost_any [of _ "va_arg64 as" for as]
  opost_any [of _ "va_arg_str as" for as] opost_any [of _ "va_arg_float t as" for t as] opost_any [of _ "int_arg t as" for t as]

lemma print_wide_bound: "opost (\<lambda>(out, as). length out \<le> len) (print_wchar len s as)" "opost (\<lambda>(out, as). length out \<le> len) (print_wstr len s as)"
  "opost (\<lambda>(out, as). length out \<le> len) (print_float len s as)"
  by (auto simp: print_wchar_def print_wstr_def print_float_def intro!: arg_rules)

lemma print_char_bound: "opost (\<lambda>(out, as). length out \<le> len) (print_char len s as)"
  by (auto simp: print_char_def Let_def intro!: arg_rules)

lemma print_str_bound: "opost (\<lambda>(out, as). length out \<le> len) (print_str len s as)"
  by (auto simp: print_str_def Let_def puts_eq intro!: arg_rules)

lemma budget_intros:
  "budget len ([], len)" "budget len st \<Longrightarrow> budget len (puts cs st)"
  "(c \<Longrightarrow> budget len st) \<Longrightarrow> (\<not> c \<Longrightarrow> budget len st') \<Longrightarrow> budget len (if c then st else st')"
  by (simp_all add: budget_def) (cases st, auto simp: puts_eq)

lemma budget_le: "budget len st \<Longrightarrow> length (fst st) \<le> len"
  by (simp add: budget_def)

lemma do_print_int_bound: "opost (\<lambda>out. length out \<le> len) (do_print_int len num s sg)"
  unfolding do_print_int_def Let_def opost_bind opost_simps
  by (intro opost_any [of _ "reverse_digits h b n r" for h b n r] budget_le budget_intros)

lemma to_unsigned_le: "0 < x \<Longrightarrow> x < 2 ^ 32 \<Longrightarrow> \<not> to_unsigned x > n \<Longrightarrow> x \<le> n" for n :: int
  by simp

lemma bitfield_less: "1 \<le> n \<Longrightarrow> bitfield n x < 2 ^ (n - 1)"
proof -
  assume "1 \<le> n"
  then have "(2 :: int) ^ n = 2 * 2 ^ (n - 1)" by (cases n) simp_all
  moreover have "(x + 2 ^ (n - 1)) mod 2 ^ n < (2 :: int) ^ n" by (rule pos_mod_bound) simp
  ultimately show ?thesis by (simp add: bitfield_def)
qed

lemma bitfield_le: "0 < bitfield n x \<Longrightarrow> 0 \<le> x \<Longrightarrow> bitfield n x \<le> x"
  using zmod_le_nonneg_dividend [of "x + 2 ^ (n - 1)" "2 ^ n"] by (simp add: bitfield_def)

lemma width_arg_small: "small_width s \<Longrightarrow> opost (\<lambda>(s', as). small_width s') (width_arg s as)"
  using bitfield_less [of 24] by (auto simp: width_arg_def intro!: opost_any [of _ "va_arg32 as"])

lemma precision_arg_keeps: "opost (\<lambda>(s', as). sp_width s' = sp_width s) (precision_arg s as)"
  by (auto simp: precision_arg_def intro!: opost_any [of _ "va_arg32 as"])

lemma print_prefixed_bound:
  assumes "small_width s" shows "opost (\<lambda>out. length out \<le> len) (print_prefixed len num s sg)"
proof -
  define w0 where "w0 = (if to_unsigned (sp_width s) > int len then bitfield 24 (int len) else sp_width s)"
  have w: "0 < w0 \<Longrightarrow> w0 \<le> int len"
    using assms bitfield_le [of 24 "int len"] to_unsigned_le [of "sp_width s" "int len"] by (auto simp: w0_def split: if_splits)
  have d: "opost (\<lambda>out. k + length out \<le> len) (do_print_int (len - k) num s' sg)" if "k \<le> len" for k s'
    using do_print_int_bound [of "len - k" num s' sg] by (rule opost_weaken) (use that in simp)
  show ?thesis
    unfolding print_prefixed_def Let_def w0_def [symmetric]
    using w d [of 0] d [of 1] d [of 2] by (auto simp: numeral_2_eq_2)
qed

lemma print_int_bound:
  assumes "small_width s" shows "opost (\<lambda>(out, as). length out \<le> len) (print_int len s as)"
proof -
  have p: "opost (\<lambda>(s2, as). opost (\<lambda>out. length out \<le> len) (print_prefixed len num s2 sg)) (precision_arg s1 as1)"
    if "small_width s1" for s1 as1 num sg
    by (rule opost_weaken [OF precision_arg_keeps]) (use that print_prefixed_bound in auto)
  have w: "opost (\<lambda>(s1, as1). opost (\<lambda>(s2, as). opost (\<lambda>out. length out \<le> len) (print_prefixed len num s2 sg)) (precision_arg s1 as1))
      (width_arg s as2)" for as2 num sg
    by (rule opost_weaken [OF width_arg_small [OF assms]]) (use p in auto)
  show ?thesis
    unfolding print_int_def
  proof (simp, rule opost_any, clarsimp)
    fix num sg as2
    show "opost (\<lambda>(s1, as1). opost (\<lambda>(s2, as). opost (\<lambda>out. length out \<le> len) (print_prefixed len num s2 sg)) (precision_arg s1 as1))
      (width_arg s as2)" by (rule w)
  qed
qed

lemma print_spec_bound:
  assumes "small_width s" shows "opost (\<lambda>(out, as). length out \<le> len) (print_spec len s as)"
  using print_int_bound [OF assms] print_wide_bound print_char_bound print_str_bound
  by (cases "sp_type s") (simp_all add: print_spec_def del: opost_simps(1), simp_all)

lemma decode_number_small: "v < 2 ^ 23 \<Longrightarrow> opost (\<lambda>(v, r). v < 2 ^ 23) (decode_number 24 v fmt)"
proof (induction "24 :: nat" v fmt rule: decode_number.induct)
  case (1 v c cs)
  have b: "bitfield 24 x < 2 ^ 23" for x using bitfield_less [of 24 x] by simp
  show ?case
  proof (cases "isdigit (sint c)")
    case (Ok y)
    then show ?thesis using 1 b by (auto simp: Ok)
  qed (use 1 in simp_all)
qed simp

lemma decode_spec_small: "opost small_width (decode_spec fmt)"
proof -
  obtain fl f1 where f: "decode_flags 0 fmt = (fl, f1)" by fastforce
  have w: "opost (\<lambda>(v, r). v < 2 ^ 23) (decode_width f1)"
    using decode_number_small [of 0 f1] by (simp add: decode_width_def)
  have s: "sp_width (decode_specifier f4 s) = sp_width s" for f4 s
    by (simp add: decode_specifier_def Let_def)
  show ?thesis
    unfolding decode_spec_def f
    by (simp add: Let_def split_beta, rule opost_weaken [OF w], clarsimp, rule opost_any) (simp add: s)
qed

lemma digits_length: "2 \<le> b \<Longrightarrow> 0 < k \<Longrightarrow> n < b ^ k \<Longrightarrow> length (digits_of b n) \<le> k"
proof (induction k arbitrary: n)
  case (Suc k)
  show ?case
  proof (cases "n < b")
    case True
    then show ?thesis by (simp add: digits_of.simps [of b n])
  next
    case False
    then have "0 < k" using Suc.prems by (cases k) auto
    moreover have "n div b < b ^ k" using Suc.prems by (simp add: less_mult_imp_div_less mult.commute)
    ultimately show ?thesis using Suc False digits_of.simps [of b n] by simp
  qed
qed simp

lemma digits_length_u64: "b \<in> {8, 10, 16} \<Longrightarrow> length (digits_of b (unat (w :: u64))) \<le> 22"
proof (rule digits_length)
  assume b: "b \<in> {8, 10, 16}"
  then show "2 \<le> b" by auto
  have "unat w < 2 ^ 64" using unsigned_less [of w, where ?'a = nat] by simp
  also have "(2 :: nat) ^ 64 \<le> 8 ^ 22" by simp
  also have "\<dots> \<le> b ^ 22" using b by (intro power_mono) auto
  finally show "unat w < b ^ 22" .
qed simp

lemma reverse_digits_digits:
  assumes "2 \<le> b" "b \<le> length ht" "num \<noteq> 0" "length r + length (digits_of b (unat num)) \<le> 22"
  shows "reverse_digits ht b num r = Ok (r @ map ((!) ht) (rev (digits_of b (unat num))))"
  using assms(3,4)
proof (induction "unat num" arbitrary: num r rule: less_induct)
  case less
  have n0: "0 < unat num" using less.prems(1) by (simp add: unat_gt_0)
  have room: "length r < 22" using less.prems(2) digits_of.simps [of b "unat num"] by (auto split: if_splits)
  have m: "unat num mod b < length ht" using assms(1,2) mod_less_divisor [of b "unat num"] by linarith
  have s: "reverse_digits ht b num r = reverse_digits ht b (of_nat (unat num div b)) (r @ [ht ! (unat num mod b)])"
    using less.prems(1) assms(1) room m by (subst reverse_digits.simps) auto
  show ?case
  proof (cases "unat num < b")
    case True
    then have "reverse_digits ht b (of_nat (unat num div b)) q = Ok q" for q
      by (subst reverse_digits.simps) simp
    then show ?thesis using s True by (simp add: digits_of.simps [of b "unat num"])
  next
    case False
    let ?q = "of_nat (unat num div b) :: u64"
    have lt: "unat num div b < unat num" using n0 assms(1) by simp
    have q: "unat ?q = unat num div b"
      using le_less_trans [OF div_le_dividend unsigned_less [of num, where ?'a = nat]] by (simp add: unat_of_nat take_bit_nat_eq_self)
    have d: "digits_of b (unat num) = digits_of b (unat num div b) @ [unat num mod b]"
      using False assms(1) by (subst digits_of.simps) simp
    have "0 < unat num div b" using False assms(1) by (simp add: div_greater_zero_iff)
    then have nz: "?q \<noteq> 0" using q by auto
    show ?thesis using less.hyps [of ?q "r @ [ht ! (unat num mod b)]"] lt q nz less.prems(2) d s by simp
  qed
qed

lemma hex_tables: "length hex_table_lower = 16" "length hex_table_upper = 16"
  "d < 16 \<Longrightarrow> hex_table_lower ! d = digit_char d"
proof -
  have "list_all (\<lambda>d. hex_table_lower ! d = digit_char d) [0 ..< 16]" by code_simp
  then show "d < 16 \<Longrightarrow> hex_table_lower ! d = digit_char d" unfolding list_all_iff set_upt by (meson atLeastLessThan_iff le0)
qed (simp_all add: hex_table_lower_def hex_table_upper_def)

lemma puts_puts: "puts cs (puts bs st) = puts (bs @ cs) st"
  by (cases st) (simp add: puts_eq)

lemma rbuf_text:
  assumes "sp_base s \<in> {8, 10, 16}" and ht: "ht = (if sp_flags s AND SF_LOWER \<noteq> 0 then hex_table_lower else hex_table_upper)"
  shows "\<exists>rb. reverse_digits ht (sp_base s) num [] = Ok rb \<and> rev (if rb = [] then [48] else rb) = digits_text s (unat num)"
proof (cases "num = 0")
  case True
  have "ht ! 0 = 48" using ht by (auto simp: hex_table_lower_def hex_table_upper_def)
  then show ?thesis using True assms by (auto simp: reverse_digits.simps digits_text_def digits_of.simps)
next
  case False
  have "2 \<le> sp_base s" "sp_base s \<le> length ht" using assms hex_tables by auto
  then have "reverse_digits ht (sp_base s) num [] = Ok (map ((!) ht) (rev (digits_of (sp_base s) (unat num))))"
    using reverse_digits_digits [of "sp_base s" ht num "[]"] False digits_length_u64 [OF assms(1)] by simp
  moreover have "digits_of (sp_base s) (unat num) \<noteq> []" by (subst digits_of.simps) simp
  ultimately show ?thesis using ht by (simp add: digits_text_def rev_map)
qed

text \<open>
  C39: Integer formatting.  Printing a number in base 8, 10 or 16 never overflows the 22-byte digit buffer and
  writes as much of the following text as fits the room that is left: the sign, the padding on the left, zeros up
  to the precision, the digits of the magnitude, the padding on the right.
\<close>

theorem do_print_int_layout:
  assumes "sp_base s \<in> {8, 10, 16}"
    and "neg = (is_signed \<and> sp_base s = 10 \<and> sint num < 0)"
    and "ds = digits_text s (unat (if neg then - num else num))"
    and "zero = (sp_flags s AND SF_ZERO \<noteq> 0)" and "left = (sp_flags s AND SF_LEFT \<noteq> 0)"
    and "sg = (if neg then [45] else if sp_flags s AND (SF_SPACE OR SF_PLUS) \<noteq> 0
        then [if sp_flags s AND SF_SPACE \<noteq> 0 then 32 else 43] else [])"
    and "prec = (if zero then bitfield 16 (max (sp_width s) (sp_precision s)) else sp_precision s)"
    and "blanks = pad 32 (if zero then 0 - int (length sg) else sp_width s - max (sp_precision s) (int (length ds)) - int (length sg))"
  shows "do_print_int len num s is_signed =
    Ok (take len (sg @ (if left then [] else blanks) @ pad 48 (prec - int (length ds)) @ ds @ (if left then blanks else [])))"
proof -
  define ht where "ht = (if sp_flags s AND SF_LOWER \<noteq> 0 then hex_table_lower else hex_table_upper)"
  obtain rb where rb: "reverse_digits ht (sp_base s) (if neg then - num else num) [] = Ok rb"
    "rev (if rb = [] then [48] else rb) = ds" using rbuf_text [OF assms(1) ht_def] assms(3) by blast
  have l: "length (if rb = [] then [48] else rb) = length ds" using rb(2) length_rev by metis
  show ?thesis
  proof (cases "len = 0")
    case True
    have z: "puts cs ([], 0) = ([], 0)" for cs by (simp add: puts_eq)
    show ?thesis
      unfolding do_print_int_def Let_def ht_def [symmetric] assms(2) [symmetric] rb(1) obind_simps l rb(2) True by (simp add: z)
  next
    case False
    show ?thesis
      unfolding do_print_int_def Let_def ht_def [symmetric] assms(2) [symmetric] rb(1) obind_simps l rb(2)
        assms(4) [symmetric] assms(5) [symmetric] assms(7) [symmetric]
      using False assms(6,8) by (simp add: puts_puts puts_eq)
  qed
qed

lemma ex_spec_text: "digits_text ex_spec 42 = [52, 50]"
  by code_simp

lemma ex_blanks: "replicate 3 c = [c, c, c]"
  by (simp add: numeral_eq_Suc)

lemma ex_spec_fields: "sp_base ex_spec = 10" "sp_flags ex_spec = 0" "sp_width ex_spec = 6" "sp_precision ex_spec = 0"
  by (simp_all add: ex_spec_def)

theorem do_print_int_layout_witness:
  "do_print_int 10 (- 42) ex_spec True = Ok [45, 32, 32, 32, 52, 50]"
  using do_print_int_layout [OF _ refl refl refl refl refl refl refl, where s = ex_spec and is_signed = True and num = "- 42" and len = 10]
  by (simp add: ex_spec_text ex_spec_fields pad_def ex_blanks)

end
