(* ===== verification/Vsnprintf.thy ===== *)
theory Vsnprintf
  imports Printf
begin

text \<open>
  The formatting loop of \<^verbatim>\<open>vsnprintf\<close> in \<^verbatim>\<open>kernel/stdc/stdio/vsnprintf.c\<close>, over the decoder and the
  printers of \<open>Printf\<close>: what it writes and counts, and its composition with the number parser.
\<close>

section \<open>The loop over the format\<close>

function vsnprintf_loop :: "u8 list \<Rightarrow> nat \<Rightarrow> u8 list \<Rightarrow> arg list \<Rightarrow> (u8 list \<times> nat) outcome" where
  "vsnprintf_loop fmt len out as =
     (case fmt of
        [] \<Rightarrow> Ok (out, len)
      | c # cs \<Rightarrow>
          if c = 0 \<or> len = 0 then Ok (out, len)
          else if c \<noteq> 37 then vsnprintf_loop cs (len - 1) (out @ [c]) as
          else obind (decode_spec cs) (\<lambda>spec.
                 obind (print_spec len spec as) (\<lambda>(w, as').
                   vsnprintf_loop (sp_next spec) (len - length w) (out @ w) as')))"
  by pat_completeness auto
termination
proof (relation "measure (\<lambda>(f, l, o', a). length f)", goal_cases)
  case (3 fmt len out as c cs spec a x y)
  then have "length (sp_next spec) \<le> length cs" using opostD [OF decode_spec_rest] by blast
  then show ?case using 3(1) by simp
qed auto

declare vsnprintf_loop.simps [simp del]

text \<open>
  \<open>buf\<close> is the address of the buffer.  The result is the value returned and the bytes written from there on,
  the terminator included when there is room for it.
\<close>

definition clamp_len :: "nat \<Rightarrow> nat \<Rightarrow> nat" where
  "clamp_len buf len = (if buf + len \<ge> 2 ^ 32 then 2 ^ 32 - 1 - buf else len)"

definition vsnprintf :: "nat \<Rightarrow> nat \<Rightarrow> u8 list \<Rightarrow> arg list \<Rightarrow> (nat \<times> u8 list) outcome" where
  "vsnprintf buf len fmt as =
     (if len > 2 ^ 31 - 1 then Ok (0, [])
      else obind (vsnprintf_loop fmt (clamp_len buf len) [] as) (\<lambda>(out, len').
        Ok (length out, if len' > 0 then out @ [0] else out)))"

definition fmt_d :: "u8 list" where "fmt_d = [37, 100]"

definition fmt_u :: "u8 list" where "fmt_u = [37, 117]"

definition fmt_x :: "u8 list" where "fmt_x = [37, 120]"

definition text_d :: "u32 \<Rightarrow> u8 list" where
  "text_d w = (if sint w < 0 then 45 # numeral_of 10 (nat (- sint w)) else numeral_of 10 (nat (sint w)))"

section \<open>Lemmas\<close>

lemma vsnprintf_loop_bound:
  "opost (\<lambda>(w, l). length w + l = length out + len) (vsnprintf_loop fmt len out as)"
proof (induction fmt len out as rule: vsnprintf_loop.induct)
  case (1 fmt len out as)
  show ?case
  proof (cases fmt)
    case Nil
    then show ?thesis by (subst vsnprintf_loop.simps) simp
  next
    case (Cons c cs)
    consider "c = 0 \<or> len = 0" | "c \<noteq> 0" "len \<noteq> 0" "c \<noteq> 37" | "c \<noteq> 0" "len \<noteq> 0" "c = 37" by blast
    then show ?thesis
    proof cases
      case 1
      then show ?thesis using Cons by (subst vsnprintf_loop.simps) simp
    next
      case 2
      have "opost (\<lambda>(w, l). length w + l = length (out @ [c]) + (len - 1)) (vsnprintf_loop cs (len - 1) (out @ [c]) as)"
        using 1(1) [OF Cons] 2 by blast
      then show ?thesis using 2 Cons by (subst vsnprintf_loop.simps) simp
    next
      case 3
      have "opost (\<lambda>(w, l). length w + l = length out + len) (vsnprintf_loop (sp_next spec) (len - length w) (out @ w) as')"
        if s: "decode_spec cs = Ok spec" and p: "print_spec len spec as = Ok (w, as')" for spec w as'
      proof -
        have "length w \<le> len" using opostD [OF print_spec_bound [of spec len as] p] opostD [OF decode_spec_small s] by simp
        moreover have "opost (\<lambda>(v, l). length v + l = length (out @ w) + (len - length w))
            (vsnprintf_loop (sp_next spec) (len - length w) (out @ w) as')"
          using 1(2) [OF Cons _ _ s p] 3 by blast
        ultimately show ?thesis by simp
      qed
      then show ?thesis using 3 Cons by (subst vsnprintf_loop.simps) (auto simp: opost_def obind_Ok_iff)
    qed
  qed
qed

text \<open>
  C10: Formatted output stays in its buffer.  For every format and every list of arguments, a call of
  \<^verbatim>\<open>vsnprintf\<close> that returns has written at most as many bytes as it was given room for, none of them beyond the end
  of the address space; it returns the number of bytes of the text, and the text is terminated unless it fills the
  buffer.
\<close>

theorem vsnprintf_bounds:
  assumes "buf < 2 ^ 32"
  shows "opost (\<lambda>(n, w). length w \<le> len \<and> buf + length w \<le> 2 ^ 32 \<and> n \<le> length w \<and>
     (n < clamp_len buf len \<and> len < 2 ^ 31 \<longrightarrow> length w = n + 1 \<and> last w = 0)) (vsnprintf buf len fmt as)"
proof (cases "len > 2 ^ 31 - 1")
  case True
  then show ?thesis using assms by (simp add: vsnprintf_def)
next
  case False
  have c: "clamp_len buf len \<le> len" "buf + clamp_len buf len \<le> 2 ^ 32" using assms by (auto simp: clamp_len_def)
  show ?thesis
    unfolding vsnprintf_def using False
    by (simp add: split_beta, intro opost_weaken [OF vsnprintf_loop_bound]) (use c in auto)
qed

theorem vsnprintf_bounds_witness:
  "\<exists>w. vsnprintf 4096 4 [37, 115, 33] [AStr (Some [111, 107])] = Ok (3, w) \<and> length w = 4 \<and> last w = 0"
proof -
  let ?r = "vsnprintf 4096 4 [37, 115, 33] [AStr (Some [111, 107])]"
  have c: "clamp_len 4096 4 = 4" by (simp add: clamp_len_def)
  have "vsnprintf_loop [37, 115, 33] 4 [] [AStr (Some [111, 107])] = Ok ([111, 107, 33], 1)" by code_simp
  then obtain w where w: "?r = Ok (3, w)" by (simp add: vsnprintf_def c)
  have "3 < clamp_len 4096 4" by (simp add: c)
  then show ?thesis using vsnprintf_bounds [of 4096 4 "[37, 115, 33]" "[AStr (Some [111, 107])]"] w by simp
qed

lemma digits_text_numeral:
  assumes "sp_base s \<in> {8, 10, 16}" and "sp_base s = 10 \<or> sp_flags s AND SF_LOWER \<noteq> 0"
  shows "digits_text s n = numeral_of (sp_base s) n"
proof -
  have u: "d < 10 \<Longrightarrow> hex_table_upper ! d = digit_char d" for d
  proof -
    have "list_all (\<lambda>d. hex_table_upper ! d = digit_char d) [0 ..< 10]" by code_simp
    then show "d < 10 \<Longrightarrow> hex_table_upper ! d = digit_char d" unfolding list_all_iff set_upt by (meson atLeastLessThan_iff le0)
  qed
  have b: "2 \<le> sp_base s" "sp_base s \<le> 16" using assms(1) by auto
  have "(if sp_flags s AND SF_LOWER \<noteq> 0 then hex_table_lower else hex_table_upper) ! d = digit_char d" if "d \<in> set (digits_of (sp_base s) n)" for d
  proof (cases "sp_flags s AND SF_LOWER \<noteq> 0")
    case True
    then show ?thesis using hex_tables(3) [of d] digits_less [OF b(1) that] b(2) by simp
  next
    case False
    then show ?thesis using u digits_less [OF b(1) that] assms(2) by simp
  qed
  then show ?thesis unfolding digits_text_def numeral_of_def by (intro map_cong refl)
qed

lemma print_plain:
  assumes "sp_base s \<in> {8, 10, 16}" and "sp_flags s \<in> {0, SF_LOWER}" and "sp_base s = 10 \<or> sp_flags s = SF_LOWER"
    and "sp_width s = 0" "sp_precision s = 0"
    and t: "t = (if is_signed \<and> sp_base s = 10 \<and> sint num < 0 then 45 # numeral_of (sp_base s) (unat (- num)) else numeral_of (sp_base s) (unat num))"
    and "length t \<le> len"
  shows "print_prefixed len num s is_signed = Ok t"
proof -
  have f: "sp_flags s AND SF_ZERO = 0" "sp_flags s AND SF_LEFT = 0" "sp_flags s AND (SF_SPACE OR SF_PLUS) = 0"
    "sp_flags s AND SF_PREFIX = 0" using assms(2) by auto
  have n: "digits_text s m = numeral_of (sp_base s) m" for m
    using digits_text_numeral [OF assms(1)] assms(3) by auto
  have "do_print_int len num s is_signed = Ok (take len t)"
    using do_print_int_layout [OF assms(1) refl refl refl refl refl refl refl, of len num is_signed]
    unfolding t n f assms(4,5) by (cases "is_signed \<and> sp_base s = 10 \<and> sint num < 0"; cases len) (simp_all add: pad_def)
  moreover have "s\<lparr>sp_width := 0\<rparr> = s" using assms(4) by (cases s) simp
  ultimately have "do_print_int len num (s\<lparr>sp_width := 0\<rparr>) is_signed = Ok (take len t)" by (simp only:)
  then show ?thesis using assms(4,7) f by (simp add: print_prefixed_def Let_def)
qed

lemma decode_dux:
  "decode_spec [100] = Ok \<lparr>sp_type = ST_INT, sp_width = 0, sp_flags = 0, sp_base = 10, sp_precision = 0, sp_next = []\<rparr>"
  "decode_spec [117] = Ok \<lparr>sp_type = ST_UINT, sp_width = 0, sp_flags = SF_LOWER, sp_base = 10, sp_precision = 0, sp_next = []\<rparr>"
  "decode_spec [120] = Ok \<lparr>sp_type = ST_UINT, sp_width = 0, sp_flags = SF_LOWER, sp_base = 16, sp_precision = 0, sp_next = []\<rparr>"
  by code_simp+

lemma vsnprintf_one:
  assumes "decode_spec [c] = Ok s" "sp_next s = []" "0 < len" "len < 2 ^ 31" "buf + len < 2 ^ 32"
    and "print_spec len s as = Ok (t, as')" "length t < len"
  shows "vsnprintf buf len [37, c] as = Ok (length t, t @ [0])"
proof -
  have "vsnprintf_loop [] l t a = Ok (t, l)" for l a by (subst vsnprintf_loop.simps) simp
  then have "vsnprintf_loop [37, c] len [] as = Ok (t, len - length t)"
    using assms by (subst vsnprintf_loop.simps) simp
  then show ?thesis using assms by (simp add: vsnprintf_def clamp_len_def)
qed

lemma numeral_length_u32:
  assumes "b \<in> {8, 10, 16}" "n < 2 ^ 32" shows "length (numeral_of b n) \<le> 11"
proof -
  have "n < 8 ^ 11" using assms(2) by simp
  also have "\<dots> \<le> b ^ 11" using assms(1) by (intro power_mono) auto
  finally show ?thesis using digits_length [of b 11 n] assms(1) by (auto simp: numeral_of_def)
qed

lemma decimal_length_u32: "n < 2 ^ 32 \<Longrightarrow> length (numeral_of 10 n) \<le> 10"
  using digits_length [of 10 10 n] by (simp add: numeral_of_def)

lemma sint_scast64: "sint (scast (w :: u32) :: u64) = sint w"
  by (rule sint_up_scast) (simp add: is_up)

lemma scast64_magnitude:
  fixes w :: u32
  shows "sint w < 0 \<Longrightarrow> unat (- (scast w :: u64)) = nat (- sint w)" "\<not> sint w < 0 \<Longrightarrow> unat (scast w :: u64) = nat (sint w)"
proof -
  have r: "- (2 ^ 31) \<le> sint w" "sint w < 2 ^ 31" using sint_ge [of w] sint_lt [of w] by simp_all
  have e: "- (scast w :: u64) = of_int (- sint w)" "(scast w :: u64) = of_int (sint w)" by simp_all
  have u: "unat (of_int k :: u64) = nat k" if "0 \<le> k" "k < 2 ^ 64" for k
    using that by (simp add: unsigned_of_int take_bit_int_eq_self)
  show "unat (- (scast w :: u64)) = nat (- sint w)" if "sint w < 0"
    unfolding e(1) by (rule u) (use that r in simp_all)
  show "unat (scast w :: u64) = nat (sint w)" if "\<not> sint w < 0"
    unfolding e(2) by (rule u) (use that r in simp_all)
qed

lemma sint_range_u32: "- (2 ^ 31) \<le> sint (w :: u32)" "sint w < 2 ^ 31"
  using sint_ge [of w] sint_lt [of w] by simp_all

lemma text_length: "length (text_d w) \<le> 11" "length (numeral_of 10 (unat w)) \<le> 10" "length (numeral_of 16 (unat w)) \<le> 11" for w :: u32
  using decimal_length_u32 [of "nat (- sint w)"] decimal_length_u32 [of "nat (sint w)"] decimal_length_u32 [of "unat w"]
    numeral_length_u32 [of 16 "unat w"] unat_u32_less [of w] sint_range_u32 [of w]
  by (auto simp: text_d_def nat_less_iff)

lemma vsnprintf_d:
  assumes "12 \<le> len" "len < 2 ^ 31" "buf + len < 2 ^ 32"
  shows "vsnprintf buf len fmt_d [A32 w] = Ok (length (text_d w), text_d w @ [0])"
proof -
  define s where "s = \<lparr>sp_type = ST_INT, sp_width = 0, sp_flags = 0, sp_base = 10, sp_precision = 0, sp_next = []\<rparr>"
  have l: "length (text_d w) < len" using text_length(1) [of w] assms(1) by simp
  have "print_prefixed len (scast w) s True = Ok (text_d w)"
    by (rule print_plain) (use l in \<open>simp_all add: s_def text_d_def scast64_magnitude sint_scast64\<close>)
  then have "print_spec len s [A32 w] = Ok (text_d w, [])"
    by (simp add: s_def print_spec_def print_int_def int_arg_def width_arg_def precision_arg_def)
  then show ?thesis
    unfolding fmt_d_def using vsnprintf_one [OF decode_dux(1) [folded s_def] _ _ assms(2,3)] assms(1) l by (simp add: s_def)
qed

lemma vsnprintf_unsigned:
  assumes "12 \<le> len" "len < 2 ^ 31" "buf + len < 2 ^ 32" and c: "(c, b) \<in> {(117, 10), (120, 16)}"
  shows "vsnprintf buf len [37, c] [A32 w] = Ok (length (numeral_of b (unat w)), numeral_of b (unat w) @ [0])"
proof -
  define s where "s = \<lparr>sp_type = ST_UINT, sp_width = 0, sp_flags = SF_LOWER, sp_base = b, sp_precision = 0, sp_next = []\<rparr>"
  have u: "unat (ucast w :: u64) = unat w" using unat_u32_less [of w] by (simp add: unsigned_ucast_eq take_bit_nat_eq_self)
  have l: "length (numeral_of b (unat w)) < len" using text_length [of w] assms(1) c by auto
  have d: "decode_spec [c] = Ok s" using decode_dux c by (auto simp: s_def)
  have "print_prefixed len (ucast w) s False = Ok (numeral_of b (unat w))"
    by (rule print_plain) (use l c in \<open>auto simp: s_def u\<close>)
  then have "print_spec len s [A32 w] = Ok (numeral_of b (unat w), [])"
    by (simp add: s_def print_spec_def print_int_def int_arg_def width_arg_def precision_arg_def)
  then show ?thesis using vsnprintf_one [OF d _ _ assms(2,3)] assms(1) l by (simp add: s_def)
qed

lemma strtol_text_d:
  assumes "w \<noteq> 0x80000000" shows "strtol (text_d w) 10 = (w, None, Some [])"
proof -
  have e: "ends_number []" "end_errno [] = None" by (simp_all add: ends_number_def end_errno_def)
  have m: "- sint w < 2 ^ 31"
  proof (rule ccontr)
    assume "\<not> ?thesis"
    then have "sint w = sint (0x80000000 :: u32)" using sint_range_u32 [of w] by simp
    then show False using assms signed_word_eqI by blast
  qed
  show ?thesis
  proof (cases "sint w < 0")
    case True
    then have "- of_nat (nat (- sint w)) = w" by (simp add: of_nat_nat)
    then show ?thesis
      using True m strto_signed_numeral [of 10 "[]" "nat (- sint w)" 0 True False, where ?'a = 32] e
      by (simp add: text_d_def strtol_def sign_chars_def)
  next
    case False
    then have "of_nat (nat (sint w)) = w" by (simp add: of_nat_nat)
    then show ?thesis
      using False sint_range_u32 [of w] strto_signed_numeral [of 10 "[]" "nat (sint w)" 0 False False, where ?'a = 32] e
      by (simp add: text_d_def strtol_def sign_chars_def)
  qed
qed

lemma strtoul_numeral: "2 \<le> b \<Longrightarrow> b \<le> 36 \<Longrightarrow> strtoul (numeral_of b (unat w)) (int b) = (w, None, Some [])"
  using strto_unsigned_numeral [of b "[]" 0 "unat w", where ?'a = 32]
  by (simp add: strtoul_def ends_number_def end_errno_def)

text \<open>
  C31: Printing and parsing.  With room for twelve bytes \<^verbatim>\<open>vsnprintf\<close> prints any 32-bit number with \<open>%d\<close>, \<open>%u\<close> and
  \<open>%x\<close> completely and terminates the text, and \<^verbatim>\<open>strtol\<close> and \<^verbatim>\<open>strtoul\<close> in the base of the conversion read the number
  back from it without error, up to the end of the text; the smallest signed number alone is out of range for \<^verbatim>\<open>strtol\<close>.
\<close>

theorem print_parse_number:
  assumes "12 \<le> len" "len < 2 ^ 31" "buf + len < 2 ^ 32" and "w \<noteq> 0x80000000"
  shows "(\<exists>t. vsnprintf buf len fmt_d [A32 w] = Ok (length t, t @ [0]) \<and> strtol t 10 = (w, None, Some [])) \<and>
    (\<exists>t. vsnprintf buf len fmt_u [A32 w] = Ok (length t, t @ [0]) \<and> strtoul t 10 = (w, None, Some [])) \<and>
    (\<exists>t. vsnprintf buf len fmt_x [A32 w] = Ok (length t, t @ [0]) \<and> strtoul t 16 = (w, None, Some []))"
  using vsnprintf_d [OF assms(1-3)] strtol_text_d [OF assms(4)] vsnprintf_unsigned [OF assms(1-3), of 117 10]
    vsnprintf_unsigned [OF assms(1-3), of 120 16] strtoul_numeral [of 10 w] strtoul_numeral [of 16 w]
  by (auto simp: fmt_u_def fmt_x_def)

theorem print_parse_number_witness:
  "\<exists>t. vsnprintf 4096 64 fmt_d [A32 (- 1234)] = Ok (length t, t @ [0]) \<and> strtol t 10 = (- 1234, None, Some [])"
  using print_parse_number [of 64 4096 "- 1234"] by simp

end
