(* ===== verification/Json.thy ===== *)
theory Json
  imports Stdlib
begin

text \<open>
  The JSON parser of the boot loader, \<^verbatim>\<open>boot/json/json.c\<close>, that reads its configuration.  The text is the list of
  the bytes of its buffer, of which the first \<open>len\<close> are parsed; reading a byte outside the buffer is \<open>Fault\<close>, as is
  writing outside an allocated string.  \<open>grant k\<close> tells whether the allocator grants the \<open>k\<close>-th request.  The functions
  that call each other take fuel, one unit for each call; \<^verbatim>\<open>json_parse\<close> gives them more than any text can use.
\<close>

section \<open>Values and state\<close>

datatype json_value = JVT_NULL | JVT_STRING "u8 list" | JVT_NUMBER u64 | JVT_BOOLEAN bool
  | JVT_OBJECT "(u8 list \<times> json_value) list" | JVT_ARRAY "(u32 \<times> json_value) list"

record json_state =
  cursor :: nat
  requests :: nat

abbreviation (input) JSON_SYNTAX_ERR :: status where "JSON_SYNTAX_ERR \<equiv> 0xFFFFFFFF"

type_synonym 'a parsed = "(status \<times> 'a option \<times> json_state) outcome"

definition peek :: "u8 list \<Rightarrow> nat \<Rightarrow> u8 outcome" where
  "peek str i = (if i < length str then Ok (str ! i) else Fault)"

definition json_fail :: "status \<Rightarrow> json_state \<Rightarrow> 'a parsed" where
  "json_fail st s = Ok (st, None, s)"

definition json_ok :: "'a \<Rightarrow> json_state \<Rightarrow> 'a parsed" where
  "json_ok v s = Ok (STATUS_SUCCESS, Some v, s)"

text \<open>\<^verbatim>\<open>malloc\<close>, as the number of the request.\<close>

definition json_malloc :: "json_state \<Rightarrow> json_state" where
  "json_malloc s = s\<lparr>requests := requests s + 1\<rparr>"

text \<open>\<^verbatim>\<open>if (++state->cursor >= state->len) \<dots>\<close>: the state after the step and whether text is left.\<close>

definition step :: "json_state \<Rightarrow> json_state" where
  "step s = s\<lparr>cursor := cursor s + 1\<rparr>"

section \<open>Tokens\<close>

function skip_to :: "u8 list \<Rightarrow> nat \<Rightarrow> nat \<Rightarrow> nat outcome" where
  "skip_to str len c =
     (if c < len
      then obind (peek str c) (\<lambda>ch. obind (isspace (sint ch)) (\<lambda>b. if b \<noteq> 0 then skip_to str len (c + 1) else Ok c))
      else Ok c)"
  by pat_completeness auto
termination by (relation "measure (\<lambda>(str, len, c). len - c)") auto

declare skip_to.simps [simp del]

definition skip_whitespace :: "u8 list \<Rightarrow> nat \<Rightarrow> json_state \<Rightarrow> json_state outcome" where
  "skip_whitespace str len s = obind (skip_to str len (cursor s)) (\<lambda>c. Ok (s\<lparr>cursor := c\<rparr>))"

function count_from :: "u8 list \<Rightarrow> nat \<Rightarrow> nat \<Rightarrow> nat \<Rightarrow> nat \<Rightarrow> nat outcome" where
  "count_from str len cur i n =
     (if cur + i < len
      then obind (peek str (cur + i)) (\<lambda>ch.
        if ch = 92 then count_from str len cur (i + 2) (n + 1)
        else if ch = 34 then Ok n
        else count_from str len cur (i + 1) (n + 1))
      else Ok n)"
  by pat_completeness auto
termination by (relation "measure (\<lambda>(str, len, cur, i, n). len - (cur + i))") auto

declare count_from.simps [simp del]

definition count_escaped_string_len :: "u8 list \<Rightarrow> nat \<Rightarrow> json_state \<Rightarrow> nat outcome" where
  "count_escaped_string_len str len s = count_from str len (cursor s) 0 0"

text \<open>The copying loop of \<^verbatim>\<open>parse_string_literal\<close>, into a buffer of \<open>cap\<close> bytes.\<close>

function literal_loop :: "u8 list \<Rightarrow> nat \<Rightarrow> nat \<Rightarrow> u8 list \<Rightarrow> json_state \<Rightarrow> u8 list parsed" where
  "literal_loop str len cap buf s =
     obind (peek str (cursor s)) (\<lambda>ch.
       if ch = 92 then
         if cursor s + 1 \<ge> len then json_fail JSON_SYNTAX_ERR (step s)
         else if cursor s + 2 \<ge> len then json_fail JSON_SYNTAX_ERR (step (step s))
         else literal_loop str len cap buf (step (step s))
       else if ch = 34 then
         if cursor s + 1 \<ge> len then json_fail JSON_SYNTAX_ERR (step s)
         else if \<not> length buf < cap then Fault
         else json_ok buf (step s)
       else if \<not> length buf < cap then Fault
       else if cursor s + 1 \<ge> len then json_fail JSON_SYNTAX_ERR (step s)
       else literal_loop str len cap (buf @ [ch]) (step s))"
  by pat_completeness auto
termination by (relation "measure (\<lambda>(str, len, cap, buf, s). len - cursor s)") (auto simp: step_def)

declare literal_loop.simps [simp del]

definition parse_string_literal :: "(nat \<Rightarrow> bool) \<Rightarrow> u8 list \<Rightarrow> nat \<Rightarrow> json_state \<Rightarrow> u8 list parsed" where
  "parse_string_literal grant str len s0 =
     obind (skip_whitespace str len s0) (\<lambda>s.
     obind (peek str (cursor s)) (\<lambda>ch.
       if ch \<noteq> 34 then json_fail JSON_SYNTAX_ERR s
       else if cursor s + 1 \<ge> len then json_fail JSON_SYNTAX_ERR (step s)
       else obind (count_escaped_string_len str len (step s)) (\<lambda>string_len.
         let s1 = json_malloc (step s) in
         if \<not> grant (requests (step s)) then json_fail STATUS_UNKNOWN_ERROR s1
         else literal_loop str len (string_len + 1) [] s1)))"

definition parse_string :: "(nat \<Rightarrow> bool) \<Rightarrow> u8 list \<Rightarrow> nat \<Rightarrow> json_state \<Rightarrow> json_value parsed" where
  "parse_string grant str len s =
     obind (peek str (cursor s)) (\<lambda>ch.
       if ch \<noteq> 34 then json_fail JSON_SYNTAX_ERR s
       else if \<not> grant (requests s) then json_fail STATUS_UNKNOWN_ERROR (json_malloc s)
       else obind (parse_string_literal grant str len (json_malloc s)) (\<lambda>(st, v, s).
         if \<not> CHECK_SUCCESS st then json_fail st s else json_ok (JVT_STRING (the v)) s))"

text \<open>The digits of a number are not limited to the text but only by the buffer.\<close>

function number_loop :: "u8 list \<Rightarrow> nat \<Rightarrow> u64 \<Rightarrow> (nat \<times> u64) outcome" where
  "number_loop str c num =
     (if c < length str
      then obind (isdigit (sint (str ! c))) (\<lambda>b.
        if b \<noteq> 0 then number_loop str (c + 1) (num * 10 + scast (str ! c) - 48) else Ok (c, num))
      else Fault)"
  by pat_completeness auto
termination by (relation "measure (\<lambda>(str, c, num). length str - c)") auto

declare number_loop.simps [simp del]

definition parse_number :: "(nat \<Rightarrow> bool) \<Rightarrow> u8 list \<Rightarrow> nat \<Rightarrow> json_state \<Rightarrow> json_value parsed" where
  "parse_number grant str len s0 =
     obind (skip_whitespace str len s0) (\<lambda>s.
     obind (peek str (cursor s)) (\<lambda>ch. obind (isdigit (sint ch)) (\<lambda>b.
       if b = 0 \<and> ch \<noteq> 45 then json_fail JSON_SYNTAX_ERR s
       else if cursor s + 1 \<ge> len then json_fail JSON_SYNTAX_ERR s
       else if \<not> grant (requests s) then json_fail STATUS_UNKNOWN_ERROR (json_malloc s)
       else
         let s1 = json_malloc s; negate = (ch = 45); s2 = (if negate then step s1 else s1)
         in obind (number_loop str (cursor s2) 0) (\<lambda>(c, num).
              json_ok (JVT_NUMBER (if negate then - num else num)) (s2\<lparr>cursor := c\<rparr>)))))"

definition parse_other :: "(nat \<Rightarrow> bool) \<Rightarrow> u8 list \<Rightarrow> nat \<Rightarrow> json_state \<Rightarrow> json_value parsed" where
  "parse_other grant str len s0 =
     obind (skip_whitespace str len s0) (\<lambda>s1.
       let s = json_malloc s1; word = (\<lambda>n. take n (drop (cursor s) str)) in
       if \<not> grant (requests s1) then json_fail STATUS_UNKNOWN_ERROR s
       else obind (peek str (cursor s)) (\<lambda>ch.
         if ch = 116 then
           if cursor s + 4 \<ge> len then json_fail JSON_SYNTAX_ERR s
           else if word 4 \<noteq> [116, 114, 117, 101] then json_fail JSON_SYNTAX_ERR s
           else json_ok (JVT_BOOLEAN True) (s\<lparr>cursor := cursor s + 4\<rparr>)
         else if ch = 102 then
           if cursor s + 5 \<ge> len then json_fail JSON_SYNTAX_ERR s
           else if word 5 \<noteq> [102, 97, 108, 115, 101] then json_fail JSON_SYNTAX_ERR s
           else json_ok (JVT_BOOLEAN False) (s\<lparr>cursor := cursor s + 5\<rparr>)
         else if ch = 110 then
           if cursor s + 4 \<ge> len then json_fail JSON_SYNTAX_ERR s
           else if word 4 \<noteq> [110, 117, 108, 108] then json_fail JSON_SYNTAX_ERR s
           else json_ok JVT_NULL (s\<lparr>cursor := cursor s + 4\<rparr>)
         else json_fail JSON_SYNTAX_ERR s))"

section \<open>Values\<close>

text \<open>
  What follows an element: the closing character ends the loop, a comma goes on; in both cases one more character is
  skipped.  The result tells whether the loop ends, or is \<open>None\<close> on an error.
\<close>

definition after_element :: "u8 \<Rightarrow> u8 list \<Rightarrow> nat \<Rightarrow> json_state \<Rightarrow> (bool option \<times> json_state) outcome" where
  "after_element close str len s =
     obind (peek str (cursor s)) (\<lambda>ch.
       if ch = close then (if cursor s + 1 \<ge> len then Ok (None, step s) else Ok (Some True, step s))
       else if ch = 44 then
         if cursor s + 1 \<ge> len then Ok (None, step s)
         else if cursor s + 2 \<ge> len then Ok (None, step (step s))
         else Ok (Some False, step (step s))
       else Ok (None, s))"

text \<open>
  The five functions that call each other, first with the calls as parameters (\<open>value\<close>, \<open>object\<close>, \<open>array\<close>, and \<open>again\<close> for the
  next round of a loop) and then tied together.
\<close>

definition value_body ::
  "(nat \<Rightarrow> bool) \<Rightarrow> u8 list \<Rightarrow> nat \<Rightarrow> (json_state \<Rightarrow> json_value parsed) \<Rightarrow> (json_state \<Rightarrow> json_value parsed) \<Rightarrow> json_state \<Rightarrow> json_value parsed" where
  "value_body grant str len object array s0 =
     obind (skip_whitespace str len s0) (\<lambda>s. obind (peek str (cursor s)) (\<lambda>ch.
       if ch = 123 then object s
       else if ch = 91 then array s
       else if ch = 34 then parse_string grant str len s
       else if 48 \<le> ch \<and> ch \<le> 57 \<or> ch = 45 then parse_number grant str len s
       else if ch = 116 \<or> ch = 102 \<or> ch = 110 then parse_other grant str len s
       else json_fail JSON_SYNTAX_ERR s))"

definition object_body ::
  "(nat \<Rightarrow> bool) \<Rightarrow> u8 list \<Rightarrow> nat \<Rightarrow> (json_state \<Rightarrow> json_value parsed) \<Rightarrow> json_state \<Rightarrow> json_value parsed" where
  "object_body grant str len loop s0 =
     obind (skip_whitespace str len s0) (\<lambda>s. obind (peek str (cursor s)) (\<lambda>ch.
       if ch \<noteq> 123 then json_fail JSON_SYNTAX_ERR s
       else if cursor s + 1 \<ge> len then json_fail JSON_SYNTAX_ERR (step s)
       else if \<not> grant (requests (step s)) then Panic STATUS_UNIMPLEMENTED
       else loop (json_malloc (step s))))"

definition object_loop_body ::
  "(nat \<Rightarrow> bool) \<Rightarrow> u8 list \<Rightarrow> nat \<Rightarrow> (json_state \<Rightarrow> json_value parsed) \<Rightarrow>
     ((u8 list \<times> json_value) list \<Rightarrow> json_state \<Rightarrow> json_value parsed) \<Rightarrow> (u8 list \<times> json_value) list \<Rightarrow> json_state \<Rightarrow> json_value parsed" where
  "object_loop_body grant str len value again es s0 =
     obind (skip_whitespace str len s0) (\<lambda>s1.
       if \<not> grant (requests s1) then Panic STATUS_UNIMPLEMENTED
       else obind (parse_string_literal grant str len (json_malloc s1)) (\<lambda>(st, key, s2).
         if \<not> CHECK_SUCCESS st then Panic STATUS_UNIMPLEMENTED
         else obind (skip_whitespace str len s2) (\<lambda>s3. obind (peek str (cursor s3)) (\<lambda>ch.
           if ch \<noteq> 58 then Panic STATUS_UNIMPLEMENTED
           else if cursor s3 + 1 \<ge> len then Panic STATUS_UNIMPLEMENTED
           else obind (skip_whitespace str len (step s3)) (\<lambda>s4.
             obind (value s4) (\<lambda>(st, v, s5).
               if \<not> CHECK_SUCCESS st then Panic STATUS_UNIMPLEMENTED
               else obind (skip_whitespace str len s5) (\<lambda>s6. obind (after_element 125 str len s6) (\<lambda>(e, s7).
                 let es' = es @ [(the key, the v)] in
                 case e of
                   None \<Rightarrow> Panic STATUS_UNIMPLEMENTED
                 | Some True \<Rightarrow> json_ok (JVT_OBJECT es') s7
                 | Some False \<Rightarrow> again es' s7))))))))"

definition array_body ::
  "(nat \<Rightarrow> bool) \<Rightarrow> u8 list \<Rightarrow> nat \<Rightarrow> (json_state \<Rightarrow> json_value parsed) \<Rightarrow> json_state \<Rightarrow> json_value parsed" where
  "array_body grant str len loop s0 =
     obind (skip_whitespace str len s0) (\<lambda>s. obind (peek str (cursor s)) (\<lambda>ch.
       if ch \<noteq> 91 then json_fail JSON_SYNTAX_ERR s
       else if cursor s + 1 \<ge> len then json_fail JSON_SYNTAX_ERR (step s)
       else if \<not> grant (requests (step s)) then json_fail STATUS_UNKNOWN_ERROR (json_malloc (step s))
       else loop (json_malloc (step s))))"

definition array_loop_body ::
  "(nat \<Rightarrow> bool) \<Rightarrow> u8 list \<Rightarrow> nat \<Rightarrow> (json_state \<Rightarrow> json_value parsed) \<Rightarrow>
     ((u32 \<times> json_value) list \<Rightarrow> json_state \<Rightarrow> json_value parsed) \<Rightarrow> (u32 \<times> json_value) list \<Rightarrow> json_state \<Rightarrow> json_value parsed" where
  "array_loop_body grant str len value again es s0 =
     obind (skip_whitespace str len s0) (\<lambda>s1.
       if \<not> grant (requests s1) then json_fail STATUS_UNKNOWN_ERROR (json_malloc s1)
       else obind (value (json_malloc s1)) (\<lambda>(st, v, s2).
         if \<not> CHECK_SUCCESS st then json_fail st s2
         else obind (skip_whitespace str len s2) (\<lambda>s3. obind (after_element 93 str len s3) (\<lambda>(e, s4).
           let es' = es @ [(of_nat (length es), the v)] in
           case e of
             None \<Rightarrow> json_fail JSON_SYNTAX_ERR s4
           | Some True \<Rightarrow> json_ok (JVT_ARRAY es') s4
           | Some False \<Rightarrow> again es' s4))))"

fun parse_value :: "(nat \<Rightarrow> bool) \<Rightarrow> u8 list \<Rightarrow> nat \<Rightarrow> nat \<Rightarrow> json_state \<Rightarrow> json_value parsed"
  and parse_object :: "(nat \<Rightarrow> bool) \<Rightarrow> u8 list \<Rightarrow> nat \<Rightarrow> nat \<Rightarrow> json_state \<Rightarrow> json_value parsed"
  and object_loop :: "(nat \<Rightarrow> bool) \<Rightarrow> u8 list \<Rightarrow> nat \<Rightarrow> nat \<Rightarrow> (u8 list \<times> json_value) list \<Rightarrow> json_state \<Rightarrow> json_value parsed"
  and parse_array :: "(nat \<Rightarrow> bool) \<Rightarrow> u8 list \<Rightarrow> nat \<Rightarrow> nat \<Rightarrow> json_state \<Rightarrow> json_value parsed"
  and array_loop :: "(nat \<Rightarrow> bool) \<Rightarrow> u8 list \<Rightarrow> nat \<Rightarrow> nat \<Rightarrow> (u32 \<times> json_value) list \<Rightarrow> json_state \<Rightarrow> json_value parsed" where
  "parse_value grant str len 0 s = Hang"
| "parse_value grant str len (Suc n) s =
     value_body grant str len (parse_object grant str len n) (parse_array grant str len n) s"
| "parse_object grant str len 0 s = Hang"
| "parse_object grant str len (Suc n) s = object_body grant str len (object_loop grant str len n []) s"
| "object_loop grant str len 0 es s = Hang"
| "object_loop grant str len (Suc n) es s = object_loop_body grant str len (parse_value grant str len n) (object_loop grant str len n) es s"
| "parse_array grant str len 0 s = Hang"
| "parse_array grant str len (Suc n) s = array_body grant str len (array_loop grant str len n []) s"
| "array_loop grant str len 0 es s = Hang"
| "array_loop grant str len (Suc n) es s = array_loop_body grant str len (parse_value grant str len n) (array_loop grant str len n) es s"

definition json_parse :: "(nat \<Rightarrow> bool) \<Rightarrow> u8 list \<Rightarrow> nat \<Rightarrow> (status \<times> json_value option) outcome" where
  "json_parse grant str len =
     obind (parse_value grant str len (3 * len + 4) \<lparr>cursor = 0, requests = 0\<rparr>) (\<lambda>(st, v, s).
       if \<not> CHECK_SUCCESS st then Ok (st, None) else Ok (STATUS_SUCCESS, v))"

section \<open>Looking up elements\<close>

text \<open>Keys are C strings, as is the name that is looked for.\<close>

fun json_object_find_value :: "(u8 list \<times> json_value) list \<Rightarrow> u8 list \<Rightarrow> status \<times> json_value option" where
  "json_object_find_value [] str = (STATUS_ENTRY_NOT_FOUND, None)"
| "json_object_find_value ((key, v) # es) str =
     (if takeWhile (\<lambda>c. c \<noteq> 0) str = takeWhile (\<lambda>c. c \<noteq> 0) key then (STATUS_SUCCESS, Some v) else json_object_find_value es str)"

fun json_array_find_value :: "(u32 \<times> json_value) list \<Rightarrow> u32 \<Rightarrow> status \<times> json_value option" where
  "json_array_find_value [] idx = (STATUS_ENTRY_NOT_FOUND, None)"
| "json_array_find_value ((i, v) # es) idx = (if i = idx then (STATUS_SUCCESS, Some v) else json_array_find_value es idx)"

fun count_elements :: "(u32 \<times> json_value) list \<Rightarrow> u32 \<Rightarrow> u32" where
  "count_elements [] count = count"
| "count_elements (e # es) count = count_elements es (count + 1)"

definition json_array_get_element_count :: "(u32 \<times> json_value) list \<Rightarrow> status \<times> u32" where
  "json_array_get_element_count es = (STATUS_SUCCESS, count_elements es 0)"

definition buffer_ok :: "u8 list \<Rightarrow> nat \<Rightarrow> bool" where
  "buffer_ok str len \<longleftrightarrow> len < length str \<and> str ! len = 0 \<and> (\<forall>c \<in> set (take len str). c < 128)"

text \<open>An operation that returns, with a postcondition, or stops in the panic of the object parser.\<close>

definition safe :: "('a \<Rightarrow> bool) \<Rightarrow> 'a outcome \<Rightarrow> bool" where
  "safe P m \<longleftrightarrow> (case m of Ok r \<Rightarrow> P r | Panic st \<Rightarrow> st = STATUS_UNIMPLEMENTED | _ \<Rightarrow> False)"

text \<open>The counted length is enough for the characters that are copied.\<close>

definition remaining :: "u8 list \<Rightarrow> nat \<Rightarrow> nat \<Rightarrow> nat" where
  "remaining str len c = the_Ok (count_from str len c 0 0)"

definition parsed_ok :: "nat \<Rightarrow> json_state \<Rightarrow> status \<times> 'a option \<times> json_state \<Rightarrow> bool" where
  "parsed_ok len s r = (case r of (st, v, s') \<Rightarrow> cursor s \<le> cursor s' \<and> cursor s' \<le> len \<and> (CHECK_SUCCESS st \<longrightarrow> v \<noteq> None))"

text \<open>The fuel that is enough: three units for each character that is left, and a few more.\<close>

definition enough :: "nat \<Rightarrow> nat \<Rightarrow> nat \<Rightarrow> (json_state \<Rightarrow> 'a parsed) \<Rightarrow> bool" where
  "enough len k n f \<longleftrightarrow> (\<forall>s. cursor s \<le> len \<longrightarrow> 3 * (len - cursor s) + k \<le> n \<longrightarrow> safe (parsed_ok len s) (f s))"

section \<open>Reading what is printed\<close>



text \<open>
  Values that can be printed: no quotes and no escapes in strings, no empty objects and arrays, indices in order,
  and not the least 64-bit number, whose digits overflow before the sign is applied.
\<close>

definition plain_text :: "u8 list \<Rightarrow> bool" where
  "plain_text t \<longleftrightarrow> list_all (\<lambda>c. c < 128 \<and> c \<noteq> 34 \<and> c \<noteq> 92) t"









section \<open>Lemmas\<close>

lemma safe_simps [simp]: "safe P (Ok r) = P r" "safe P (Panic st) = (st = STATUS_UNIMPLEMENTED)" "\<not> safe P Fault" "\<not> safe P Hang"
  by (simp_all add: safe_def)

lemma safe_bind [simp]: "safe P (obind m f) = safe (\<lambda>a. safe P (f a)) m"
  by (cases m) simp_all

lemma safe_weaken: "safe P m \<Longrightarrow> (\<And>a. P a \<Longrightarrow> Q a) \<Longrightarrow> safe Q m"
  by (cases m) simp_all

lemma ascii_byte: "c < 128 \<Longrightarrow> 0 \<le> sint c \<and> sint c < 128 \<and> sint c = uint c" for c :: u8
proof -
  assume "c < 128"
  then have u: "uint c < 128" by (simp add: word_less_def)
  have "signed_take_bit 7 (uint c) = uint c"
    by (rule signed_take_bit_int_eq_self) (use u uint_ge_0 [of c] in \<open>simp_all add: order_trans [of _ 0]\<close>)
  then have "sint c = uint c" by (simp add: sint_uint)
  then show ?thesis using u by simp
qed

lemma buffer_peek:
  assumes "buffer_ok str len" "i \<le> len"
  shows "peek str i = Ok (str ! i)" "str ! i < 128" "str ! i \<noteq> 0 \<Longrightarrow> i < len"
proof -
  show p: "peek str i = Ok (str ! i)" using assms by (simp add: peek_def buffer_ok_def)
  show "str ! i \<noteq> 0 \<Longrightarrow> i < len" using assms by (cases "i = len") (auto simp: buffer_ok_def)
  show "str ! i < 128"
  proof (cases "i < len")
    case True
    then have "str ! i \<in> set (take len str)" using assms(1) by (auto simp: buffer_ok_def in_set_conv_nth intro!: exI [of _ i])
    then show ?thesis using assms(1) by (simp add: buffer_ok_def)
  next
    case False
    then show ?thesis using assms by (simp add: buffer_ok_def)
  qed
qed

lemma byte_classes: "c < 128 \<Longrightarrow> \<exists>b. isspace (sint c) = Ok b" "c < 128 \<Longrightarrow> \<exists>b. isdigit (sint c) = Ok b \<and> (b \<noteq> 0 \<longrightarrow> c \<noteq> 0)" for c :: u8
  using isspace_ascii [of "sint c"] isdigit_ascii [of "sint c"] ascii_byte [of c] by auto

lemma skip_to_safe:
  assumes b: "buffer_ok str len" shows "c \<le> len \<Longrightarrow> safe (\<lambda>c'. c \<le> c' \<and> c' \<le> len) (skip_to str len c)"
proof (induction "len - c" arbitrary: c)
  case 0
  then show ?case by (subst skip_to.simps) simp
next
  case (Suc k)
  note p = buffer_peek [OF b Suc.prems]
  obtain v where v: "isspace (sint (str ! c)) = Ok v" using byte_classes(1) [OF p(2)] by blast
  have "safe (\<lambda>c'. c + 1 \<le> c' \<and> c' \<le> len) (skip_to str len (c + 1))" using Suc.hyps(1) [of "c + 1"] Suc.hyps(2) by simp
  then have "safe (\<lambda>c'. c \<le> c' \<and> c' \<le> len) (skip_to str len (c + 1))" by (rule safe_weaken) simp
  then show ?case using p(1) v Suc by (subst skip_to.simps) simp
qed

lemma skip_whitespace_safe:
  assumes "buffer_ok str len" "cursor s \<le> len" "\<And>s'. cursor s \<le> cursor s' \<Longrightarrow> cursor s' \<le> len \<Longrightarrow> P s'"
  shows "safe P (skip_whitespace str len s)"
  unfolding skip_whitespace_def
  by (simp, rule safe_weaken [OF skip_to_safe [OF assms(1,2)]]) (use assms(3) in auto)

lemma peek_safe:
  assumes "buffer_ok str len" "i \<le> len" "\<And>c. c < 128 \<Longrightarrow> (c \<noteq> 0 \<Longrightarrow> i < len) \<Longrightarrow> P c"
  shows "safe P (peek str i)"
  using buffer_peek [OF assms(1,2)] assms(3) by simp

lemma count_at:
  assumes b: "buffer_ok str len"
  shows "\<exists>k. \<forall>cur i n. cur + i = c \<longrightarrow> count_from str len cur i n = Ok (n + k)"
proof (induction "len - c" arbitrary: c rule: less_induct)
  case less
  show ?case
  proof (cases "c < len")
    case False
    then show ?thesis by (intro exI [of _ 0]) (auto simp: count_from.simps)
  next
    case True
    obtain k1 k2 where k: "\<forall>cur i n. cur + i = c + 1 \<longrightarrow> count_from str len cur i n = Ok (n + k1)"
      "\<forall>cur i n. cur + i = c + 2 \<longrightarrow> count_from str len cur i n = Ok (n + k2)"
      using less [of "c + 1"] less [of "c + 2"] True by (metis diff_less_mono2 less_add_one less_add_same_cancel1 zero_less_numeral)
    have p: "peek str c = Ok (str ! c)" using buffer_peek(1) [OF b] True by simp
    have "count_from str len cur i n = Ok (n + (if str ! c = 92 then 1 + k2 else if str ! c = 34 then 0 else 1 + k1))"
      if "cur + i = c" for cur i n
      using that True p k by (subst count_from.simps) simp
    then show ?thesis by blast
  qed
qed

lemma count_remaining: "buffer_ok str len \<Longrightarrow> count_from str len cur i n = Ok (n + remaining str len (cur + i))"
  using count_at [of str len "cur + i"] by (force simp: remaining_def)

lemma remaining_rec:
  assumes b: "buffer_ok str len" and "c < len"
  shows "remaining str len c = (if str ! c = 92 then 1 + remaining str len (c + 2) else if str ! c = 34 then 0 else 1 + remaining str len (c + 1))"
proof -
  have "peek str c = Ok (str ! c)" using buffer_peek(1) [OF b] assms(2) by simp
  then show ?thesis
    using assms(2) count_remaining [OF b, of c 0 0] count_remaining [OF b, of c 1 1] count_remaining [OF b, of c "Suc (Suc 0)" 1]
    by (subst (asm) count_from.simps) (auto split: if_splits)
qed

lemma CHECK_json [simp]: "\<not> CHECK_SUCCESS JSON_SYNTAX_ERR" "\<not> CHECK_SUCCESS STATUS_UNKNOWN_ERROR"
  by (simp_all add: CHECK_SUCCESS_def)

lemmas json_defs = json_fail_def json_ok_def parsed_ok_def step_def json_malloc_def

lemma literal_loop_safe:
  assumes b: "buffer_ok str len"
  shows "cursor s < len \<Longrightarrow> length buf + remaining str len (cursor s) < cap \<Longrightarrow> safe (parsed_ok len s) (literal_loop str len cap buf s)"
proof (induction "len - cursor s" arbitrary: s buf rule: less_induct)
  case less
  let ?c = "cursor s" and ?ch = "str ! cursor s"
  have p: "peek str ?c = Ok ?ch" using buffer_peek(1) [OF b] less.prems by simp
  note r = remaining_rec [OF b less.prems(1)]
  have 1: "safe (parsed_ok len s) (literal_loop str len cap (buf @ [?ch]) (step s))" if "?c + 1 < len" "?ch \<noteq> 92" "?ch \<noteq> 34"
    by (rule safe_weaken [OF less.hyps]) (use that r less.prems in \<open>auto simp: json_defs\<close>)
  have 2: "safe (parsed_ok len s) (literal_loop str len cap buf (step (step s)))" if "?c + 2 < len" "?ch = 92"
    by (rule safe_weaken [OF less.hyps]) (use that r less.prems in \<open>auto simp: json_defs\<close>)
  show ?case
    using p 1 2 r less.prems by (subst literal_loop.simps) (auto simp: json_defs)
qed

lemma parse_string_literal_safe:
  assumes b: "buffer_ok str len" and "cursor s \<le> len"
  shows "safe (parsed_ok len s) (parse_string_literal grant str len s)"
proof -
  have l: "safe (parsed_ok len s) (literal_loop str len (Suc (remaining str len (Suc (cursor s1)))) [] (json_malloc (step s1)))"
    if "cursor s \<le> cursor s1" "Suc (cursor s1) < len" for s1
    by (rule safe_weaken [OF literal_loop_safe [OF b]]) (use that in \<open>auto simp: json_defs\<close>)
  show ?thesis
    unfolding parse_string_literal_def
    by (auto intro!: skip_whitespace_safe [OF assms] peek_safe [OF b] simp: count_escaped_string_len_def count_remaining [OF b] Let_def l)
      (auto simp: json_defs count_remaining [OF b] intro!: l [unfolded json_malloc_def step_def, simplified])
qed

lemma parse_string_safe:
  assumes b: "buffer_ok str len" and "cursor s \<le> len"
  shows "safe (parsed_ok len s) (parse_string grant str len s)"
proof -
  have l: "safe (parsed_ok len s) (parse_string_literal grant str len (json_malloc s))"
    by (rule safe_weaken [OF parse_string_literal_safe [OF b]]) (use assms in \<open>auto simp: json_defs\<close>)
  have k: "safe (parsed_ok len s) (obind (parse_string_literal grant str len (json_malloc s)) (\<lambda>(st, v, s).
         if \<not> CHECK_SUCCESS st then json_fail st s else json_ok (JVT_STRING (the v)) s))"
    by (simp, rule safe_weaken [OF l]) (auto simp: json_defs)
  show ?thesis
    unfolding parse_string_def safe_bind [of _ "peek str (cursor s)"]
    by (rule peek_safe [OF assms]) (use k assms in \<open>auto simp: json_fail_def parsed_ok_def json_malloc_def simp del: safe_bind\<close>)
qed

lemma number_loop_safe:
  assumes b: "buffer_ok str len"
  shows "c \<le> len \<Longrightarrow> safe (\<lambda>(c', num). c \<le> c' \<and> c' \<le> len) (number_loop str c num)"
proof (induction "len - c" arbitrary: c num rule: less_induct)
  case less
  note p = buffer_peek [OF b less.prems]
  obtain v where v: "isdigit (sint (str ! c)) = Ok v" "v \<noteq> 0 \<longrightarrow> str ! c \<noteq> 0" using byte_classes(2) [OF p(2)] by blast
  have "c < length str" using b less.prems by (simp add: buffer_ok_def)
  moreover have "safe (\<lambda>(c', num). c \<le> c' \<and> c' \<le> len) (number_loop str (c + 1) num')" if "v \<noteq> 0" for num'
    by (rule safe_weaken [OF less.hyps]) (use v p(3) that in auto)
  ultimately show ?case using v(1) less.prems by (subst number_loop.simps) simp
qed

lemma parse_number_safe:
  assumes b: "buffer_ok str len" and "cursor s \<le> len"
  shows "safe (parsed_ok len s) (parse_number grant str len s)"
proof -
  have d: "safe (\<lambda>v. v \<noteq> 0 \<longrightarrow> c \<noteq> 0) (isdigit (sint c))" if "c < 128" for c :: u8 using byte_classes(2) [OF that] by auto
  have n: "safe (\<lambda>(c, num). parsed_ok len s (STATUS_SUCCESS, Some (f num), t\<lparr>cursor := c\<rparr>)) (number_loop str (cursor t) 0)"
    if "cursor s \<le> cursor t" "cursor t \<le> len" for t :: json_state and f :: "u64 \<Rightarrow> json_value"
    by (rule safe_weaken [OF number_loop_safe [OF b that(2)]]) (use that in \<open>auto simp: json_defs\<close>)
  have l: "safe (parsed_ok len s) (obind (number_loop str (cursor t) 0) (\<lambda>(c, num). json_ok (JVT_NUMBER (f num)) (t\<lparr>cursor := c\<rparr>)))"
    if "cursor s \<le> cursor t" "cursor t \<le> len" for t :: json_state and f
    using n [OF that, of "\<lambda>n. JVT_NUMBER (f n)"] by (simp add: json_ok_def case_prod_unfold)
  show ?thesis
    unfolding parse_number_def Let_def safe_bind [of _ "skip_whitespace str len s"]
  proof (rule skip_whitespace_safe [OF assms], unfold safe_bind [of _ "peek _ _"], rule peek_safe [OF b], assumption,
      unfold safe_bind [of _ "isdigit _"], rule safe_weaken [OF d], assumption)
    fix s1 :: json_state and c v
    assume h: "cursor s \<le> cursor s1" "cursor s1 \<le> len" "c \<noteq> 0 \<Longrightarrow> cursor s1 < len" "v \<noteq> 0 \<longrightarrow> c \<noteq> (0 :: u8)"
    let ?t = "if c = 45 then step (json_malloc s1) else json_malloc s1"
    have "safe (parsed_ok len s) (obind (number_loop str (cursor ?t) 0)
        (\<lambda>(c', num). json_ok (JVT_NUMBER (if c = 45 then - num else num)) (?t\<lparr>cursor := c'\<rparr>)))" if "cursor s1 + 1 < len"
      by (rule l) (use h that in \<open>auto simp: json_malloc_def step_def\<close>)
    then show "safe (parsed_ok len s) (if v = 0 \<and> c \<noteq> 45 then json_fail JSON_SYNTAX_ERR s1
       else if cursor s1 + 1 \<ge> len then json_fail JSON_SYNTAX_ERR s1
       else if \<not> grant (requests s1) then json_fail STATUS_UNKNOWN_ERROR (json_malloc s1)
       else obind (number_loop str (cursor ?t) 0)
              (\<lambda>(c', num). json_ok (JVT_NUMBER (if c = 45 then - num else num)) (?t\<lparr>cursor := c'\<rparr>)))"
      using h(1,2) by (simp add: json_fail_def parsed_ok_def json_malloc_def CHECK_SUCCESS_def)
  qed
qed

lemma parse_other_safe:
  assumes b: "buffer_ok str len" and "cursor s \<le> len"
  shows "safe (parsed_ok len s) (parse_other grant str len s)"
  unfolding parse_other_def Let_def
  by (simp, intro skip_whitespace_safe [OF assms]) (auto simp: json_defs intro!: peek_safe [OF b])

lemma after_element_safe:
  assumes b: "buffer_ok str len" and "cursor s \<le> len" and "close \<noteq> 0"
  shows "safe (\<lambda>(e, s'). cursor s \<le> cursor s' \<and> cursor s' \<le> len \<and> (e \<noteq> None \<longrightarrow> cursor s < cursor s')) (after_element close str len s)"
  unfolding after_element_def safe_bind
  by (rule peek_safe [OF assms(1,2)]) (use assms in \<open>auto simp: step_def\<close>)

lemma enoughD: "enough len k n f \<Longrightarrow> cursor s \<le> cursor t \<Longrightarrow> cursor t \<le> len \<Longrightarrow> 3 * (len - cursor t) + k \<le> n \<Longrightarrow> safe (parsed_ok len s) (f t)"
  unfolding enough_def by (rule safe_weaken [of "parsed_ok len t"]) (auto simp: parsed_ok_def)

lemma enough_0: "0 < k \<Longrightarrow> enough len k 0 f"
  by (simp add: enough_def)

lemma parsed_later: "safe (parsed_ok len t) m \<Longrightarrow> cursor s \<le> cursor t \<Longrightarrow> safe (parsed_ok len s) m"
  by (rule safe_weaken [of "parsed_ok len t"]) (auto simp: parsed_ok_def)

lemma parse_value_step:
  assumes b: "buffer_ok str len" and "enough len 3 n (parse_object grant str len n)" "enough len 3 n (parse_array grant str len n)"
  shows "enough len 4 (Suc n) (parse_value grant str len (Suc n))"
  unfolding enough_def
proof (intro allI impI)
  fix s :: json_state assume s: "cursor s \<le> len" "3 * (len - cursor s) + 4 \<le> Suc n"
  show "safe (parsed_ok len s) (parse_value grant str len (Suc n) s)"
    unfolding parse_value.simps value_body_def safe_bind
  proof (rule skip_whitespace_safe [OF b s(1)], rule peek_safe [OF b], assumption)
    fix s1 :: json_state and c :: u8
    assume h: "cursor s \<le> cursor s1" "cursor s1 \<le> len"
    then have "3 * (len - cursor s1) + 3 \<le> n" using s(2) by simp
    then show "safe (parsed_ok len s) (if c = 123 then parse_object grant str len n s1
       else if c = 91 then parse_array grant str len n s1
       else if c = 34 then parse_string grant str len s1
       else if 48 \<le> c \<and> c \<le> 57 \<or> c = 45 then parse_number grant str len s1
       else if c = 116 \<or> c = 102 \<or> c = 110 then parse_other grant str len s1
       else json_fail JSON_SYNTAX_ERR s1)"
      using h enoughD [OF assms(2) h] enoughD [OF assms(3) h]
        parsed_later [OF parse_string_safe [OF b h(2)]] parsed_later [OF parse_number_safe [OF b h(2)]]
        parsed_later [OF parse_other_safe [OF b h(2)]]
      by (simp add: json_fail_def parsed_ok_def)
  qed
qed

lemma parse_object_step:
  assumes b: "buffer_ok str len" and "enough len 5 n (object_loop grant str len n [])"
  shows "enough len 3 (Suc n) (parse_object grant str len (Suc n))"
  unfolding enough_def
proof (intro allI impI)
  fix s :: json_state assume s: "cursor s \<le> len" "3 * (len - cursor s) + 3 \<le> Suc n"
  show "safe (parsed_ok len s) (parse_object grant str len (Suc n) s)"
    unfolding parse_object.simps object_body_def safe_bind
  proof (rule skip_whitespace_safe [OF b s(1)], rule peek_safe [OF b], assumption)
    fix s1 :: json_state and c :: u8
    assume h: "cursor s \<le> cursor s1" "cursor s1 \<le> len" "c \<noteq> 0 \<Longrightarrow> cursor s1 < len"
    have "safe (parsed_ok len s) (object_loop grant str len n [] (json_malloc (step s1)))" if "cursor s1 + 1 < len"
      by (rule enoughD [OF assms(2)]) (use h s that in \<open>auto simp: json_malloc_def step_def\<close>)
    then show "safe (parsed_ok len s) (if c \<noteq> 123 then json_fail JSON_SYNTAX_ERR s1
       else if cursor s1 + 1 \<ge> len then json_fail JSON_SYNTAX_ERR (step s1)
       else if \<not> grant (requests (step s1)) then Panic STATUS_UNIMPLEMENTED
       else object_loop grant str len n [] (json_malloc (step s1)))"
      using h by (auto simp: json_fail_def parsed_ok_def step_def)
  qed
qed

lemma parse_array_step:
  assumes b: "buffer_ok str len" and "enough len 5 n (array_loop grant str len n [])"
  shows "enough len 3 (Suc n) (parse_array grant str len (Suc n))"
  unfolding enough_def
proof (intro allI impI)
  fix s :: json_state assume s: "cursor s \<le> len" "3 * (len - cursor s) + 3 \<le> Suc n"
  show "safe (parsed_ok len s) (parse_array grant str len (Suc n) s)"
    unfolding parse_array.simps array_body_def safe_bind
  proof (rule skip_whitespace_safe [OF b s(1)], rule peek_safe [OF b], assumption)
    fix s1 :: json_state and c :: u8
    assume h: "cursor s \<le> cursor s1" "cursor s1 \<le> len" "c \<noteq> 0 \<Longrightarrow> cursor s1 < len"
    have "safe (parsed_ok len s) (array_loop grant str len n [] (json_malloc (step s1)))" if "cursor s1 + 1 < len"
      by (rule enoughD [OF assms(2)]) (use h s that in \<open>auto simp: json_malloc_def step_def\<close>)
    then show "safe (parsed_ok len s) (if c \<noteq> 91 then json_fail JSON_SYNTAX_ERR s1
       else if cursor s1 + 1 \<ge> len then json_fail JSON_SYNTAX_ERR (step s1)
       else if \<not> grant (requests (step s1)) then json_fail STATUS_UNKNOWN_ERROR (json_malloc (step s1))
       else array_loop grant str len n [] (json_malloc (step s1)))"
      using h by (auto simp: json_fail_def parsed_ok_def step_def json_malloc_def)
  qed
qed

text \<open>What follows an element, in both loops.\<close>

lemma after_element_loop:
  assumes b: "buffer_ok str len" and "cursor s \<le> cursor t" "cursor t \<le> len" "close \<noteq> 0"
    and "\<And>u. cursor t \<le> cursor u \<Longrightarrow> cursor u \<le> len \<Longrightarrow> safe (parsed_ok len s) (e u)"
    and "\<And>u. cursor t < cursor u \<Longrightarrow> cursor u \<le> len \<Longrightarrow> safe (parsed_ok len s) (g u)"
  shows "safe (parsed_ok len s) (obind (skip_whitespace str len t) (\<lambda>s3. obind (after_element close str len s3)
           (\<lambda>(r, s4). case r of None \<Rightarrow> e s4 | Some True \<Rightarrow> json_ok v s4 | Some False \<Rightarrow> g s4)))"
  unfolding safe_bind
proof (rule skip_whitespace_safe [OF b assms(3)], rule safe_weaken [OF after_element_safe [OF b _ assms(4)]], assumption)
  fix s3 :: json_state and a :: "bool option \<times> json_state"
  assume h: "cursor t \<le> cursor s3" "case a of (e, s') \<Rightarrow> cursor s3 \<le> cursor s' \<and> cursor s' \<le> len \<and> (e \<noteq> None \<longrightarrow> cursor s3 < cursor s')"
  show "safe (parsed_ok len s) (case a of (r, s4) \<Rightarrow> case r of None \<Rightarrow> e s4 | Some True \<Rightarrow> json_ok v s4 | Some False \<Rightarrow> g s4)"
    using h assms(2) assms(5,6) [of "snd a"] by (auto simp: json_ok_def parsed_ok_def split: option.splits bool.splits)
qed

lemma array_loop_step:
  assumes b: "buffer_ok str len" and v: "enough len 4 n (parse_value grant str len n)"
    and l: "\<And>es. enough len 5 n (array_loop grant str len n es)"
  shows "enough len 5 (Suc n) (array_loop grant str len (Suc n) es)"
  unfolding enough_def
proof (intro allI impI)
  fix s :: json_state assume s: "cursor s \<le> len" "3 * (len - cursor s) + 5 \<le> Suc n"
  show "safe (parsed_ok len s) (array_loop grant str len (Suc n) es s)"
    unfolding array_loop.simps array_loop_body_def Let_def safe_bind [of _ "skip_whitespace str len s"]
  proof (rule skip_whitespace_safe [OF b s(1)], goal_cases)
    case (1 s1)
    have pv: "safe (parsed_ok len s1) (parse_value grant str len n (json_malloc s1))"
      by (rule enoughD [OF v]) (use 1 s in \<open>auto simp: json_malloc_def\<close>)
    have tail: "safe (parsed_ok len s) (obind (skip_whitespace str len s2) (\<lambda>s3. obind (after_element 93 str len s3) (\<lambda>(e, s4).
           case e of
             None \<Rightarrow> json_fail JSON_SYNTAX_ERR s4
           | Some True \<Rightarrow> json_ok (JVT_ARRAY es') s4
           | Some False \<Rightarrow> array_loop grant str len n es' s4)))"
      if "cursor s1 \<le> cursor s2" "cursor s2 \<le> len" for s2 :: json_state and es'
    proof (rule after_element_loop [OF b _ that(2)])
      show "safe (parsed_ok len s) (array_loop grant str len n es' u)" if "cursor s2 < cursor u" "cursor u \<le> len" for u
        by (rule enoughD [OF l]) (use 1 s that \<open>cursor s1 \<le> cursor s2\<close> in auto)
    qed (use 1 that in \<open>auto simp: json_fail_def parsed_ok_def\<close>)
    have "safe (parsed_ok len s) (obind (parse_value grant str len n (json_malloc s1)) (\<lambda>(st, v, s2).
         if \<not> CHECK_SUCCESS st then json_fail st s2
         else obind (skip_whitespace str len s2) (\<lambda>s3. obind (after_element 93 str len s3) (\<lambda>(e, s4).
           case e of
             None \<Rightarrow> json_fail JSON_SYNTAX_ERR s4
           | Some True \<Rightarrow> json_ok (JVT_ARRAY (es @ [(of_nat (length es), the v)])) s4
           | Some False \<Rightarrow> array_loop grant str len n (es @ [(of_nat (length es), the v)]) s4))))"
      unfolding safe_bind [of _ "parse_value _ _ _ _ _"]
    proof (rule safe_weaken [OF pv], goal_cases)
      case (1 r)
      then show ?case
        using tail [of "snd (snd r)"] \<open>cursor s \<le> cursor s1\<close>
        by (cases r) (auto simp: json_fail_def parsed_ok_def simp del: safe_bind)
    qed
    then show ?case using 1 by (simp add: json_fail_def parsed_ok_def json_malloc_def del: safe_bind)
  qed
qed

text \<open>One round of the object loop from the colon on.\<close>

lemma object_value_safe:
  assumes b: "buffer_ok str len" and v: "enough len 4 n (parse_value grant str len n)"
    and l: "\<And>es. enough len 5 n (object_loop grant str len n es)"
    and t: "cursor s \<le> cursor t" "cursor t + 1 \<le> len" "3 * (len - cursor s) + 5 \<le> Suc n"
  shows "safe (parsed_ok len s) (obind (skip_whitespace str len (step t)) (\<lambda>s4.
             obind (parse_value grant str len n s4) (\<lambda>(st, v, s5).
               if \<not> CHECK_SUCCESS st then Panic STATUS_UNIMPLEMENTED
               else obind (skip_whitespace str len s5) (\<lambda>s6. obind (after_element 125 str len s6) (\<lambda>(e, s7).
                 case e of
                   None \<Rightarrow> Panic STATUS_UNIMPLEMENTED
                 | Some True \<Rightarrow> json_ok (JVT_OBJECT (es @ [(the key, the v)])) s7
                 | Some False \<Rightarrow> object_loop grant str len n (es @ [(the key, the v)]) s7)))))"
  unfolding safe_bind [of _ "skip_whitespace str len (step t)"] safe_bind [of _ "parse_value _ _ _ _ _"]
proof (rule skip_whitespace_safe [OF b], goal_cases)
  case 1
  then show ?case using t by (simp add: step_def)
next
  case (2 s4)
  have pv: "safe (parsed_ok len s4) (parse_value grant str len n s4)"
    by (rule enoughD [OF v]) (use 2 t in \<open>auto simp: step_def\<close>)
  have tail: "safe (parsed_ok len s) (obind (skip_whitespace str len s5) (\<lambda>s6. obind (after_element 125 str len s6) (\<lambda>(e, s7).
         case e of
           None \<Rightarrow> Panic STATUS_UNIMPLEMENTED
         | Some True \<Rightarrow> json_ok (JVT_OBJECT es') s7
         | Some False \<Rightarrow> object_loop grant str len n es' s7)))"
    if "cursor s4 \<le> cursor s5" "cursor s5 \<le> len" for s5 :: json_state and es'
  proof (rule after_element_loop [OF b _ that(2)])
    show "safe (parsed_ok len s) (object_loop grant str len n es' u)" if "cursor s5 < cursor u" "cursor u \<le> len" for u
      by (rule enoughD [OF l]) (use 2 t that \<open>cursor s4 \<le> cursor s5\<close> in \<open>auto simp: step_def\<close>)
  qed (use 2 t that in \<open>auto simp: step_def\<close>)
  show ?case
  proof (rule safe_weaken [OF pv], goal_cases)
    case (1 r)
    then show ?case using tail [of "snd (snd r)"] by (cases r) (auto simp: parsed_ok_def simp del: safe_bind)
  qed
qed

lemma object_loop_step:
  assumes b: "buffer_ok str len" and v: "enough len 4 n (parse_value grant str len n)"
    and l: "\<And>es. enough len 5 n (object_loop grant str len n es)"
  shows "enough len 5 (Suc n) (object_loop grant str len (Suc n) es)"
  unfolding enough_def
proof (intro allI impI)
  fix s :: json_state assume s: "cursor s \<le> len" "3 * (len - cursor s) + 5 \<le> Suc n"
  note ov = object_value_safe [OF b v l _ _ s(2)]
  have key: "safe (parsed_ok len s1) (parse_string_literal grant str len (json_malloc s1))" if "cursor s1 \<le> len" for s1
    by (rule parsed_later [OF parse_string_literal_safe [OF b]]) (use that in \<open>auto simp: json_malloc_def\<close>)
  show "safe (parsed_ok len s) (object_loop grant str len (Suc n) es s)"
    unfolding object_loop.simps object_loop_body_def Let_def safe_bind [of _ "skip_whitespace str len s"]
  proof (rule skip_whitespace_safe [OF b s(1)], goal_cases)
    case (1 s1)
    note s1 = 1
    show ?case
    proof (cases "grant (requests s1)")
      case True
      have "safe (parsed_ok len s) (obind (parse_string_literal grant str len (json_malloc s1)) (\<lambda>(st, key, s2).
         if \<not> CHECK_SUCCESS st then Panic STATUS_UNIMPLEMENTED
         else obind (skip_whitespace str len s2) (\<lambda>s3. obind (peek str (cursor s3)) (\<lambda>ch.
           if ch \<noteq> 58 then Panic STATUS_UNIMPLEMENTED
           else if cursor s3 + 1 \<ge> len then Panic STATUS_UNIMPLEMENTED
           else obind (skip_whitespace str len (step s3)) (\<lambda>s4.
             obind (parse_value grant str len n s4) (\<lambda>(st, v, s5).
               if \<not> CHECK_SUCCESS st then Panic STATUS_UNIMPLEMENTED
               else obind (skip_whitespace str len s5) (\<lambda>s6. obind (after_element 125 str len s6) (\<lambda>(e, s7).
                 case e of
                   None \<Rightarrow> Panic STATUS_UNIMPLEMENTED
                 | Some True \<Rightarrow> json_ok (JVT_OBJECT (es @ [(the key, the v)])) s7
                 | Some False \<Rightarrow> object_loop grant str len n (es @ [(the key, the v)]) s7))))))))"
        unfolding safe_bind [of _ "parse_string_literal _ _ _ _"]
      proof (rule safe_weaken [OF key [OF s1(2)]], goal_cases)
        case (1 r)
        obtain st k s2 where r: "r = (st, k, s2)" by (cases r)
        show ?case
        proof (cases "CHECK_SUCCESS st")
          case True
          then have ok: "\<not> \<not> CHECK_SUCCESS st" by simp
          show ?thesis
            unfolding r prod.case if_not_P [OF ok]
              safe_bind [of _ "skip_whitespace str len s2"] safe_bind [of _ "peek _ _"]
          proof (rule skip_whitespace_safe [OF b], goal_cases)
            case (2 s3)
            show ?case
              by (rule peek_safe [OF b 2(2)]) (use 1 2 s1 ov [of s3] r in \<open>simp add: parsed_ok_def del: safe_bind\<close>)
          qed (use 1 r in \<open>simp add: parsed_ok_def\<close>)
        qed (simp add: r)
      qed
      then show ?thesis using True by simp
    qed simp
  qed
qed

lemma parser_enough:
  assumes b: "buffer_ok str len"
  shows "enough len 4 n (parse_value grant str len n) \<and> enough len 3 n (parse_object grant str len n) \<and>
    (\<forall>es. enough len 5 n (object_loop grant str len n es)) \<and> enough len 3 n (parse_array grant str len n) \<and>
    (\<forall>es. enough len 5 n (array_loop grant str len n es))"
proof (induction n)
  case (Suc n)
  then show ?case
    using parse_value_step [OF b] parse_object_step [OF b] object_loop_step [OF b] parse_array_step [OF b] array_loop_step [OF b]
    by blast
qed (simp add: enough_0)

text \<open>
  C30: The JSON parser is total and memory safe: for a text of ASCII characters that is followed by a NUL, whatever
  requests the allocator refuses, \<^verbatim>\<open>json_parse\<close> reads inside the buffer, writes inside the strings it allocates, ends,
  and either stops in the panic of the object parser or returns, with a value when the status says success.
\<close>

theorem json_parse_safe:
  assumes "buffer_ok str len"
  shows "case json_parse grant str len of
      Ok (st, v) \<Rightarrow> CHECK_SUCCESS st = (v \<noteq> None)
    | Panic st \<Rightarrow> st = STATUS_UNIMPLEMENTED
    | _ \<Rightarrow> False"
proof -
  let ?s = "\<lparr>cursor = 0, requests = 0\<rparr>"
  have "safe (parsed_ok len ?s) (parse_value grant str len (3 * len + 4) ?s)"
    using parser_enough [OF assms, of "3 * len + 4" grant] by (simp add: enough_def)
  then have "safe (\<lambda>(st, v). CHECK_SUCCESS st = (v \<noteq> None)) (json_parse grant str len)"
    unfolding json_parse_def safe_bind by (rule safe_weaken) (auto simp: parsed_ok_def CHECK_SUCCESS_def)
  then show ?thesis by (auto simp: safe_def split: outcome.splits)
qed








lemma plain_text_simps [simp]: "plain_text []" "plain_text (c # t) \<longleftrightarrow> c < 128 \<and> c \<noteq> 34 \<and> c \<noteq> 92 \<and> plain_text t"
  by (simp_all add: plain_text_def)






























text \<open>
  The byte behind the value cannot be left out: a literal, a string, an array or a number of one digit that ends the
  text is a syntax error, and an object there is the panic of the object parser.
\<close>

lemma json_value_at_end:
  "json_parse (\<lambda>_. True) [53, 0] 1 = Ok (JSON_SYNTAX_ERR, None)"
  "json_parse (\<lambda>_. True) [110, 117, 108, 108, 0] 4 = Ok (JSON_SYNTAX_ERR, None)"
  "json_parse (\<lambda>_. True) [34, 97, 34, 0] 3 = Ok (JSON_SYNTAX_ERR, None)"
  "json_parse (\<lambda>_. True) [91, 49, 93, 0] 3 = Ok (JSON_SYNTAX_ERR, None)"
  "json_parse (\<lambda>_. True) [123, 34, 97, 34, 58, 49, 125, 0] 7 = Panic STATUS_UNIMPLEMENTED"
  by code_simp+

theorem json_parse_safe_witness:
  "buffer_ok [91, 49, 44, 50, 93, 10, 0] 6 \<and> (case json_parse (\<lambda>k. k \<noteq> 3) [91, 49, 44, 50, 93, 10, 0] 6 of
      Ok (st, v) \<Rightarrow> CHECK_SUCCESS st = (v \<noteq> None) | Panic st \<Rightarrow> st = STATUS_UNIMPLEMENTED | _ \<Rightarrow> False)"
proof
  show b: "buffer_ok [91, 49, 44, 50, 93, 10, 0] 6" by code_simp
  show "case json_parse (\<lambda>k. k \<noteq> 3) [91, 49, 44, 50, 93, 10, 0] 6 of
      Ok (st, v) \<Rightarrow> CHECK_SUCCESS st = (v \<noteq> None) | Panic st \<Rightarrow> st = STATUS_UNIMPLEMENTED | _ \<Rightarrow> False"
    by (rule json_parse_safe [OF b])
qed

text \<open>Without the space after the comma the second element is lost: \<^verbatim>\<open>[1,2]\<close> is a syntax error, and so is \<^verbatim>\<open>[]\<close>.\<close>

lemma json_comma_skips:
  "json_parse (\<lambda>_. True) [91, 49, 44, 50, 93, 10, 0] 6 = Ok (JSON_SYNTAX_ERR, None)"
  "json_parse (\<lambda>_. True) [91, 93, 10, 0] 3 = Ok (JSON_SYNTAX_ERR, None)"
  by code_simp+

end
