(* ===== verification/Console.thy ===== *)
theory Console
  imports Prelude
begin

text \<open>
  Text consoles of the boot loader: the interface \<^verbatim>\<open>struct console_interface\<close> of
  \<^verbatim>\<open>boot/include/eboot/interface/console.h\<close> as a record of functions on the state of a device, the code page
  \<^verbatim>\<open>boot/encoding/cp437.c\<close>, and the text console of the VGA driver, \<^verbatim>\<open>boot/device/video/vga.c\<close>, that keeps a buffer of
  character cells with one changed bit for each and copies changed cells to the text memory of the adapter.  Characters
  and coordinates are integers (\<^verbatim>\<open>wchar_t\<close> and \<^verbatim>\<open>int\<close> are signed 32-bit types); an access outside a buffer is \<open>Fault\<close>.
\<close>

section \<open>The interface\<close>

record char_attributes =
  fg_color :: "24 word"
  text_blink_level :: "2 word"
  text_reversed :: bool
  text_bold :: bool
  text_dim :: bool
  text_italic :: bool
  text_underline :: bool
  text_strike :: bool
  bg_color :: "24 word"
  text_overlined :: bool

record char_cell =
  attr :: char_attributes
  codepoint :: int

text \<open>
  \<open>buffer_cells\<close> and \<open>store_cells\<close> are the memory behind the pointer that \<^verbatim>\<open>get_buffer\<close> returns.
\<close>

record 'd console_interface =
  get_dimension :: "'d \<Rightarrow> status \<times> int \<times> int"
  get_buffer :: "'d \<Rightarrow> status"
  buffer_cells :: "'d \<Rightarrow> char_cell list"
  store_cells :: "char_cell list \<Rightarrow> 'd \<Rightarrow> 'd"
  invalidate :: "int \<Rightarrow> int \<Rightarrow> int \<Rightarrow> int \<Rightarrow> 'd \<Rightarrow> (status \<times> 'd) outcome"
  flush :: "'d \<Rightarrow> (status \<times> 'd) outcome"
  set_cursor_pos :: "int \<Rightarrow> int \<Rightarrow> 'd \<Rightarrow> status \<times> 'd"
  get_cursor_pos :: "'d \<Rightarrow> status \<times> int \<times> int"
  set_cursor_visibility :: "int \<Rightarrow> 'd \<Rightarrow> status \<times> 'd"
  get_cursor_visibility :: "'d \<Rightarrow> status \<times> int"

section \<open>Code page 437\<close>

definition unicode_cp437_table_1 :: "u8 list" where
  "unicode_cp437_table_1 = [
     0xFF, 0xAD, 0x9B, 0x9C, 0x00, 0x9D, 0x00, 0x15, 0x00, 0x00, 0xA6, 0xAE, 0xAA, 0x00, 0x00, 0x00,
     0xF8, 0xF1, 0xFD, 0x00, 0x00, 0xE6, 0x14, 0xFA, 0x00, 0x00, 0xA7, 0xAF, 0xAC, 0xAB, 0x00, 0xA8,
     0x00, 0x00, 0x00, 0x00, 0x8E, 0x8F, 0x92, 0x80, 0x00, 0x90, 0x00, 0x00, 0x00, 0x00, 0x00, 0x00,
     0x00, 0xA5, 0x00, 0x00, 0x00, 0x00, 0x99, 0x00, 0x00, 0x00, 0x00, 0x00, 0x9A, 0x00, 0x00, 0xE1,
     0x85, 0xA0, 0x83, 0x00, 0x84, 0x86, 0x91, 0x87, 0x8A, 0x82, 0x88, 0x89, 0x8D, 0xA1, 0x8C, 0x8B,
     0x00, 0xA4, 0x95, 0xA2, 0x93, 0x00, 0x94, 0xF6, 0x00, 0x97, 0xA3, 0x96, 0x81, 0x00, 0x00, 0x98]"

definition unicode_cp437_table_2 :: "u8 list" where
  "unicode_cp437_table_2 = [
     0x00, 0x00, 0x00, 0xE2, 0x00, 0x00, 0x00, 0x00, 0xE9, 0x00, 0x00, 0x00, 0x00, 0x00, 0x00, 0x00,
     0x00, 0x00, 0x00, 0xE4, 0x00, 0x00, 0xE8, 0x00, 0x00, 0xEA, 0x00, 0x00, 0x00, 0x00, 0x00, 0x00,
     0x00, 0xE0, 0x00, 0x00, 0xEB, 0xEE, 0x00, 0x00, 0x00, 0x00, 0x00, 0x00, 0x00, 0x00, 0x00, 0x00,
     0xE3, 0x00, 0x00, 0xE5, 0xE7, 0x00, 0xED, 0x00]"

definition unicode_cp437_table_3 :: "u8 list" where
  "unicode_cp437_table_3 = [
     0xC4, 0x00, 0xB3, 0x00, 0x00, 0x00, 0x00, 0x00, 0x00, 0x00, 0x00, 0x00, 0xDA, 0x00, 0x00, 0x00,
     0xBF, 0x00, 0x00, 0x00, 0xC0, 0x00, 0x00, 0x00, 0xD9, 0x00, 0x00, 0x00, 0xC3, 0x00, 0x00, 0x00,
     0x00, 0x00, 0x00, 0x00, 0xB4, 0x00, 0x00, 0x00, 0x00, 0x00, 0x00, 0x00, 0xC2, 0x00, 0x00, 0x00,
     0x00, 0x00, 0x00, 0x00, 0xC1, 0x00, 0x00, 0x00, 0x00, 0x00, 0x00, 0x00, 0xC5, 0x00, 0x00, 0x00,
     0x00, 0x00, 0x00, 0x00, 0x00, 0x00, 0x00, 0x00, 0x00, 0x00, 0x00, 0x00, 0x00, 0x00, 0x00, 0x00,
     0xCD, 0xBA, 0xD5, 0xD6, 0xC9, 0xB8, 0xB7, 0xBB, 0xD4, 0xD3, 0xC8, 0xBE, 0xBD, 0xBC, 0xC6, 0xC7,
     0xCC, 0xB5, 0xB6, 0xB9, 0xD1, 0xD2, 0xCB, 0xCF, 0xD0, 0xCA, 0xD8, 0xD7, 0xCE, 0x00, 0x00, 0x00,
     0x00, 0x00, 0x00, 0x00, 0x00, 0x00, 0x00, 0x00, 0x00, 0x00, 0x00, 0x00, 0x00, 0x00, 0x00, 0x00,
     0xDF, 0x00, 0x00, 0x00, 0xDC, 0x00, 0x00, 0x00, 0xDB, 0x00, 0x00, 0x00, 0xDD, 0x00, 0x00, 0x00,
     0xDE, 0xB0, 0xB1, 0xB2, 0x00, 0x00, 0x00, 0x00, 0x00, 0x00, 0x00, 0x00, 0x00, 0x00, 0x00, 0x00,
     0xFE, 0x00, 0x00, 0x00, 0x00, 0x00, 0x00, 0x00, 0x00, 0x00, 0x00, 0x00, 0x16, 0x00, 0x00, 0x00,
     0x00, 0x00, 0x1E, 0x00, 0x00, 0x00, 0x00, 0x00, 0x00, 0x00, 0x10, 0x00, 0x1F, 0x00, 0x00, 0x00,
     0x00, 0x00, 0x00, 0x00, 0x11, 0x00, 0x00, 0x00, 0x00, 0x00, 0x00, 0x09, 0x00, 0x00, 0x00, 0x00,
     0x00, 0x00, 0x00, 0x00, 0x00, 0x00, 0x00, 0x00, 0x08, 0x0A, 0x00, 0x00, 0x00, 0x00, 0x00, 0x00]"

definition unicode_cp437_table_4 :: "u8 list" where
  "unicode_cp437_table_4 = [
     0x00, 0x00, 0x00, 0x00, 0x00, 0x00, 0x00, 0x00, 0x00, 0x00, 0x01, 0x02, 0x0F, 0x00, 0x00, 0x00,
     0x0C, 0x00, 0x0B, 0x00, 0x00, 0x00, 0x00, 0x00, 0x00, 0x00, 0x00, 0x00, 0x00, 0x00, 0x00, 0x00,
     0x00, 0x00, 0x00, 0x00, 0x00, 0x00, 0x00, 0x00, 0x00, 0x00, 0x00, 0x00, 0x00, 0x00, 0x00, 0x00,
     0x06, 0x00, 0x00, 0x05, 0x00, 0x03, 0x04, 0x00, 0x00, 0x00, 0x0D, 0x0E, 0x00, 0x00, 0x00, 0x00]"

definition cp437_page_20 :: "(int \<times> u8) list" where
  "cp437_page_20 = [(0x22, 0x07), (0x3C, 0x13), (0x7F, 0xFC), (0xA7, 0x9E)]"

definition cp437_page_21 :: "(int \<times> u8) list" where
  "cp437_page_21 = [(0x90, 0x1B), (0x91, 0x18), (0x92, 0x1A), (0x93, 0x19), (0x94, 0x1D), (0x95, 0x12), (0x98, 0x17)]"

definition cp437_page_22 :: "(int \<times> u8) list" where
  "cp437_page_22 = [(0x19, 0xF9), (0x1A, 0xFB), (0x1E, 0xEC), (0x1F, 0x1C), (0x29, 0xEF), (0x48, 0xF7), (0x61, 0xF0), (0x64, 0xF3), (0x65, 0xF2)]"

definition cp437_page_23 :: "(int \<times> u8) list" where
  "cp437_page_23 = [(0x02, 0x7F), (0x10, 0xA9), (0x20, 0xF4), (0x21, 0xF5)]"

definition cp437_switch :: "(int \<times> u8) list \<Rightarrow> int \<Rightarrow> (status \<times> u8) outcome" where
  "cp437_switch t k = (case map_of t k of None \<Rightarrow> Ok (STATUS_INVALID_VALUE, 0) | Some c \<Rightarrow> Ok (STATUS_SUCCESS, c))"

text \<open>An entry of a table that begins at \<open>base\<close>; entries that are zero have no character.\<close>

definition cp437_table :: "u8 list \<Rightarrow> int \<Rightarrow> int \<Rightarrow> (status \<times> u8) outcome" where
  "cp437_table t base utf32 =
     (if utf32 \<ge> base + int (length t) then Ok (STATUS_INVALID_VALUE, 0)
      else if utf32 < base then Fault
      else if t ! nat (utf32 - base) = 0 then Ok (STATUS_INVALID_VALUE, 0)
      else Ok (STATUS_SUCCESS, t ! nat (utf32 - base)))"

definition enc_utf32_to_cp437 :: "int \<Rightarrow> (status \<times> u8) outcome" where
  "enc_utf32_to_cp437 utf32 =
     (if utf32 = 0 then Ok (STATUS_SUCCESS, 0)
      else if utf32 < 0x20 then Ok (STATUS_INVALID_VALUE, 0)
      else if utf32 < 0x7F then Ok (STATUS_SUCCESS, of_int utf32)
      else if utf32 < 0xA0 then Ok (STATUS_INVALID_VALUE, 0)
      else if utf32 < 0x192 then cp437_table unicode_cp437_table_1 0xA0 utf32
      else if utf32 < 0x2500 then
        let page = utf32 div 0x100; low = utf32 mod 0x100 in
        if page = 0x01 then (if utf32 \<noteq> 0x192 then Ok (STATUS_INVALID_VALUE, 0) else Ok (STATUS_SUCCESS, 0x9F))
        else if page = 0x03 then cp437_table unicode_cp437_table_2 0x390 utf32
        else if page = 0x20 then cp437_switch cp437_page_20 low
        else if page = 0x21 then cp437_switch cp437_page_21 low
        else if page = 0x22 then cp437_switch cp437_page_22 low
        else if page = 0x23 then cp437_switch cp437_page_23 low
        else Ok (STATUS_INVALID_VALUE, 0)
      else if utf32 < 0x2630 then cp437_table unicode_cp437_table_3 0x2500 utf32
      else cp437_table unicode_cp437_table_4 0x2630 utf32)"

section \<open>The VGA text console\<close>

record vga_data =
  char_buffer :: "char_cell list"
  diff_buffer :: "u8 list"
  is_switching_mode :: bool
  video_mode :: u16
  vbe_memory_model :: u8
  vbe_width :: u16
  vbe_height :: u16
  vga_width :: int
  vga_height :: int
  mode_set_by_vbe :: bool
  cursor_col :: int
  cursor_row :: int
  cursor_visible :: int
  cursor_shape_start :: u8
  cursor_shape_end :: u8
  crtc :: "u8 \<Rightarrow> u8"
  text_memory :: "u16 list"

definition rgb_to_irgb :: "u32 \<Rightarrow> u8" where
  "rgb_to_irgb color =
     (let r = unat (drop_bit 16 color AND 0xFF); g = unat (drop_bit 8 color AND 0xFF); b = unat (color AND 0xFF);
          hi = max r (max g b); lo = min r (min g b)
      in if hi - lo < 0x50 then
           if (hi + lo) div 2 < 0x40 then 0x00
           else if (hi + lo) div 2 \<le> 0x80 then 0x08
           else if (hi + lo) div 2 < 0xC0 then 0x07
           else 0x0F
         else push_bit 3 (of_bool (192 \<le> hi)) OR push_bit 2 (of_bool (0x80 \<le> r)) OR
              push_bit 1 (of_bool (0x80 \<le> g)) OR of_bool (0x80 \<le> b))"

definition write_cr :: "u8 \<Rightarrow> u8 \<Rightarrow> vga_data \<Rightarrow> vga_data" where
  "write_cr idx val d = d\<lparr>crtc := (crtc d)(idx := val)\<rparr>"

definition read_cr :: "u8 \<Rightarrow> vga_data \<Rightarrow> u8" where
  "read_cr idx d = crtc d idx"

definition get_dimension_vbe :: "vga_data \<Rightarrow> status \<times> int \<times> int" where
  "get_dimension_vbe d =
     (if vbe_memory_model d \<noteq> 0 then (STATUS_CONFLICTING_STATE, 0, 0)
      else (STATUS_SUCCESS, uint (vbe_width d), uint (vbe_height d)))"

definition get_dimension_vga :: "vga_data \<Rightarrow> status \<times> int \<times> int" where
  "get_dimension_vga d =
     (if 0xFF < video_mode d then (STATUS_CONFLICTING_STATE, 0, 0) else (STATUS_SUCCESS, vga_width d, vga_height d))"

definition vga_get_dimension :: "vga_data \<Rightarrow> status \<times> int \<times> int" where
  "vga_get_dimension d = (if mode_set_by_vbe d then get_dimension_vbe d else get_dimension_vga d)"

definition vga_get_buffer :: "vga_data \<Rightarrow> status" where
  "vga_get_buffer d = STATUS_SUCCESS"

text \<open>The changed bit of cell \<open>i\<close>.\<close>

definition diff_bit :: "vga_data \<Rightarrow> int \<Rightarrow> bool outcome" where
  "diff_bit d i =
     (if 0 \<le> i \<and> nat i div 8 < length (diff_buffer d) then Ok (bit (diff_buffer d ! (nat i div 8)) (nat i mod 8)) else Fault)"

definition put_diff_bit :: "bool \<Rightarrow> int \<Rightarrow> vga_data \<Rightarrow> vga_data outcome" where
  "put_diff_bit b i d =
     (if 0 \<le> i \<and> nat i div 8 < length (diff_buffer d)
      then Ok (d\<lparr>diff_buffer := (diff_buffer d)[nat i div 8 :=
             (if b then set_bit (nat i mod 8) (diff_buffer d ! (nat i div 8))
              else unset_bit (nat i mod 8) (diff_buffer d ! (nat i div 8)))]\<rparr>)
      else Fault)"

definition vga_con_invalidate :: "int \<Rightarrow> int \<Rightarrow> int \<Rightarrow> int \<Rightarrow> vga_data \<Rightarrow> (status \<times> vga_data) outcome" where
  "vga_con_invalidate x0 y0 x1 y1 d =
     (if is_switching_mode d then Ok (STATUS_CONFLICTING_STATE, d)
      else let (st, width, _) = vga_get_dimension d in
        if \<not> CHECK_SUCCESS st then Ok (st, d)
        else obind (ofold (\<lambda>y. ofold (\<lambda>x. put_diff_bit True (y * width + x)) [x0..x1]) [y0..y1] d)
               (\<lambda>d. Ok (STATUS_SUCCESS, d)))"

definition cell_word :: "char_cell \<Rightarrow> u16 outcome" where
  "cell_word src =
     obind (enc_utf32_to_cp437 (codepoint src)) (\<lambda>(st, c).
       let cp437_char = (if CHECK_SUCCESS st then c else 63);
           fg = (if text_reversed (attr src) then bg_color (attr src) else fg_color (attr src));
           bg = (if text_reversed (attr src) then fg_color (attr src) else bg_color (attr src));
           cell = ucast cp437_char OR push_bit 8 (ucast (rgb_to_irgb (ucast fg) AND 0xF)) OR
                  push_bit 12 (ucast (rgb_to_irgb (ucast bg) AND 0xF))
       in Ok (if text_dim (attr src) then cell AND 0x77FF else cell))"

definition flush_cell :: "int \<Rightarrow> vga_data \<Rightarrow> vga_data outcome" where
  "flush_cell i d =
     obind (diff_bit d i) (\<lambda>changed.
       if \<not> changed then Ok d
       else if \<not> nat i < length (char_buffer d) then Fault
       else obind (cell_word (char_buffer d ! nat i)) (\<lambda>w.
         if \<not> nat i < length (text_memory d) then Fault
         else put_diff_bit False i (d\<lparr>text_memory := (text_memory d)[nat i := w]\<rparr>)))"

definition vga_con_flush :: "vga_data \<Rightarrow> (status \<times> vga_data) outcome" where
  "vga_con_flush d =
     (if is_switching_mode d then Ok (STATUS_CONFLICTING_STATE, d)
      else let (st, width, height) = vga_get_dimension d in
        if \<not> CHECK_SUCCESS st then Ok (st, d)
        else obind (ofold (\<lambda>y. ofold (\<lambda>x. flush_cell (y * width + x)) [0..width - 1]) [0..height - 1] d)
               (\<lambda>d. Ok (STATUS_SUCCESS, d)))"

definition vga_set_cursor_pos :: "int \<Rightarrow> int \<Rightarrow> vga_data \<Rightarrow> status \<times> vga_data" where
  "vga_set_cursor_pos col row d =
     (let (st, width, _) = vga_get_dimension d in
      if \<not> CHECK_SUCCESS st then (st, d)
      else
        let col = (if col < 0 then cursor_col d else col); row = (if row < 0 then cursor_row d else row);
            pos = row * width + col;
            d1 = write_cr 0x0E (of_int (pos div 0x100)) (write_cr 0x0F (of_int pos) d)
        in (STATUS_SUCCESS, d1\<lparr>cursor_col := col, cursor_row := row\<rparr>))"

definition vga_get_cursor_pos :: "vga_data \<Rightarrow> status \<times> int \<times> int" where
  "vga_get_cursor_pos d = (STATUS_SUCCESS, cursor_col d, cursor_row d)"

definition vga_set_cursor_visibility :: "int \<Rightarrow> vga_data \<Rightarrow> status \<times> vga_data" where
  "vga_set_cursor_visibility visibility d =
     (let d1 = d\<lparr>cursor_visible := visibility\<rparr> in
      if visibility \<noteq> 0 then
        let d2 = write_cr 0x0A ((read_cr 0x0A d1 AND 0xC0) OR cursor_shape_start d1) d1
        in (STATUS_SUCCESS, write_cr 0x0B ((read_cr 0x0B d2 AND 0xE0) OR cursor_shape_end d2) d2)
      else (STATUS_SUCCESS, write_cr 0x0A 0x20 d1))"

definition vga_get_cursor_visibility :: "vga_data \<Rightarrow> status \<times> int" where
  "vga_get_cursor_visibility d = (STATUS_SUCCESS, cursor_visible d)"

definition vga_conif :: "vga_data console_interface" where
  "vga_conif = \<lparr>get_dimension = vga_get_dimension, get_buffer = vga_get_buffer,
     buffer_cells = char_buffer, store_cells = (\<lambda>cs. char_buffer_update (\<lambda>_. cs)),
     invalidate = vga_con_invalidate, flush = vga_con_flush,
     set_cursor_pos = vga_set_cursor_pos, get_cursor_pos = vga_get_cursor_pos,
     set_cursor_visibility = vga_set_cursor_visibility, get_cursor_visibility = vga_get_cursor_visibility\<rparr>"

text \<open>\<^verbatim>\<open>setup_text_buffer\<close>: fresh buffers of a text mode, cleared; \<open>granted\<close> tells whether the two allocations succeed.\<close>

definition blank_attributes :: char_attributes where
  "blank_attributes = \<lparr>fg_color = 0, text_blink_level = 0, text_reversed = False, text_bold = False, text_dim = False,
     text_italic = False, text_underline = False, text_strike = False, bg_color = 0, text_overlined = False\<rparr>"

definition setup_text_buffer :: "bool \<Rightarrow> bool \<Rightarrow> int \<Rightarrow> int \<Rightarrow> vga_data \<Rightarrow> (status \<times> vga_data) outcome" where
  "setup_text_buffer granted_cells granted_diff width height d =
     (if \<not> granted_cells then Panic STATUS_UNKNOWN_ERROR
      else if \<not> granted_diff then Panic STATUS_UNKNOWN_ERROR
      else Ok (STATUS_SUCCESS, d\<lparr>
         char_buffer := replicate (nat (width * height)) \<lparr>attr = blank_attributes, codepoint = 0\<rparr>,
         diff_buffer := replicate (nat (width * height div 8)) 0\<rparr>))"

section \<open>The contract of a console\<close>

text \<open>The indices of the cells of a rectangle.\<close>

definition rect :: "int \<Rightarrow> int \<Rightarrow> int \<Rightarrow> int \<Rightarrow> int \<Rightarrow> nat set" where
  "rect w x0 y0 x1 y1 = {nat (y * w + x) | x y. x0 \<le> x \<and> x \<le> x1 \<and> y0 \<le> y \<and> y \<le> y1}"

text \<open>
  What the terminal relies on.  \<open>stale d\<close> are the cells that the device would not show after a flush: those that were
  changed and not invalidated.  Positions that are not negative can be set; nothing is promised for the others.
\<close>

locale console =
  fixes conif :: "'d console_interface"
    and ok :: "'d \<Rightarrow> bool"
    and width :: "'d \<Rightarrow> int"
    and height :: "'d \<Rightarrow> int"
    and shows_char :: "int \<Rightarrow> bool"
    and stale :: "'d \<Rightarrow> nat set"
  assumes dimension: "ok d \<Longrightarrow> get_dimension conif d = (STATUS_SUCCESS, width d, height d) \<and> 0 < width d \<and> 0 < height d"
    and buffer: "ok d \<Longrightarrow> get_buffer conif d = STATUS_SUCCESS \<and> length (buffer_cells conif d) = nat (width d * height d)"
    and blanks_shown: "shows_char 0 \<and> shows_char (- 1)"
    and cells_shown: "ok d \<Longrightarrow> c \<in> set (buffer_cells conif d) \<Longrightarrow> shows_char (codepoint c)"
    and store: "ok d \<Longrightarrow> length cs = length (buffer_cells conif d) \<Longrightarrow> \<forall>c \<in> set cs. shows_char (codepoint c) \<Longrightarrow>
      ok (store_cells conif cs d) \<and> buffer_cells conif (store_cells conif cs d) = cs \<and>
      width (store_cells conif cs d) = width d \<and> height (store_cells conif cs d) = height d \<and>
      get_cursor_pos conif (store_cells conif cs d) = get_cursor_pos conif d \<and>
      stale (store_cells conif cs d) \<subseteq> stale d \<union> {i. i < length cs \<and> cs ! i \<noteq> buffer_cells conif d ! i}"
    and invalidate: "ok d \<Longrightarrow> 0 \<le> x0 \<Longrightarrow> 0 \<le> y0 \<Longrightarrow> x1 < width d \<Longrightarrow> y1 < height d \<Longrightarrow>
      \<exists>d'. invalidate conif x0 y0 x1 y1 d = Ok (STATUS_SUCCESS, d') \<and> ok d' \<and> buffer_cells conif d' = buffer_cells conif d \<and>
        width d' = width d \<and> height d' = height d \<and> get_cursor_pos conif d' = get_cursor_pos conif d \<and>
        stale d' \<subseteq> stale d - rect (width d) x0 y0 x1 y1"
    and cursor: "ok d \<Longrightarrow> fst (get_cursor_pos conif d) = STATUS_SUCCESS"
    and set_cursor: "ok d \<Longrightarrow> 0 \<le> x \<Longrightarrow> 0 \<le> y \<Longrightarrow>
      \<exists>d'. set_cursor_pos conif x y d = (STATUS_SUCCESS, d') \<and> ok d' \<and> buffer_cells conif d' = buffer_cells conif d \<and>
        width d' = width d \<and> height d' = height d \<and> get_cursor_pos conif d' = (STATUS_SUCCESS, x, y) \<and> stale d' = stale d"
    and flush: "ok d \<Longrightarrow>
      \<exists>d'. flush conif d = Ok (STATUS_SUCCESS, d') \<and> ok d' \<and> buffer_cells conif d' = buffer_cells conif d \<and>
        width d' = width d \<and> height d' = height d \<and> get_cursor_pos conif d' = get_cursor_pos conif d \<and> stale d' \<subseteq> stale d"

section \<open>The VGA console keeps it\<close>

definition changed :: "vga_data \<Rightarrow> nat \<Rightarrow> bool" where
  "changed d i = bit (diff_buffer d ! (i div 8)) (i mod 8)"

text \<open>Characters that \<^verbatim>\<open>enc_utf32_to_cp437\<close> can convert or reject: all but U+0300 to U+038F, where it reads before a table.\<close>

definition cp437_char :: "int \<Rightarrow> bool" where
  "cp437_char c \<longleftrightarrow> \<not> (0x300 \<le> c \<and> c < 0x390)"

definition vga_size :: "vga_data \<Rightarrow> nat" where
  "vga_size d = nat (fst (snd (vga_get_dimension d)) * snd (snd (vga_get_dimension d)))"

definition vga_ok :: "vga_data \<Rightarrow> bool" where
  "vga_ok d \<longleftrightarrow> \<not> is_switching_mode d \<and> fst (vga_get_dimension d) = STATUS_SUCCESS \<and>
     0 < fst (snd (vga_get_dimension d)) \<and> 0 < snd (snd (vga_get_dimension d)) \<and>
     length (char_buffer d) = vga_size d \<and> vga_size d \<le> 8 * length (diff_buffer d) \<and> vga_size d \<le> length (text_memory d) \<and>
     list_all (\<lambda>c. cp437_char (codepoint c)) (char_buffer d)"

definition vga_stale :: "vga_data \<Rightarrow> nat set" where
  "vga_stale d = {i. i < vga_size d \<and> \<not> changed d i \<and> cell_word (char_buffer d ! i) \<noteq> Ok (text_memory d ! i)}"

section \<open>Lemmas\<close>

lemma ofold_map: "ofold f (map g xs) s = ofold (\<lambda>x. f (g x)) xs s"
  by (induction xs arbitrary: s) (auto simp: obind_def split: outcome.splits)

lemma ofold_row: "ofold (\<lambda>x. f (a + x)) [x0..x1] s = ofold f [a + x0..a + x1] s" for a x0 x1 :: int
proof -
  have "map (\<lambda>x. a + x) [x0..x1] = [a + x0..a + x1]" by (rule nth_equalityI) (auto simp: nth_upto)
  then show ?thesis using ofold_map [of f "\<lambda>x. a + x" "[x0..x1]" s] by simp
qed

lemma upto_from_0: "0 \<le> a \<Longrightarrow> a \<le> b \<Longrightarrow> [0..b - 1] = [0..a - 1] @ [a..b - 1]" for a b :: int
  using upto_split2 [of 0 "a - 1" "b - 1"] by (cases "a = 0") auto

text \<open>A loop over all rows and columns is a loop over the indices of the cells.\<close>

lemma ofold_grid:
  fixes w h :: int
  assumes "0 \<le> w" "0 \<le> h"
  shows "ofold (\<lambda>y. ofold (\<lambda>x. f (y * w + x)) [0..w - 1]) [0..h - 1] s = ofold f [0..h * w - 1] s"
  using assms(2)
proof (induction "nat h" arbitrary: h s)
  case 0
  then show ?case by simp
next
  case (Suc k)
  have h: "[0..h - 1] = [0..h - 1 - 1] @ [h - 1]" using Suc.hyps(2) by (intro upto_rec2) simp
  have n: "0 \<le> (h - 1) * w" using assms Suc.hyps(2) by (intro mult_nonneg_nonneg) auto
  have r: "(h - 1) * w + (w - 1) = h * w - 1" by (simp add: algebra_simps)
  then have e: "[0..h * w - 1] = [0..(h - 1) * w - 1] @ [(h - 1) * w..h * w - 1]"
    by (intro upto_from_0) (use n assms(1) in auto)
  have "ofold (\<lambda>x. f ((h - 1) * w + x)) [0..w - 1] u = ofold f [(h - 1) * w..h * w - 1] u" for u
    using ofold_row [of f "(h - 1) * w" 0 "w - 1" u] r by simp
  then show ?case
    unfolding h e ofold_append using Suc.hyps(1) [of "h - 1"] Suc.hyps(2) by (simp add: obind_def split: outcome.splits)
qed

text \<open>The changed bits.\<close>

definition only_diff :: "vga_data \<Rightarrow> (nat \<Rightarrow> bool) \<Rightarrow> vga_data \<Rightarrow> bool" where
  "only_diff d f d' \<longleftrightarrow> (\<exists>df. d' = d\<lparr>diff_buffer := df\<rparr> \<and> length df = length (diff_buffer d)) \<and> (\<forall>i. changed d' i = f i)"

lemma put_diff_bit_ok:
  assumes "0 \<le> i" "nat i < 8 * length (diff_buffer d)"
  shows "\<exists>d'. put_diff_bit b i d = Ok d' \<and> only_diff d ((changed d)(nat i := b)) d'"
proof -
  have l: "nat i div 8 < length (diff_buffer d)" using assms(2) by simp
  let ?d' = "d\<lparr>diff_buffer := (diff_buffer d)[nat i div 8 :=
      (if b then set_bit (nat i mod 8) (diff_buffer d ! (nat i div 8)) else unset_bit (nat i mod 8) (diff_buffer d ! (nat i div 8)))]\<rparr>"
  have "changed ?d' j = ((changed d)(nat i := b)) j" for j
  proof (cases "j div 8 = nat i div 8")
    case True
    then have "(j mod 8 = nat i mod 8) = (j = nat i)" by (metis div_mult_mod_eq)
    then show ?thesis using True l by (auto simp: changed_def bit_set_bit_iff bit_unset_bit_iff)
  next
    case False
    then have "j \<noteq> nat i" by auto
    then show ?thesis using False by (simp add: changed_def)
  qed
  then show ?thesis using assms l by (auto simp: put_diff_bit_def only_diff_def)
qed

lemma only_diff_refl: "only_diff d (changed d) d"
  by (auto simp: only_diff_def intro!: exI [of _ "diff_buffer d"])

lemma only_diff_trans: "only_diff d f d1 \<Longrightarrow> only_diff d1 g d2 \<Longrightarrow> only_diff d g d2"
  by (auto simp: only_diff_def)

lemma only_diff_len: "only_diff d f d' \<Longrightarrow> length (diff_buffer d') = length (diff_buffer d)"
  by (auto simp: only_diff_def)

lemma mark_list:
  "\<forall>i \<in> set is. 0 \<le> i \<and> nat i < 8 * length (diff_buffer d) \<Longrightarrow>
     \<exists>d'. ofold (put_diff_bit True) is d = Ok d' \<and> only_diff d (\<lambda>j. changed d j \<or> j \<in> nat ` set is) d'"
proof (induction "is" arbitrary: d)
  case Nil
  then show ?case using only_diff_refl by auto
next
  case (Cons i "is")
  obtain d1 where d1: "put_diff_bit True i d = Ok d1" "only_diff d ((changed d)(nat i := True)) d1"
    using put_diff_bit_ok [of i d True] Cons.prems by auto
  obtain d2 where d2: "ofold (put_diff_bit True) is d1 = Ok d2" "only_diff d1 (\<lambda>j. changed d1 j \<or> j \<in> nat ` set is) d2"
    using Cons.IH [of d1] Cons.prems only_diff_len [OF d1(2)] by auto
  have "(\<lambda>j. changed d1 j \<or> j \<in> nat ` set is) = (\<lambda>j. changed d j \<or> j \<in> nat ` set (i # is))"
    using d1(2) by (auto simp: only_diff_def fun_eq_iff)
  then show ?case using d1(1) d2 only_diff_trans [OF d1(2)] by auto
qed

lemma mark_rows:
  assumes "\<forall>y \<in> set ys. \<forall>x \<in> set xs. 0 \<le> y * w + x \<and> nat (y * w + x) < 8 * length (diff_buffer d)"
  shows "\<exists>d'. ofold (\<lambda>y. ofold (\<lambda>x. put_diff_bit True (y * w + x)) xs) ys d = Ok d' \<and>
    only_diff d (\<lambda>j. changed d j \<or> (\<exists>y \<in> set ys. \<exists>x \<in> set xs. j = nat (y * w + x))) d'"
  using assms
proof (induction ys arbitrary: d)
  case Nil
  then show ?case using only_diff_refl by auto
next
  case (Cons y ys)
  have "ofold (\<lambda>x. put_diff_bit True (y * w + x)) xs d = ofold (put_diff_bit True) (map (\<lambda>x. y * w + x) xs) d" by (simp add: ofold_map)
  then obtain d1 where d1: "ofold (\<lambda>x. put_diff_bit True (y * w + x)) xs d = Ok d1"
      "only_diff d (\<lambda>j. changed d j \<or> j \<in> nat ` set (map (\<lambda>x. y * w + x) xs)) d1"
    using mark_list [of "map (\<lambda>x. y * w + x) xs" d] Cons.prems by auto
  obtain d2 where d2: "ofold (\<lambda>y. ofold (\<lambda>x. put_diff_bit True (y * w + x)) xs) ys d1 = Ok d2"
      "only_diff d1 (\<lambda>j. changed d1 j \<or> (\<exists>y \<in> set ys. \<exists>x \<in> set xs. j = nat (y * w + x))) d2"
    using Cons.IH [of d1] Cons.prems only_diff_len [OF d1(2)] by auto
  have "(\<lambda>j. changed d1 j \<or> (\<exists>y \<in> set ys. \<exists>x \<in> set xs. j = nat (y * w + x))) =
      (\<lambda>j. changed d j \<or> (\<exists>y \<in> set (y # ys). \<exists>x \<in> set xs. j = nat (y * w + x)))"
    using d1(2) by (auto simp: only_diff_def fun_eq_iff)
  then show ?case using d1(1) d2 only_diff_trans [OF d1(2)] by auto
qed

text \<open>Characters outside the gap are converted without a fault.\<close>

lemma cp437_table_total: "base \<le> c \<Longrightarrow> \<exists>r. cp437_table t base c = Ok r"
  by (auto simp: cp437_table_def)

lemma enc_total: "cp437_char c \<Longrightarrow> \<exists>r. enc_utf32_to_cp437 c = Ok r"
proof -
  assume c: "cp437_char c"
  have t2: "\<exists>r. cp437_table unicode_cp437_table_2 0x390 c = Ok r" if "c div 0x100 = 3"
    using c that by (intro cp437_table_total) (auto simp: cp437_char_def)
  have sw: "\<exists>r. cp437_switch t k = Ok r" for t k by (auto simp: cp437_switch_def split: option.splits)
  show ?thesis
    using t2 sw cp437_table_total [of "0xA0" c unicode_cp437_table_1] cp437_table_total [of "0x2500" c unicode_cp437_table_3]
      cp437_table_total [of "0x2630" c unicode_cp437_table_4]
    by (simp add: enc_utf32_to_cp437_def Let_def)
qed

lemma cell_word_total: "cp437_char (codepoint c) \<Longrightarrow> \<exists>w. cell_word c = Ok w"
  using enc_total [of "codepoint c"] by (auto simp: cell_word_def Let_def)

lemma vga_dimension_updates [simp]:
  "vga_get_dimension (diff_buffer_update f d) = vga_get_dimension d"
  "vga_get_dimension (char_buffer_update g d) = vga_get_dimension d"
  "vga_get_dimension (text_memory_update m d) = vga_get_dimension d"
  "vga_get_dimension (crtc_update r d) = vga_get_dimension d"
  "vga_get_dimension (cursor_col_update c d) = vga_get_dimension d"
  "vga_get_dimension (cursor_row_update c d) = vga_get_dimension d"
  by (simp_all add: vga_get_dimension_def get_dimension_vbe_def get_dimension_vga_def)

lemma changed_updates [simp]:
  "changed (char_buffer_update g d) = changed d" "changed (text_memory_update m d) = changed d"
  "changed (crtc_update r d) = changed d" "changed (cursor_col_update c d) = changed d" "changed (cursor_row_update c d) = changed d"
  by (simp_all add: fun_eq_iff changed_def)

lemma vga_size_updates [simp]:
  "vga_size (diff_buffer_update f d) = vga_size d" "vga_size (char_buffer_update g d) = vga_size d"
  "vga_size (text_memory_update m d) = vga_size d" "vga_size (crtc_update r d) = vga_size d"
  "vga_size (cursor_col_update c d) = vga_size d" "vga_size (cursor_row_update c d) = vga_size d"
  by (simp_all add: vga_size_def)

lemma vga_ok_dims:
  assumes "vga_ok d"
  obtains w h where "vga_get_dimension d = (STATUS_SUCCESS, w, h)" "0 < w" "0 < h" "vga_size d = nat (w * h)"
  using assms by (cases "vga_get_dimension d") (auto simp: vga_ok_def vga_size_def)

lemma index_in_grid:
  fixes x y w h :: int
  assumes "0 \<le> x" "x < w" "0 \<le> y" "y < h"
  shows "0 \<le> y * w + x" "y * w + x < w * h" "nat (y * w + x) < nat (w * h)"
proof -
  show 0: "0 \<le> y * w + x" using assms by simp
  have "(y + 1) * w \<le> h * w" using assms by (intro mult_right_mono) auto
  then show "y * w + x < w * h" using assms by (simp add: algebra_simps)
  then show "nat (y * w + x) < nat (w * h)" using 0 by simp
qed

definition flushed :: "nat \<Rightarrow> vga_data \<Rightarrow> vga_data \<Rightarrow> bool" where
  "flushed k d d' \<longleftrightarrow>
     (\<exists>tm df. d' = d\<lparr>text_memory := tm, diff_buffer := df\<rparr> \<and> length tm = length (text_memory d) \<and> length df = length (diff_buffer d)) \<and>
     (\<forall>i. changed d' i = (changed d i \<and> \<not> i < k)) \<and>
     (\<forall>i < vga_size d. if i < k \<and> changed d i then cell_word (char_buffer d ! i) = Ok (text_memory d' ! i)
        else text_memory d' ! i = text_memory d ! i)"

lemma flush_cell_step:
  assumes ok: "vga_ok d" and k: "k < vga_size d" and f: "flushed k d d1"
  shows "\<exists>d2. flush_cell (int k) d1 = Ok d2 \<and> flushed (Suc k) d d2"
proof -
  have len: "k < length (char_buffer d)" "k < length (text_memory d)" "k div 8 < length (diff_buffer d)" "k < 8 * length (diff_buffer d)"
    using ok k by (auto simp: vga_ok_def)
  obtain tm df where d1: "d1 = d\<lparr>text_memory := tm, diff_buffer := df\<rparr>" "length tm = length (text_memory d)" "length df = length (diff_buffer d)"
    using f by (auto simp: flushed_def)
  have bitk: "diff_bit d1 (int k) = Ok (changed d k)"
    using f len d1 by (auto simp: diff_bit_def changed_def flushed_def)
  show ?thesis
  proof (cases "changed d k")
    case False
    then have "flushed (Suc k) d d1" using f by (auto simp: flushed_def less_Suc_eq)
    then show ?thesis using False bitk by (simp add: flush_cell_def)
  next
    case True
    have "cp437_char (codepoint (char_buffer d ! k))" using ok len by (auto simp: vga_ok_def list_all_length)
    then obtain w where w: "cell_word (char_buffer d ! k) = Ok w" using cell_word_total by blast
    let ?e = "d1\<lparr>text_memory := tm[k := w]\<rparr>"
    obtain d2 where d2: "put_diff_bit False (int k) ?e = Ok d2" "only_diff ?e ((changed ?e)(k := False)) d2"
      using put_diff_bit_ok [of "int k" ?e False] len d1 by auto
    have "flush_cell (int k) d1 = Ok d2" using bitk True len d1 w d2(1) by (simp add: flush_cell_def)
    moreover have "flushed (Suc k) d d2"
      unfolding flushed_def
    proof (intro conjI allI impI)
      obtain df2 where df2: "d2 = ?e\<lparr>diff_buffer := df2\<rparr>" "length df2 = length df" using d2(2) d1 by (auto simp: only_diff_def)
      then have d2': "d2 = d\<lparr>text_memory := tm[k := w], diff_buffer := df2\<rparr>" using d1 by simp
      then show "\<exists>tm df. d2 = d\<lparr>text_memory := tm, diff_buffer := df\<rparr> \<and> length tm = length (text_memory d) \<and> length df = length (diff_buffer d)"
        using d1 df2(2) by (intro exI [of _ "tm[k := w]"] exI [of _ df2]) simp
      show "changed d2 i = (changed d i \<and> \<not> i < Suc k)" for i
        using d2(2) f by (auto simp: only_diff_def flushed_def less_Suc_eq)
      show "if i < Suc k \<and> changed d i then cell_word (char_buffer d ! i) = Ok (text_memory d2 ! i)
          else text_memory d2 ! i = text_memory d ! i" if "i < vga_size d" for i
      proof (cases "i = k")
        case i: True
        then show ?thesis using w len d1(2) True d2' by simp
      next
        case False
        then have "(i < Suc k) = (i < k)" "text_memory d2 ! i = text_memory d1 ! i" using d2' d1 by auto
        moreover have "if i < k \<and> changed d i then cell_word (char_buffer d ! i) = Ok (text_memory d1 ! i)
            else text_memory d1 ! i = text_memory d ! i" using f that unfolding flushed_def by blast
        ultimately show ?thesis by simp
      qed
    qed
    ultimately show ?thesis by blast
  qed
qed

lemma flush_cells:
  "vga_ok d \<Longrightarrow> k \<le> vga_size d \<Longrightarrow> \<exists>d'. ofold flush_cell [0..int k - 1] d = Ok d' \<and> flushed k d d'"
proof (induction k)
  case 0
  then show ?case by (auto simp: flushed_def intro!: exI [of _ "text_memory d"] exI [of _ "diff_buffer d"])
next
  case (Suc k)
  have "[0..int (Suc k) - 1] = [0..int k - 1] @ [int k]" using upto_rec2 [of 0 "int k"] by simp
  moreover obtain d1 d2 where "ofold flush_cell [0..int k - 1] d = Ok d1" "flush_cell (int k) d1 = Ok d2" "flushed (Suc k) d d2"
    using Suc flush_cell_step [of d k] by force
  ultimately show ?case by (simp add: ofold_append)
qed

lemma vga_flush_ok:
  assumes ok: "vga_ok d"
  shows "\<exists>d'. vga_con_flush d = Ok (STATUS_SUCCESS, d') \<and> flushed (vga_size d) d d'"
proof -
  obtain w h where w: "vga_get_dimension d = (STATUS_SUCCESS, w, h)" "0 < w" "0 < h" "vga_size d = nat (w * h)" using vga_ok_dims [OF ok] .
  have n: "int (vga_size d) = h * w" using w by (simp add: mult.commute)
  obtain d' where d': "ofold flush_cell [0..h * w - 1] d = Ok d'" "flushed (vga_size d) d d'"
    using flush_cells [OF ok, of "vga_size d"] unfolding n by auto
  have "vga_con_flush d = Ok (STATUS_SUCCESS, d')"
    using d'(1) ofold_grid [of w h flush_cell d] w ok by (simp add: vga_con_flush_def vga_ok_def CHECK_SUCCESS_def)
  then show ?thesis using d'(2) by blast
qed

text \<open>A flushed screen without stale cells shows every cell.\<close>

lemma flushed_shows:
  assumes "flushed (vga_size d) d d'" "vga_stale d = {}" "i < vga_size d"
  shows "cell_word (char_buffer d' ! i) = Ok (text_memory d' ! i)"
  using assms by (cases "changed d i") (auto simp: flushed_def vga_stale_def)

interpretation vga: console vga_conif vga_ok "\<lambda>d. fst (snd (vga_get_dimension d))" "\<lambda>d. snd (snd (vga_get_dimension d))" cp437_char vga_stale
proof (unfold_locales, goal_cases)
  case (1 d)
  then show ?case by (auto simp: vga_conif_def elim: vga_ok_dims)
next
  case (2 d)
  then show ?case by (auto simp: vga_conif_def vga_get_buffer_def vga_ok_def vga_size_def)
next
  case 3
  then show ?case by (simp add: cp437_char_def)
next
  case (4 d c)
  then show ?case by (auto simp: vga_conif_def vga_ok_def list_all_iff)
next
  case (5 d cs)
  then show ?case by (auto simp: vga_conif_def vga_ok_def vga_get_cursor_pos_def vga_stale_def list_all_iff)
next
  case (6 d x0 y0 x1 y1)
  obtain w h where w: "vga_get_dimension d = (STATUS_SUCCESS, w, h)" "0 < w" "0 < h" "vga_size d = nat (w * h)" using vga_ok_dims [OF 6(1)] .
  have room: "nat (w * h) \<le> 8 * length (diff_buffer d)" using 6(1) w by (simp add: vga_ok_def)
  have "\<forall>y \<in> set [y0..y1]. \<forall>x \<in> set [x0..x1]. 0 \<le> y * w + x \<and> nat (y * w + x) < 8 * length (diff_buffer d)"
  proof (intro ballI)
    fix y x assume "y \<in> set [y0..y1]" "x \<in> set [x0..x1]"
    then have "0 \<le> x" "x < w" "0 \<le> y" "y < h" using 6 w by auto
    from index_in_grid [OF this] show "0 \<le> y * w + x \<and> nat (y * w + x) < 8 * length (diff_buffer d)" using room by simp
  qed
  then obtain d' where d': "ofold (\<lambda>y. ofold (\<lambda>x. put_diff_bit True (y * w + x)) [x0..x1]) [y0..y1] d = Ok d'"
      "only_diff d (\<lambda>j. changed d j \<or> (\<exists>y \<in> set [y0..y1]. \<exists>x \<in> set [x0..x1]. j = nat (y * w + x))) d'"
    using mark_rows [of "[y0..y1]" "[x0..x1]" w d] by auto
  have "vga_con_invalidate x0 y0 x1 y1 d = Ok (STATUS_SUCCESS, d')" using 6(1) w d'(1) by (simp add: vga_con_invalidate_def vga_ok_def CHECK_SUCCESS_def)
  moreover have "vga_stale d' \<subseteq> vga_stale d - rect w x0 y0 x1 y1"
    using d'(2) by (fastforce simp: only_diff_def vga_stale_def rect_def)
  moreover have "vga_ok d'" using 6(1) d'(2) by (auto simp: only_diff_def vga_ok_def)
  ultimately show ?case using d'(2) w by (auto simp: vga_conif_def only_diff_def vga_get_cursor_pos_def)
next
  case (7 d)
  then show ?case by (simp add: vga_conif_def vga_get_cursor_pos_def)
next
  case (8 d x y)
  obtain w h where w: "vga_get_dimension d = (STATUS_SUCCESS, w, h)" using vga_ok_dims [OF 8(1)] .
  then show ?case using 8
    by (auto simp: vga_conif_def vga_set_cursor_pos_def vga_get_cursor_pos_def write_cr_def vga_ok_def vga_stale_def CHECK_SUCCESS_def Let_def)
next
  case (9 d)
  obtain d' where d': "vga_con_flush d = Ok (STATUS_SUCCESS, d')" "flushed (vga_size d) d d'" using vga_flush_ok [OF 9] by blast
  have "vga_ok d'" using 9 d'(2) by (auto simp: flushed_def vga_ok_def)
  moreover have "vga_stale d' \<subseteq> vga_stale d" using d'(2) by (auto simp: flushed_def vga_stale_def split: if_splits)
  ultimately show ?case using d' by (auto simp: vga_conif_def flushed_def vga_get_cursor_pos_def)
qed

end
