(* ===== verification/Ansiterm.thy ===== *)
theory Ansiterm
  imports Console Wcwidth
begin

text \<open>
  The terminal emulator of the boot loader, \<^verbatim>\<open>boot/device/char/ansiterm.c\<close>: a state machine for escape sequences over a
  console that it reaches through the functions of a \<^verbatim>\<open>struct console_interface\<close>, and the decoding of UTF-8 in front of it.
  The state is the pair of the driver's data and the device of the console; the fields of the escape sequences are a
  record of their own, for the decoder does not touch them.  Every return of a failing status of the console ends the
  operation with that status.
\<close>

section \<open>State\<close>

datatype ansi_escape_state = STATE_DEFAULT | STATE_ESC | STATE_SS2 | STATE_SS3 | STATE_DCS | STATE_CSI | STATE_ST
  | STATE_OSC | STATE_SOS | STATE_PM | STATE_APC

record escape_data =
  escape_seq_args :: "int list"
  escape_seq_arg_count :: int
  escape_seq_state :: ansi_escape_state
  escape_seq_number_input :: bool
  saved_cursor_x :: int
  saved_cursor_y :: int
  attr_state :: char_attributes

record ansiterm_data =
  escape :: escape_data
  utf8_fragment_len :: nat
  utf8_fragment_buf :: "u8 list"

definition palette :: "24 word list" where
  "palette = [
     0x000000, 0xAA0000, 0x00AA00, 0xAA5500, 0x0000AA, 0xAA00AA, 0x00AAAA, 0xAAAAAA,
     0x555555, 0xFF5555, 0x55FF55, 0xFFFF55, 0x5555FF, 0xFF55FF, 0x55FFFF, 0xFFFFFF,
     0x000000, 0x00005F, 0x000087, 0x0000AF, 0x0000D7, 0x0000FF, 0x005F00, 0x005F5F,
     0x005F87, 0x005FAF, 0x005FD7, 0x005FFF, 0x008700, 0x00875F, 0x008787, 0x0087AF,
     0x0087D7, 0x0087FF, 0x00AF00, 0x00AF5F, 0x00AF87, 0x00AFAF, 0x00AFD7, 0x00AFFF,
     0x00D700, 0x00D75F, 0x00D787, 0x00D7AF, 0x00D7D7, 0x00D7FF, 0x00FF00, 0x00FF5F,
     0x00FF87, 0x00FFAF, 0x00FFD7, 0x00FFFF, 0x5F0000, 0x5F005F, 0x5F0087, 0x5F00AF,
     0x5F00D7, 0x5F00FF, 0x5F5F00, 0x5F5F5F, 0x5F5F87, 0x5F5FAF, 0x5F5FD7, 0x5F5FFF,
     0x5F8700, 0x5F875F, 0x5F8787, 0x5F87AF, 0x5F87D7, 0x5F87FF, 0x5FAF00, 0x5FAF5F,
     0x5FAF87, 0x5FAFAF, 0x5FAFD7, 0x5FAFFF, 0x5FD700, 0x5FD75F, 0x5FD787, 0x5FD7AF,
     0x5FD7D7, 0x5FD7FF, 0x5FFF00, 0x5FFF5F, 0x5FFF87, 0x5FFFAF, 0x5FFFD7, 0x5FFFFF,
     0x870000, 0x87005F, 0x870087, 0x8700AF, 0x8700D7, 0x8700FF, 0x875F00, 0x875F5F,
     0x875F87, 0x875FAF, 0x875FD7, 0x875FFF, 0x878700, 0x87875F, 0x878787, 0x8787AF,
     0x8787D7, 0x8787FF, 0x87AF00, 0x87AF5F, 0x87AF87, 0x87AFAF, 0x87AFD7, 0x87AFFF,
     0x87D700, 0x87D75F, 0x87D787, 0x87D7AF, 0x87D7D7, 0x87D7FF, 0x87FF00, 0x87FF5F,
     0x87FF87, 0x87FFAF, 0x87FFD7, 0x87FFFF, 0xAF0000, 0xAF005F, 0xAF0087, 0xAF00AF,
     0xAF00D7, 0xAF00FF, 0xAF5F00, 0xAF5F5F, 0xAF5F87, 0xAF5FAF, 0xAF5FD7, 0xAF5FFF,
     0xAF8700, 0xAF875F, 0xAF8787, 0xAF87AF, 0xAF87D7, 0xAF87FF, 0xAFAF00, 0xAFAF5F,
     0xAFAF87, 0xAFAFAF, 0xAFAFD7, 0xAFAFFF, 0xAFD700, 0xAFD75F, 0xAFD787, 0xAFD7AF,
     0xAFD7D7, 0xAFD7FF, 0xAFFF00, 0xAFFF5F, 0xAFFF87, 0xAFFFAF, 0xAFFFD7, 0xAFFFFF,
     0xD70000, 0xD7005F, 0xD70087, 0xD700AF, 0xD700D7, 0xD700FF, 0xD75F00, 0xD75F5F,
     0xD75F87, 0xD75FAF, 0xD75FD7, 0xD75FFF, 0xD78700, 0xD7875F, 0xD78787, 0xD787AF,
     0xD787D7, 0xD787FF, 0xD7AF00, 0xD7AF5F, 0xD7AF87, 0xD7AFAF, 0xD7AFD7, 0xD7AFFF,
     0xD7D700, 0xD7D75F, 0xD7D787, 0xD7D7AF, 0xD7D7D7, 0xD7D7FF, 0xD7FF00, 0xD7FF5F,
     0xD7FF87, 0xD7FFAF, 0xD7FFD7, 0xD7FFFF, 0xFF0000, 0xFF005F, 0xFF0087, 0xFF00AF,
     0xFF00D7, 0xFF00FF, 0xFF5F00, 0xFF5F5F, 0xFF5F87, 0xFF5FAF, 0xFF5FD7, 0xFF5FFF,
     0xFF8700, 0xFF875F, 0xFF8787, 0xFF87AF, 0xFF87D7, 0xFF87FF, 0xFFAF00, 0xFFAF5F,
     0xFFAF87, 0xFFAFAF, 0xFFAFD7, 0xFFAFFF, 0xFFD700, 0xFFD75F, 0xFFD787, 0xFFD7AF,
     0xFFD7D7, 0xFFD7FF, 0xFFFF00, 0xFFFF5F, 0xFFFF87, 0xFFFFAF, 0xFFFFD7, 0xFFFFFF,
     0x080808, 0x121212, 0x1C1C1C, 0x262626, 0x303030, 0x3A3A3A, 0x444444, 0x4E4E4E,
     0x585858, 0x626262, 0x6C6C6C, 0x767676, 0x808080, 0x8A8A8A, 0x949494, 0x9E9E9E,
     0xA8A8A8, 0xB2B2B2, 0xBCBCBC, 0xC6C6C6, 0xD0D0D0, 0xDADADA, 0xE4E4E4, 0xEEEEEE]"

type_synonym 'd terminal = "escape_data \<times> 'd"
type_synonym 'd step = "(status \<times> 'd terminal) outcome"

section \<open>Calls of the console\<close>

definition check_then :: "(status \<times> 's) outcome \<Rightarrow> ('s \<Rightarrow> (status \<times> 's) outcome) \<Rightarrow> (status \<times> 's) outcome" where
  "check_then m f = obind m (\<lambda>(st, s). if \<not> CHECK_SUCCESS st then Ok (st, s) else f s)"

definition with_cursor :: "'d console_interface \<Rightarrow> 'd terminal \<Rightarrow> (int \<Rightarrow> int \<Rightarrow> 'd step) \<Rightarrow> 'd step" where
  "with_cursor conif t f = (let (st, x, y) = get_cursor_pos conif (snd t) in if \<not> CHECK_SUCCESS st then Ok (st, t) else f x y)"

definition with_dimension :: "'d console_interface \<Rightarrow> 'd terminal \<Rightarrow> (int \<Rightarrow> int \<Rightarrow> 'd step) \<Rightarrow> 'd step" where
  "with_dimension conif t f = (let (st, w, h) = get_dimension conif (snd t) in if \<not> CHECK_SUCCESS st then Ok (st, t) else f w h)"

definition with_buffer :: "'d console_interface \<Rightarrow> 'd terminal \<Rightarrow> 'd step \<Rightarrow> 'd step" where
  "with_buffer conif t f = (let st = get_buffer conif (snd t) in if \<not> CHECK_SUCCESS st then Ok (st, t) else f)"

definition finish :: "status \<times> 'd terminal \<Rightarrow> 'd step" where
  "finish r = Ok (if CHECK_SUCCESS (fst r) then STATUS_SUCCESS else fst r, snd r)"

definition move_cursor :: "'d console_interface \<Rightarrow> int \<Rightarrow> int \<Rightarrow> 'd terminal \<Rightarrow> (status \<times> 'd terminal) outcome" where
  "move_cursor conif x y t = (let (st, d) = set_cursor_pos conif x y (snd t) in finish (st, fst t, d))"

definition call_invalidate :: "'d console_interface \<Rightarrow> int \<Rightarrow> int \<Rightarrow> int \<Rightarrow> int \<Rightarrow> 'd terminal \<Rightarrow> 'd step" where
  "call_invalidate conif x0 y0 x1 y1 t = obind (invalidate conif x0 y0 x1 y1 (snd t)) (\<lambda>(st, d). finish (st, fst t, d))"

definition get_cell :: "'d console_interface \<Rightarrow> int \<Rightarrow> 'd terminal \<Rightarrow> char_cell outcome" where
  "get_cell conif i t =
     (let cs = buffer_cells conif (snd t) in if 0 \<le> i \<and> nat i < length cs then Ok (cs ! nat i) else Fault)"

definition put_cell :: "'d console_interface \<Rightarrow> int \<Rightarrow> char_cell \<Rightarrow> 'd terminal \<Rightarrow> 'd terminal outcome" where
  "put_cell conif i c t =
     (let cs = buffer_cells conif (snd t) in
      if 0 \<le> i \<and> nat i < length cs then Ok (fst t, store_cells conif (cs[nat i := c]) (snd t)) else Fault)"

section \<open>Cells\<close>

fun backspace_scan :: "'d console_interface \<Rightarrow> int \<Rightarrow> int list \<Rightarrow> 'd terminal \<Rightarrow> int option outcome" where
  "backspace_scan conif base [] t = Ok None"
| "backspace_scan conif base (x # xs) t =
     obind (get_cell conif (base + x) t) (\<lambda>c. if codepoint c \<noteq> 0 then Ok (Some (x + 1)) else backspace_scan conif base xs t)"

text \<open>\<open>k\<close> is what follows with the new column; where the source leaves it unassigned the old one is kept.\<close>

definition console_backspace :: "'d console_interface \<Rightarrow> 'd terminal \<Rightarrow> int \<Rightarrow> (int \<Rightarrow> 'd step) \<Rightarrow> 'd step" where
  "console_backspace conif t old_x k =
     with_cursor conif t (\<lambda>x y. with_dimension conif t (\<lambda>width _. with_buffer conif t
       (if x < 1 then k old_x
        else obind (get_cell conif (y * width + x - 1) t) (\<lambda>c.
          if codepoint c \<noteq> 0 then k (x - 1)
          else obind (backspace_scan conif (y * width) (rev [(x - 1) div 8 * 8..x - 2]) t) (\<lambda>r.
            case r of Some x' \<Rightarrow> k x' | None \<Rightarrow> k ((x - 1) div 8 * 8))))))"

definition blank_cell :: "escape_data \<Rightarrow> char_cell" where
  "blank_cell e = \<lparr>attr = attr_state e, codepoint = 0\<rparr>"

definition console_erase :: "'d console_interface \<Rightarrow> int \<Rightarrow> int \<Rightarrow> int \<Rightarrow> int \<Rightarrow> 'd terminal \<Rightarrow> 'd step" where
  "console_erase conif x0 y0 x1 y1 t =
     with_dimension conif t (\<lambda>width _. with_buffer conif t
       (obind (ofold (\<lambda>y. ofold (\<lambda>x t. put_cell conif (y * width + x) (blank_cell (fst t)) t) [x0..x1]) [y0..y1] t)
          (call_invalidate conif x0 y0 x1 y1)))"

definition copy_cell :: "'d console_interface \<Rightarrow> int \<Rightarrow> int \<Rightarrow> 'd terminal \<Rightarrow> 'd terminal outcome" where
  "copy_cell conif dst src t = obind (get_cell conif src t) (\<lambda>c. put_cell conif dst c t)"

definition console_scroll :: "'d console_interface \<Rightarrow> int \<Rightarrow> int \<Rightarrow> int \<Rightarrow> int \<Rightarrow> int \<Rightarrow> 'd terminal \<Rightarrow> 'd step" where
  "console_scroll conif amount x0 y0 x1 y1 t =
     with_dimension conif t (\<lambda>width _. with_buffer conif t
       (if amount = 0 then Ok (STATUS_SUCCESS, t)
        else obind
          (if 0 < amount then
             obind (ofold (\<lambda>y. ofold (\<lambda>x. copy_cell conif (y * width + x) ((y + amount) * width + x)) [x0..x1]) [y0..y1 - amount] t)
               (console_erase conif x0 (y1 - amount + 1) x1 y1)
           else
             obind (ofold (\<lambda>y. ofold (\<lambda>x. copy_cell conif ((y - amount) * width + x) (y * width + x)) [x0..x1]) (rev [y0..y1 + amount]) t)
               (console_erase conif x0 y0 x1 (y0 - amount)))
          (\<lambda>(_, t). call_invalidate conif x0 y0 x1 y1 t)))"

definition console_putchar :: "'d console_interface \<Rightarrow> int \<Rightarrow> 'd terminal \<Rightarrow> 'd step" where
  "console_putchar conif ch t =
     obind (wcwidth ch) (\<lambda>w.
       let cwidth = (if 1 < w then 2 else 1 :: int); cell = (\<lambda>c. \<lparr>attr = attr_state (fst t), codepoint = c\<rparr>) in
       with_cursor conif t (\<lambda>x y. with_dimension conif t (\<lambda>width _. with_buffer conif t
         (obind (put_cell conif (y * width + x) (cell ch) t) (\<lambda>t.
           check_then (call_invalidate conif x y x y t) (\<lambda>t.
             if cwidth = 2 \<and> x + 1 < width then
               obind (put_cell conif (y * width + x + 1) (cell (- 1)) t) (call_invalidate conif x y x y)
             else Ok (STATUS_SUCCESS, t)))))))"

section \<open>Escape sequences\<close>

text \<open>The handlers of the two states take a \<^verbatim>\<open>char\<close>.\<close>

definition to_char :: "int \<Rightarrow> int" where
  "to_char c = (c + 128) mod 256 - 128"

definition to_state :: "ansi_escape_state \<Rightarrow> 'd terminal \<Rightarrow> 'd terminal" where
  "to_state s t = ((fst t)\<lparr>escape_seq_state := s\<rparr>, snd t)"

definition handle_esc :: "int \<Rightarrow> 'd terminal \<Rightarrow> 'd step" where
  "handle_esc ch t =
     (let e = (fst t)\<lparr>escape_seq_args := replicate 8 0, escape_seq_arg_count := 0, escape_seq_number_input := False\<rparr>
      in Ok (STATUS_SUCCESS, to_state
           (if ch = 78 then STATE_SS2 else if ch = 79 then STATE_SS3 else if ch = 80 then STATE_DCS
            else if ch = 91 then STATE_CSI else if ch = 92 then STATE_ST else if ch = 93 then STATE_OSC
            else if ch = 88 then STATE_SOS else if ch = 94 then STATE_PM else if ch = 95 then STATE_APC
            else STATE_DEFAULT) (e, snd t)))"

text \<open>Argument \<open>i\<close> of the sequence, or a default.\<close>

definition seq_arg :: "nat \<Rightarrow> int \<Rightarrow> escape_data \<Rightarrow> int" where
  "seq_arg i dflt e = (if escape_seq_arg_count e < int i + 1 then dflt else escape_seq_args e ! i)"

definition handle_cuu :: "'d console_interface \<Rightarrow> 'd terminal \<Rightarrow> 'd step" where
  "handle_cuu conif t = with_cursor conif t (\<lambda>_ y.
     let count = seq_arg 0 1 (fst t); count = (if count < y then count else y)
     in move_cursor conif (- 1) (y - count) (to_state STATE_DEFAULT t))"

definition handle_cud :: "'d console_interface \<Rightarrow> 'd terminal \<Rightarrow> 'd step" where
  "handle_cud conif t = with_cursor conif t (\<lambda>_ y. with_dimension conif t (\<lambda>_ height.
     let count = seq_arg 0 1 (fst t); count = (if count < height - y then count else height - y)
     in move_cursor conif (- 1) (y + count) (to_state STATE_DEFAULT t)))"

definition handle_cuf :: "'d console_interface \<Rightarrow> 'd terminal \<Rightarrow> 'd step" where
  "handle_cuf conif t = with_cursor conif t (\<lambda>x _. with_dimension conif t (\<lambda>width _.
     let count = seq_arg 0 1 (fst t); count = (if count < width - x then count else width - x)
     in move_cursor conif (x + count) (- 1) (to_state STATE_DEFAULT t)))"

definition handle_cub :: "'d console_interface \<Rightarrow> 'd terminal \<Rightarrow> 'd step" where
  "handle_cub conif t = with_cursor conif t (\<lambda>x _.
     let count = seq_arg 0 1 (fst t); count = (if count < x then count else x)
     in move_cursor conif (x - count) (- 1) (to_state STATE_DEFAULT t))"

definition handle_cnl :: "'d console_interface \<Rightarrow> 'd terminal \<Rightarrow> 'd step" where
  "handle_cnl conif t = with_cursor conif t (\<lambda>_ y. with_dimension conif t (\<lambda>_ height.
     let count = seq_arg 0 1 (fst t); count = (if count < height - y then count else height - y)
     in move_cursor conif 0 (y + count) (to_state STATE_DEFAULT t)))"

definition handle_cpl :: "'d console_interface \<Rightarrow> 'd terminal \<Rightarrow> 'd step" where
  "handle_cpl conif t = with_cursor conif t (\<lambda>_ y.
     let count = seq_arg 0 1 (fst t); count = (if count < y then count else y)
     in move_cursor conif 0 (y - count) (to_state STATE_DEFAULT t))"

definition handle_cha :: "'d console_interface \<Rightarrow> 'd terminal \<Rightarrow> 'd step" where
  "handle_cha conif t = with_cursor conif t (\<lambda>_ _.
     let x = to_int (seq_arg 0 1 (fst t) - 1)
     in move_cursor conif (if x < 0 then 0 else x) (- 1) (to_state STATE_DEFAULT t))"

definition handle_cup_hvp :: "'d console_interface \<Rightarrow> 'd terminal \<Rightarrow> 'd step" where
  "handle_cup_hvp conif t = with_cursor conif t (\<lambda>_ _.
     let y = to_int (seq_arg 0 1 (fst t) - 1); x = to_int (seq_arg 1 1 (fst t) - 1)
     in move_cursor conif (if x < 0 then 0 else x) (if y < 0 then 0 else y) (to_state STATE_DEFAULT t))"

definition handle_ed :: "'d console_interface \<Rightarrow> 'd terminal \<Rightarrow> 'd step" where
  "handle_ed conif t = with_cursor conif t (\<lambda>x y. with_dimension conif t (\<lambda>width height.
     let option = seq_arg 0 0 (fst t) in
     check_then
       (if option = 0 then
          check_then (console_erase conif x y (width - 1) y t) (\<lambda>t.
            if y < height - 1 then Ok (STATUS_SUCCESS, t) else console_erase conif 0 (y + 1) (width - 1) (height - 1) t)
        else if option = 1 then
          check_then (console_erase conif 0 y x y t) (\<lambda>t.
            if 0 < x then Ok (STATUS_SUCCESS, t) else console_erase conif 0 0 (width - 1) (y - 1) t)
        else if option = 2 \<or> option = 3 then console_erase conif 0 0 (width - 1) (height - 1) t
        else Ok (STATUS_SUCCESS, t))
       (\<lambda>t. Ok (STATUS_SUCCESS, to_state STATE_DEFAULT t))))"

definition handle_el :: "'d console_interface \<Rightarrow> 'd terminal \<Rightarrow> 'd step" where
  "handle_el conif t = with_cursor conif t (\<lambda>x y. with_dimension conif t (\<lambda>width _.
     let option = seq_arg 0 0 (fst t) in
     check_then
       (if option = 0 then console_erase conif x y (width - 1) y t
        else if option = 1 then console_erase conif 0 y x y t
        else if option = 2 then console_erase conif 0 y (width - 1) y t
        else Ok (STATUS_SUCCESS, t))
       (\<lambda>t. Ok (STATUS_SUCCESS, to_state STATE_DEFAULT t))))"

definition handle_su :: "'d console_interface \<Rightarrow> 'd terminal \<Rightarrow> 'd step" where
  "handle_su conif t = with_dimension conif t (\<lambda>width height.
     check_then (console_scroll conif (seq_arg 0 1 (fst t)) 0 0 (width - 1) (height - 1) t)
       (\<lambda>t. Ok (STATUS_SUCCESS, to_state STATE_DEFAULT t)))"

definition handle_sd :: "'d console_interface \<Rightarrow> 'd terminal \<Rightarrow> 'd step" where
  "handle_sd conif t = with_dimension conif t (\<lambda>width height.
     check_then (console_scroll conif (to_int (- seq_arg 0 1 (fst t))) 0 0 (width - 1) (height - 1) t)
       (\<lambda>t. Ok (STATUS_SUCCESS, to_state STATE_DEFAULT t)))"

text \<open>Colors of the select graphic rendition sequence: an entry of the palette, or a color of three bytes.\<close>

definition palette_at :: "int \<Rightarrow> (24 word) outcome" where
  "palette_at i = (if 0 \<le> i \<and> nat i < length palette then Ok (palette ! nat i) else Fault)"

definition rgb_color :: "int \<Rightarrow> int \<Rightarrow> int \<Rightarrow> 24 word" where
  "rgb_color r g b = push_bit 16 (ucast (of_int r :: u8)) OR push_bit 8 (ucast (of_int g :: u8)) OR ucast (of_int b :: u8)"

definition extended_color :: "escape_data \<Rightarrow> 24 word \<Rightarrow> (24 word) outcome" where
  "extended_color e old =
     (let n = escape_seq_arg_count e; a = escape_seq_args e in
      if n < 2 then Ok old
      else if a ! 1 = 5 then (if n < 3 then Ok old else palette_at (a ! 2))
      else if a ! 1 = 2 then (if n < 5 then Ok old else Ok (rgb_color (a ! 2) (a ! 3) (a ! 4)))
      else Ok old)"

definition sgr_flags :: "int \<Rightarrow> char_attributes \<Rightarrow> char_attributes" where
  "sgr_flags option a =
     (if option = 0 then
        \<lparr>fg_color = palette ! 15, text_blink_level = 0, text_reversed = False, text_bold = False, text_dim = False,
         text_italic = False, text_underline = False, text_strike = False, bg_color = palette ! 0, text_overlined = False\<rparr>
      else if option = 1 then a\<lparr>text_bold := True\<rparr>
      else if option = 2 then a\<lparr>text_dim := True\<rparr>
      else if option = 3 then a\<lparr>text_italic := True\<rparr>
      else if option = 4 then a\<lparr>text_underline := True\<rparr>
      else if option = 5 then a\<lparr>text_blink_level := 1\<rparr>
      else if option = 6 then a\<lparr>text_blink_level := 2\<rparr>
      else if option = 7 then a\<lparr>text_reversed := True\<rparr>
      else if option = 8 then a\<lparr>text_blink_level := 3\<rparr>
      else if option = 9 then a\<lparr>text_strike := True\<rparr>
      else if option = 22 then a\<lparr>text_bold := False, text_dim := False\<rparr>
      else if option = 23 then a\<lparr>text_italic := False\<rparr>
      else if option = 24 then a\<lparr>text_underline := False\<rparr>
      else if option = 25 then a\<lparr>text_blink_level := 0\<rparr>
      else if option = 27 then a\<lparr>text_reversed := False\<rparr>
      else if option = 28 then a\<lparr>text_blink_level := 0\<rparr>
      else if option = 29 then a\<lparr>text_strike := False\<rparr>
      else if option = 53 then a\<lparr>text_overlined := True\<rparr>
      else if option = 55 then a\<lparr>text_overlined := False\<rparr>
      else a)"

definition sgr_attributes :: "escape_data \<Rightarrow> char_attributes outcome" where
  "sgr_attributes e =
     (let option = seq_arg 0 0 e; a = attr_state e;
          set_fg = (\<lambda>c. Ok (a\<lparr>fg_color := c\<rparr>)); set_bg = (\<lambda>c. Ok (a\<lparr>bg_color := c\<rparr>)) in
      if 30 \<le> option \<and> option \<le> 37 then obind (palette_at (option - 30)) set_fg
      else if option = 38 then obind (extended_color e (fg_color a)) set_fg
      else if option = 39 then obind (palette_at 7) set_fg
      else if 40 \<le> option \<and> option \<le> 47 then obind (palette_at (option - 40)) set_bg
      else if option = 48 then obind (extended_color e (bg_color a)) set_bg
      else if option = 49 then obind (palette_at 0) set_bg
      else if 90 \<le> option \<and> option \<le> 97 then obind (palette_at (option - 90 + 8)) set_fg
      else if 100 \<le> option \<and> option \<le> 107 then obind (palette_at (option - 100 + 8)) set_bg
      else Ok (sgr_flags option a))"

definition handle_sgr :: "'d terminal \<Rightarrow> 'd step" where
  "handle_sgr t = obind (sgr_attributes (fst t)) (\<lambda>a.
     Ok (STATUS_SUCCESS, to_state STATE_DEFAULT ((fst t)\<lparr>attr_state := a\<rparr>, snd t)))"

definition handle_dsr :: "'d terminal \<Rightarrow> 'd step" where
  "handle_dsr t = Ok (STATUS_SUCCESS, to_state STATE_DEFAULT t)"

definition handle_scosc :: "'d console_interface \<Rightarrow> 'd terminal \<Rightarrow> 'd step" where
  "handle_scosc conif t = with_cursor conif t (\<lambda>x y.
     Ok (STATUS_SUCCESS, to_state STATE_DEFAULT ((fst t)\<lparr>saved_cursor_x := x, saved_cursor_y := y\<rparr>, snd t)))"

definition handle_scorc :: "'d console_interface \<Rightarrow> 'd terminal \<Rightarrow> 'd step" where
  "handle_scorc conif t = check_then (move_cursor conif (saved_cursor_x (fst t)) (saved_cursor_y (fst t)) t)
     (\<lambda>t. Ok (STATUS_SUCCESS, to_state STATE_DEFAULT t))"

definition handle_dectcem :: "int \<Rightarrow> 'd console_interface \<Rightarrow> 'd terminal \<Rightarrow> 'd step" where
  "handle_dectcem visibility conif t =
     (let (st, d) = set_cursor_visibility conif visibility (snd t) in
      check_then (Ok (st, fst t, d)) (\<lambda>t. Ok (STATUS_SUCCESS, to_state STATE_DEFAULT t)))"

definition handle_dectcem_show :: "'d console_interface \<Rightarrow> 'd terminal \<Rightarrow> 'd step" where
  "handle_dectcem_show = handle_dectcem 1"

definition handle_dectcem_hide :: "'d console_interface \<Rightarrow> 'd terminal \<Rightarrow> 'd step" where
  "handle_dectcem_hide = handle_dectcem 0"

text \<open>A digit of an argument; the product and the sum are those of the type \<^verbatim>\<open>int\<close>.\<close>

definition seq_digit :: "int \<Rightarrow> escape_data \<Rightarrow> escape_data outcome" where
  "seq_digit d e =
     (if 8 \<le> escape_seq_arg_count e then Ok e
      else
        let n = (if escape_seq_number_input e then escape_seq_arg_count e else escape_seq_arg_count e + 1) in
        if n < 1 \<or> length (escape_seq_args e) \<le> nat (n - 1) then Fault
        else Ok (e\<lparr>escape_seq_arg_count := n, escape_seq_number_input := True,
                 escape_seq_args := (escape_seq_args e)[nat (n - 1) := to_int (to_int (escape_seq_args e ! nat (n - 1) * 10) + d)]\<rparr>))"

definition seq_question :: "escape_data \<Rightarrow> escape_data outcome" where
  "seq_question e =
     (if 8 \<le> escape_seq_arg_count e then Ok e
      else if escape_seq_arg_count e < 0 \<or> length (escape_seq_args e) \<le> nat (escape_seq_arg_count e) then Fault
      else Ok (e\<lparr>escape_seq_args := (escape_seq_args e)[nat (escape_seq_arg_count e) := - 63],
                 escape_seq_arg_count := escape_seq_arg_count e + 1\<rparr>))"

definition handle_csi :: "'d console_interface \<Rightarrow> int \<Rightarrow> 'd terminal \<Rightarrow> 'd step" where
  "handle_csi conif ch t =
     check_then
       (if ch = 65 then handle_cuu conif t
        else if ch = 66 then handle_cud conif t
        else if ch = 67 then handle_cuf conif t
        else if ch = 68 then handle_cub conif t
        else if ch = 69 then handle_cnl conif t
        else if ch = 70 then handle_cpl conif t
        else if ch = 71 then handle_cha conif t
        else if ch = 102 \<or> ch = 72 then handle_cup_hvp conif t
        else if ch = 104 then handle_dectcem_show conif t
        else if ch = 74 then handle_ed conif t
        else if ch = 75 then handle_el conif t
        else if ch = 108 then handle_dectcem_hide conif t
        else if ch = 83 then handle_su conif t
        else if ch = 84 then handle_sd conif t
        else if ch = 109 then handle_sgr t
        else if ch = 110 then handle_dsr t
        else if ch = 115 then handle_scosc conif t
        else if ch = 117 then handle_scorc conif t
        else if ch = 63 then obind (seq_question (fst t)) (\<lambda>e. Ok (STATUS_SUCCESS, e, snd t))
        else if 48 \<le> ch \<and> ch \<le> 57 then obind (seq_digit (ch - 48) (fst t)) (\<lambda>e. Ok (STATUS_SUCCESS, e, snd t))
        else if ch = 59 \<or> ch = 58 then Ok (STATUS_SUCCESS, (fst t)\<lparr>escape_seq_number_input := False\<rparr>, snd t)
        else Ok (STATUS_SUCCESS, to_state STATE_DEFAULT t))
       (\<lambda>t. Ok (STATUS_SUCCESS, t))"

section \<open>Characters\<close>

text \<open>The next row, scrolling at the last one; \<open>k\<close> is what follows with the row.\<close>

definition next_row :: "'d console_interface \<Rightarrow> int \<Rightarrow> int \<Rightarrow> int \<Rightarrow> 'd terminal \<Rightarrow> (int \<Rightarrow> 'd terminal \<Rightarrow> 'd step) \<Rightarrow> 'd step" where
  "next_row conif width height y t k =
     (if y + 1 < height then k (y + 1) t
      else check_then (console_scroll conif 1 0 0 (width - 1) (height - 1) t) (k (height - 1)))"

definition put_plain :: "'d console_interface \<Rightarrow> int \<Rightarrow> int \<Rightarrow> int \<Rightarrow> int \<Rightarrow> int \<Rightarrow> 'd terminal \<Rightarrow> 'd step" where
  "put_plain conif ch width height x y t =
     obind (wcwidth ch) (\<lambda>cwidth.
       if ch < 0x20 then move_cursor conif x y t
       else
         let rest = (\<lambda>x y t. check_then (console_putchar conif ch t) (\<lambda>t.
               if x + cwidth < width then move_cursor conif (x + cwidth) y t
               else next_row conif width height y t (\<lambda>y. move_cursor conif 0 y)))
         in if 1 < cwidth \<and> width < x + cwidth
            then next_row conif width height y t (\<lambda>y t. check_then (move_cursor conif 0 y t) (rest 0 y))
            else rest x y t)"

definition put_char :: "'d console_interface \<Rightarrow> int \<Rightarrow> 'd terminal \<Rightarrow> 'd step" where
  "put_char conif ch t =
     (case escape_seq_state (fst t) of
        STATE_ESC \<Rightarrow> check_then (handle_esc (to_char ch) t) (\<lambda>t. Ok (STATUS_SUCCESS, t))
      | STATE_CSI \<Rightarrow> check_then (handle_csi conif (to_char ch) t) (\<lambda>t. Ok (STATUS_SUCCESS, t))
      | STATE_DEFAULT \<Rightarrow>
          with_cursor conif t (\<lambda>x y. with_dimension conif t (\<lambda>width height.
            if ch = 7 then move_cursor conif x y t
            else if ch = 8 then console_backspace conif t x (\<lambda>x. move_cursor conif x y t)
            else if ch = 9 then
              let tab = (cdiv x 8 + 1) * 8 in
              check_then (console_erase conif x y tab y t) (\<lambda>t.
                if tab < width then move_cursor conif tab y t
                else next_row conif width height y t (\<lambda>y. move_cursor conif 0 y))
            else if ch = 10 then next_row conif width height y t (\<lambda>y. move_cursor conif 0 y)
            else if ch = 11 then next_row conif width height y t (\<lambda>y. move_cursor conif x y)
            else if ch = 12 then move_cursor conif x y t
            else if ch = 13 then move_cursor conif 0 y t
            else if ch = 27 then move_cursor conif x y (to_state STATE_ESC t)
            else put_plain conif ch width height x y t))
      | _ \<Rightarrow> Ok (STATUS_SUCCESS, to_state STATE_DEFAULT t))"

fun put_chars :: "'d console_interface \<Rightarrow> int list \<Rightarrow> 'd terminal \<Rightarrow> 'd step" where
  "put_chars conif [] t = Ok (STATUS_SUCCESS, t)"
| "put_chars conif (ch # chs) t = check_then (put_char conif ch t) (put_chars conif chs)"

definition call_flush :: "'d console_interface \<Rightarrow> 'd terminal \<Rightarrow> 'd step" where
  "call_flush conif t = obind (flush conif (snd t)) (\<lambda>(st, d). finish (st, fst t, d))"

text \<open>On success \<^verbatim>\<open>wwrite\<close> also reports the number of characters, which is the length of the buffer.\<close>

definition wwrite :: "'d console_interface \<Rightarrow> int list \<Rightarrow> 'd terminal \<Rightarrow> 'd step" where
  "wwrite conif buf t = check_then (put_chars conif buf t) (call_flush conif)"

section \<open>UTF-8\<close>

text \<open>\<open>buf\<close> is the buffer of the caller and \<open>p\<close> the position the pointer has reached in it; \<open>len\<close> bytes are left.\<close>

definition get_seq_char :: "ansiterm_data \<Rightarrow> u8 list \<Rightarrow> int \<Rightarrow> int \<Rightarrow> int \<Rightarrow> int outcome" where
  "get_seq_char a buf p len idx =
     (if idx < int (utf8_fragment_len a) then
        (if 0 \<le> idx \<and> nat idx < length (utf8_fragment_buf a) then Ok (sint (utf8_fragment_buf a ! nat idx)) else Fault)
      else if idx < int (utf8_fragment_len a) + len then
        (let i = p + (idx - int (utf8_fragment_len a)) in
         if 0 \<le> i \<and> nat i < length buf then Ok (sint (buf ! nat i)) else Fault)
      else Ok (- 1))"

definition lead_byte :: "int \<Rightarrow> int \<times> int" where
  "lead_byte seq_char =
     (let b = seq_char mod 256 in
      if b < 0x80 then (1, seq_char mod 0x80)
      else if b < 0xE0 then (2, seq_char mod 0x20 * 0x40)
      else if b < 0xF0 then (3, seq_char mod 0x10 * 0x1000)
      else if b < 0xF8 then (4, seq_char mod 0x08 * 0x40000)
      else (- 1, 0))"

text \<open>The continuation bytes from number \<open>i\<close> on: the length of the character and the code point.\<close>

function continuation :: "ansiterm_data \<Rightarrow> u8 list \<Rightarrow> int \<Rightarrow> int \<Rightarrow> int \<Rightarrow> int \<Rightarrow> int \<Rightarrow> (int \<times> int) outcome" where
  "continuation a buf p len char_len i wch =
     (if i < char_len
      then obind (get_seq_char a buf p len i) (\<lambda>c.
        if c mod 256 div 64 \<noteq> 2 then Ok (i, 0xFFFD)
        else continuation a buf p len char_len (i + 1) (or wch (c mod 64 * 2 ^ nat ((char_len - i - 1) * 6))))
      else Ok (char_len, wch))"
  by pat_completeness auto
termination by (relation "measure (\<lambda>(a, buf, p, len, char_len, i, wch). nat (char_len - i))") auto

declare continuation.simps [simp del]

definition keep_fragment :: "u8 list \<Rightarrow> int \<Rightarrow> int \<Rightarrow> ansiterm_data \<Rightarrow> ansiterm_data outcome" where
  "keep_fragment buf p len a =
     (let n = utf8_fragment_len a; k = nat len in
      if length (utf8_fragment_buf a) < n + k \<or> p < 0 \<or> length buf < nat p + k then Fault
      else Ok (a\<lparr>utf8_fragment_buf := take n (utf8_fragment_buf a) @ take k (drop (nat p) buf) @ drop (n + k) (utf8_fragment_buf a),
                 utf8_fragment_len := n + k\<rparr>))"

text \<open>One character from the buffer: its length and code point, or \<open>None\<close> when the rest is kept as a fragment.\<close>

definition decode_char :: "ansiterm_data \<Rightarrow> u8 list \<Rightarrow> int \<Rightarrow> int \<Rightarrow> (int \<times> int) option outcome" where
  "decode_char a buf p len =
     obind (get_seq_char a buf p len 0) (\<lambda>c.
       let (char_len, wch) = lead_byte c in
       if int (utf8_fragment_len a) + len < to_unsigned char_len then Ok None
       else obind (continuation a buf p len char_len 1 wch) (\<lambda>(char_len, wch).
         Ok (Some (if char_len < 1 then (1, 0xFFFD) else (char_len, wch)))))"

lemma decode_char_pos:
  assumes "decode_char a buf p len = Ok (Some (n, w))"
  shows "1 \<le> n"
proof -
  obtain c where c: "get_seq_char a buf p len 0 = Ok c" using assms by (auto simp: decode_char_def obind_Ok_iff)
  obtain k v where "lead_byte c = (k, v)" by (cases "lead_byte c")
  then show ?thesis using assms c by (auto simp: decode_char_def obind_Ok_iff split: if_splits)
qed

function write_loop :: "'d console_interface \<Rightarrow> u8 list \<Rightarrow> int \<Rightarrow> int \<Rightarrow> int \<Rightarrow> ansiterm_data \<Rightarrow> 'd \<Rightarrow> (status \<times> int \<times> ansiterm_data \<times> 'd) outcome" where
  "write_loop conif buf p len written a d =
     (if 0 < len then
        obind (decode_char a buf p len) (\<lambda>r. case r of
          None \<Rightarrow> obind (keep_fragment buf p len a) (\<lambda>a. Ok (STATUS_SUCCESS, written + len, a, d))
        | Some (char_len, wch) \<Rightarrow>
            obind (put_char conif wch (escape a, d)) (\<lambda>(st, e, d).
              if \<not> CHECK_SUCCESS st then Ok (st, written, a\<lparr>escape := e\<rparr>, d)
              else
                let k = char_len - int (utf8_fragment_len a)
                in write_loop conif buf (p + k) (len - k) (written + k) (a\<lparr>escape := e, utf8_fragment_len := 0\<rparr>) d))
      else Ok (STATUS_SUCCESS, written, a, d))"
  by pat_completeness auto
termination
  by (relation "measure (\<lambda>(conif, buf, p, len, written, a, d). nat (len + int (utf8_fragment_len a)))")
    (auto dest: decode_char_pos)

declare write_loop.simps [simp del]

text \<open>\<open>result\<close> is the number of bytes, \<open>None\<close> where the source does not assign it.\<close>

definition ansiterm_write :: "'d console_interface \<Rightarrow> u8 list \<Rightarrow> ansiterm_data \<Rightarrow> 'd \<Rightarrow> (status \<times> int option \<times> ansiterm_data \<times> 'd) outcome" where
  "ansiterm_write conif buf a d =
     obind (write_loop conif buf 0 (int (length buf)) 0 a d) (\<lambda>(st, written, a, d).
       if \<not> CHECK_SUCCESS st then Ok (st, None, a, d)
       else obind (call_flush conif (escape a, d)) (\<lambda>(st, e, d).
         if \<not> CHECK_SUCCESS st then Ok (st, None, a\<lparr>escape := e\<rparr>, d)
         else Ok (STATUS_SUCCESS, Some written, a\<lparr>escape := e\<rparr>, d)))"

text \<open>\<^verbatim>\<open>probe\<close> initialises fresh memory, whose former contents are \<open>a\<close>; it leaves the state of the escape sequences as it is.\<close>

definition ansiterm_probe_data :: "'d console_interface \<Rightarrow> ansiterm_data \<Rightarrow> 'd \<Rightarrow> ansiterm_data \<times> 'd" where
  "ansiterm_probe_data conif a d =
     (a\<lparr>escape := (escape a)\<lparr>escape_seq_arg_count := 0, saved_cursor_x := 0, saved_cursor_y := 0,
          attr_state := blank_attributes\<lparr>fg_color := 0xFFFFFF\<rparr>\<rparr>, utf8_fragment_len := 0\<rparr>,
      snd (set_cursor_pos conif 0 0 d))"

end
