(* ===== verification/AnsiText.thy ===== *)
theory AnsiText
  imports Ansiterm
begin

text \<open>
  Text on the terminal of \<^verbatim>\<open>boot/device/char/ansiterm.c\<close>. A reference screen - cells, cursor, one step per
  character - is defined first; inside the locale \<open>console\<close>, whose laws every text console satisfies, each operation of
  the terminal on text is shown to have the effect of the reference, and the interpretation on the VGA console carries the
  result to the code.
\<close>

section \<open>Text on a screen\<close>

text \<open>
  The reference: the cells of a screen of \<open>w\<close> columns and \<open>h\<close> rows, one row after the other, and the position of the
  cursor; the effect of one character of text.
\<close>

type_synonym screen = "char_cell list \<times> int \<times> int"

definition text_scroll :: "int \<Rightarrow> char_cell \<Rightarrow> char_cell list \<Rightarrow> char_cell list" where
  "text_scroll w blank cs = drop (nat w) cs @ replicate (nat w) blank"

definition text_next_row :: "int \<Rightarrow> int \<Rightarrow> char_cell \<Rightarrow> int \<Rightarrow> screen \<Rightarrow> screen" where
  "text_next_row w h blank x' s = (case s of (cs, x, y) \<Rightarrow>
     if y + 1 < h then (cs, x', y + 1) else (text_scroll w blank cs, x', h - 1))"

definition text_put :: "int \<Rightarrow> int \<Rightarrow> escape_data \<Rightarrow> int \<Rightarrow> screen \<Rightarrow> screen" where
  "text_put w h e ch s =
     (let k = width_of ch; cell = (\<lambda>c. \<lparr>attr = attr_state e, codepoint = c\<rparr>);
          (cs, x, y) = (if k = 2 \<and> w < fst (snd s) + 2 then text_next_row w h (blank_cell e) 0 s else s);
          i = nat (y * w + x); cs' = (if k = 2 then cs[i := cell ch, Suc i := cell (- 1)] else cs[i := cell ch])
      in if x + k < w then (cs', x + k, y) else text_next_row w h (blank_cell e) 0 (cs', x, y))"

definition text_step :: "int \<Rightarrow> int \<Rightarrow> escape_data \<Rightarrow> screen \<Rightarrow> int \<Rightarrow> screen" where
  "text_step w h e s ch =
     (if ch = 7 \<or> ch = 12 then s
      else if ch = 10 then text_next_row w h (blank_cell e) 0 s
      else if ch = 11 then text_next_row w h (blank_cell e) (fst (snd s)) s
      else if ch = 13 then (fst s, 0, snd (snd s))
      else text_put w h e ch s)"

definition text_char :: "int \<Rightarrow> bool" where
  "text_char ch \<longleftrightarrow> ch \<in> {7, 10, 11, 12, 13} \<or> width_of ch \<in> {1, 2}"

text \<open>Cells that may be left stale by a character: none for narrow ones.\<close>

definition stale_after :: "int \<Rightarrow> nat set" where
  "stale_after ch = (if width_of ch = 2 then UNIV else {})"

text \<open>A screen of two rows of eight columns and a terminal in its default state.\<close>

definition vga_example :: vga_data where
  "vga_example = \<lparr>char_buffer = replicate 16 \<lparr>attr = blank_attributes, codepoint = 0\<rparr>, diff_buffer = [0, 0],
     is_switching_mode = False, video_mode = 3, vbe_memory_model = 0, vbe_width = 0, vbe_height = 0, vga_width = 8, vga_height = 2,
     mode_set_by_vbe = False, cursor_col = 0, cursor_row = 0, cursor_visible = 1, cursor_shape_start = 14, cursor_shape_end = 15,
     crtc = (\<lambda>_. 0), text_memory = replicate 16 0\<rparr>"

definition ansiterm_example :: ansiterm_data where
  "ansiterm_example = \<lparr>escape = \<lparr>escape_seq_args = replicate 8 0, escape_seq_arg_count = 0, escape_seq_state = STATE_DEFAULT,
     escape_seq_number_input = False, saved_cursor_x = 0, saved_cursor_y = 0, attr_state = blank_attributes\<lparr>fg_color := 0xFFFFFF\<rparr>\<rparr>,
     utf8_fragment_len = 0, utf8_fragment_buf = replicate 6 0\<rparr>"

section \<open>Lemmas\<close>

lemma CHECK_0 [simp]: "CHECK_SUCCESS 0"
  by (simp add: CHECK_SUCCESS_def)

lemma check_then_simps [simp]: "check_then (Ok (0, s)) f = f s" "check_then Fault f = Fault" "check_then Hang f = Hang"
  by (simp_all add: check_then_def)

lemma finish_0 [simp]: "finish (0, t) = Ok (0, t)"
  by (simp add: finish_def)

lemma width_of_text: "width_of ch \<in> {1, 2} \<Longrightarrow> 32 \<le> ch"
  by (auto simp: width_of_def split: if_splits)

context console begin

abbreviation "cells \<equiv> buffer_cells conif"

definition kept :: "'d \<Rightarrow> nat set \<Rightarrow> 'd \<Rightarrow> bool" where
  "kept d R d' \<longleftrightarrow> ok d' \<and> width d' = width d \<and> height d' = height d \<and>
     get_cursor_pos conif d' = get_cursor_pos conif d \<and> stale d' \<subseteq> stale d \<union> R"

lemma kept_refl: "ok d \<Longrightarrow> kept d R d"
  by (auto simp: kept_def)

lemma kept_trans: "kept d R d1 \<Longrightarrow> kept d1 S d2 \<Longrightarrow> kept d (R \<union> S) d2"
  by (auto simp: kept_def)

lemma kept_mono: "kept d R d1 \<Longrightarrow> R \<subseteq> S \<Longrightarrow> kept d S d1"
  by (auto simp: kept_def)

lemma keptD: "kept d R d' \<Longrightarrow> ok d'" "kept d R d' \<Longrightarrow> width d' = width d" "kept d R d' \<Longrightarrow> height d' = height d"
  "kept d R d' \<Longrightarrow> get_cursor_pos conif d' = get_cursor_pos conif d"
  by (auto simp: kept_def)

lemma put_cell_ok:
  assumes "ok d" "0 \<le> i" "i < width d * height d" "shows_char (codepoint c)"
  shows "\<exists>d'. put_cell conif i c (e, d) = Ok (e, d') \<and> kept d {nat i} d' \<and> cells d' = (cells d)[nat i := c]"
proof -
  have l: "length (cells d) = nat (width d * height d)" using buffer [OF assms(1)] by simp
  have s: "\<forall>x \<in> set ((cells d)[nat i := c]). shows_char (codepoint x)"
    using assms(1,4) cells_shown set_update_subset_insert [of "cells d" "nat i" c] by blast
  have "{j. j < length ((cells d)[nat i := c]) \<and> (cells d)[nat i := c] ! j \<noteq> cells d ! j} \<subseteq> {nat i}"
  proof
    fix x assume "x \<in> {j. j < length ((cells d)[nat i := c]) \<and> (cells d)[nat i := c] ! j \<noteq> cells d ! j}"
    then show "x \<in> {nat i}" by (cases "x = nat i") simp_all
  qed
  then show ?thesis using store [OF assms(1) _ s] assms(2,3) l by (auto simp: put_cell_def kept_def Let_def)
qed

lemma get_cell_ok: "ok d \<Longrightarrow> 0 \<le> i \<Longrightarrow> i < width d * height d \<Longrightarrow> get_cell conif i (e, d) = Ok (cells d ! nat i)"
  using buffer [of d] by (auto simp: get_cell_def Let_def)

text \<open>A loop that sets cells one after the other.\<close>

lemma cell_loop:
  assumes step: "\<And>i d. ok d \<Longrightarrow> a \<le> i \<Longrightarrow> i < b \<Longrightarrow> width d = w \<Longrightarrow> height d = h \<Longrightarrow>
      \<exists>d'. f i (e, d) = Ok (e, d') \<and> kept d {nat i} d' \<and> cells d' = (cells d)[nat i := g i (cells d)]"
    and "ok d" "width d = w" "height d = h" "0 \<le> a"
  shows "a + int k \<le> b \<Longrightarrow> \<exists>d'. ofold f [a..a + int k - 1] (e, d) = Ok (e, d') \<and> kept d {nat a..<nat a + k} d' \<and>
    cells d' = fold (\<lambda>i cs. cs[nat i := g i cs]) [a..a + int k - 1] (cells d)"
proof (induction k)
  case 0
  then show ?case using assms(2) kept_refl by simp
next
  case (Suc k)
  have u: "[a..a + int (Suc k) - 1] = [a..a + int k - 1] @ [a + int k]" using upto_rec2 [of a "a + int k"] by simp
  obtain d1 where d1: "ofold f [a..a + int k - 1] (e, d) = Ok (e, d1)" "kept d {nat a..<nat a + k} d1"
      "cells d1 = fold (\<lambda>i cs. cs[nat i := g i cs]) [a..a + int k - 1] (cells d)"
    using Suc by auto
  obtain d2 where d2: "f (a + int k) (e, d1) = Ok (e, d2)" "kept d1 {nat (a + int k)} d2"
      "cells d2 = (cells d1)[nat (a + int k) := g (a + int k) (cells d1)]"
    using step [of d1 "a + int k"] keptD [OF d1(2)] assms(3,4) Suc.prems by auto
  have "kept d {nat a..<nat a + Suc k} d2"
    by (rule kept_mono [OF kept_trans [OF d1(2) d2(2)]]) (use assms(5) in auto)
  then show ?case using d1 d2 unfolding u by (auto simp: ofold_append)
qed

end

text \<open>What the loops make of the cells.\<close>

lemma fold_fill:
  assumes "0 \<le> a"
  shows "length (fold (\<lambda>i cs. cs[nat i := c]) [a..a + int k - 1] cs) = length cs \<and>
    (\<forall>j < length cs. fold (\<lambda>i cs. cs[nat i := c]) [a..a + int k - 1] cs ! j = (if nat a \<le> j \<and> j < nat a + k then c else cs ! j))"
proof (induction k)
  case (Suc k)
  have u: "[a..a + int (Suc k) - 1] = [a..a + int k - 1] @ [a + int k]" using upto_rec2 [of a "a + int k"] by simp
  have "nat (a + int k) = nat a + k" using assms by simp
  then show ?case unfolding u using Suc by (auto simp: nth_list_update less_Suc_eq)
qed auto

lemma fold_shift:
  assumes "0 \<le> w" "k + nat w \<le> length cs"
  shows "length (fold (\<lambda>i cs. cs[nat i := cs ! nat (i + w)]) [0..int k - 1] cs) = length cs \<and>
    (\<forall>j < length cs. fold (\<lambda>i cs. cs[nat i := cs ! nat (i + w)]) [0..int k - 1] cs ! j = (if j < k then cs ! (j + nat w) else cs ! j))"
  using assms(2)
proof (induction k)
  case (Suc k)
  have u: "[0..int (Suc k) - 1] = [0..int k - 1] @ [int k]" using upto_rec2 [of 0 "int k"] by simp
  have "nat (int k + w) = k + nat w" using assms(1) by simp
  then show ?case unfolding u using Suc by (auto simp: nth_list_update less_Suc_eq)
qed simp

lemma rect_all: "0 < w \<Longrightarrow> 0 < h \<Longrightarrow> {..<nat (w * h)} \<subseteq> rect w 0 0 (w - 1) (h - 1)"
proof
  fix i assume w: "0 < w" "0 < h" and "i \<in> {..<nat (w * h)}"
  then have i: "int i < w * h" by simp
  let ?y = "int i div w" and ?x = "int i mod w"
  have "?y * w + ?x = int i" by simp
  moreover have "?y < h" proof (rule ccontr)
    assume "\<not> ?y < h"
    then have "h * w \<le> ?y * w" using w by (intro mult_right_mono) auto
    also have "\<dots> \<le> int i" using w by (metis add_increasing2 div_mult_mod_eq order_refl pos_mod_sign)
    finally show False using i by (simp add: mult.commute)
  qed
  moreover have "0 \<le> ?x" "?x < w" "0 \<le> ?y" using w by (simp_all add: pos_imp_zdiv_nonneg_iff)
  ultimately have "\<exists>x y. i = nat (y * w + x) \<and> 0 \<le> x \<and> x \<le> w - 1 \<and> 0 \<le> y \<and> y \<le> h - 1"
    by (intro exI [of _ ?x] exI [of _ ?y]) auto
  then show "i \<in> rect w 0 0 (w - 1) (h - 1)" unfolding rect_def by blast
qed

context console begin

lemma dim_simps: "ok d \<Longrightarrow> with_dimension conif (e, d) f = f (width d) (height d)"
  "ok d \<Longrightarrow> with_buffer conif (e, d) g = g"
  using dimension [of d] buffer [of d] by (auto simp: with_dimension_def with_buffer_def)

lemma call_invalidate_ok:
  assumes "ok d" "0 \<le> x0" "0 \<le> y0" "x1 < width d" "y1 < height d"
  shows "\<exists>d'. call_invalidate conif x0 y0 x1 y1 (e, d) = Ok (0, e, d') \<and> kept d {} d' \<and> cells d' = cells d \<and>
    stale d' \<subseteq> stale d - rect (width d) x0 y0 x1 y1"
  using invalidate [OF assms] by (fastforce simp: call_invalidate_def kept_def)

text \<open>Erasing part of one row.\<close>

lemma erase_row:
  assumes ok: "ok d" and x: "0 \<le> x0" "x0 \<le> x1 + 1" "x1 < width d" and y: "0 \<le> y" "y < height d"
  shows "\<exists>d'. console_erase conif x0 y x1 y (e, d) = Ok (0, e, d') \<and> kept d {} d' \<and> length (cells d') = length (cells d) \<and>
    (\<forall>j < length (cells d). cells d' ! j =
       (if y * width d + x0 \<le> int j \<and> int j \<le> y * width d + x1 then blank_cell e else cells d ! j))"
proof -
  let ?w = "width d" and ?a = "y * width d + x0" and ?k = "nat (x1 - x0 + 1)"
  have a0: "0 \<le> ?a" using x y dimension [OF ok] by simp
  have "y * ?w + x1 < ?w * height d" if "x0 \<le> x1" using index_in_grid(2) [of x1 ?w y "height d"] that x y by simp
  then have lim: "?a + int ?k \<le> ?w * height d \<or> ?k = 0" using x by auto
  have b: "?a + int ?k \<le> max ?a (?w * height d)" using lim x by auto
  have "\<exists>d'. ofold (\<lambda>i t. put_cell conif i (blank_cell (fst t)) t) [?a..?a + int ?k - 1] (e, d) = Ok (e, d') \<and>
      kept d {nat ?a..<nat ?a + ?k} d' \<and> cells d' = fold (\<lambda>i cs. cs[nat i := blank_cell e]) [?a..?a + int ?k - 1] (cells d)"
  proof (rule cell_loop [where b = "max ?a (?w * height d)" and w = ?w and h = "height d"])
    fix i d1 assume "ok d1" "?a \<le> i" "i < max ?a (?w * height d)" "width d1 = ?w" "height d1 = height d"
    then show "\<exists>d'. put_cell conif i (blank_cell (fst (e, d1))) (e, d1) = Ok (e, d') \<and> kept d1 {nat i} d' \<and>
        cells d' = (cells d1)[nat i := blank_cell e]"
      using put_cell_ok [of d1 i "blank_cell e" e] a0 blanks_shown by (auto simp: blank_cell_def)
  qed (use ok a0 b in auto)
  then obtain d1 where d1: "ofold (\<lambda>i t. put_cell conif i (blank_cell (fst t)) t) [?a..y * ?w + x1] (e, d) = Ok (e, d1)"
      "kept d {nat ?a..<nat ?a + ?k} d1" "cells d1 = fold (\<lambda>i cs. cs[nat i := blank_cell e]) [?a..?a + int ?k - 1] (cells d)"
    using x by auto
  obtain d2 where d2: "call_invalidate conif x0 y x1 y (e, d1) = Ok (0, e, d2)" "kept d1 {} d2" "cells d2 = cells d1"
      "stale d2 \<subseteq> stale d1 - rect ?w x0 y x1 y"
    using call_invalidate_ok [of d1 x0 y x1 y e] keptD [OF d1(2)] x y by auto
  have "{nat ?a..<nat ?a + ?k} \<subseteq> rect ?w x0 y x1 y"
  proof
    fix j assume j: "j \<in> {nat ?a..<nat ?a + ?k}"
    then show "j \<in> rect ?w x0 y x1 y" unfolding rect_def using a0 by (intro CollectI exI [of _ "int j - y * ?w"] exI [of _ y]) auto
  qed
  then have "kept d {} d2" using d1(2) d2(2,4) by (auto simp: kept_def)
  moreover have "console_erase conif x0 y x1 y (e, d) = Ok (0, e, d2)"
    using d1(1) d2(1) ofold_row [of "\<lambda>i t. put_cell conif i (blank_cell (fst t)) t" "y * ?w" x0 x1 "(e, d)"]
    by (simp add: console_erase_def dim_simps [OF ok])
  moreover have "length (cells d2) = length (cells d) \<and> (\<forall>j < length (cells d). cells d2 ! j =
       (if ?a \<le> int j \<and> int j \<le> y * ?w + x1 then blank_cell e else cells d ! j))"
    using fold_fill [OF a0, of "blank_cell e" ?k "cells d"] a0 by (auto simp: d1(3) d2(3) nat_le_iff)
  ultimately show ?thesis by blast
qed

end

context console begin

lemma scroll_up:
  assumes ok: "ok d"
  shows "\<exists>d'. console_scroll conif 1 0 0 (width d - 1) (height d - 1) (e, d) = Ok (0, e, d') \<and> kept d {} d' \<and>
    cells d' = text_scroll (width d) (blank_cell e) (cells d)"
proof -
  let ?w = "width d" and ?h = "height d" and ?f = "\<lambda>i. copy_cell conif i (i + width d)"
  have dim: "0 < ?w" "0 < ?h" and len: "length (cells d) = nat (?w * ?h)" using dimension [OF ok] buffer [OF ok] by auto
  obtain k W :: nat where k: "int k = (?h - 1) * ?w" "int W = ?w" using dim by (metis int_nat_eq less_imp_le mult_nonneg_nonneg zle_diff1_eq zero_less_imp_eq_int)
  then have kw: "int k + ?w = ?w * ?h" "int k + int W = ?w * ?h" by (simp_all add: algebra_simps)
  then have len_k: "length (cells d) = k + W" "nat ?w = W" using len k(2) by linarith+
  have "\<exists>d'. ofold ?f [0..0 + int k - 1] (e, d) = Ok (e, d') \<and> kept d {nat 0..<nat 0 + k} d' \<and>
      cells d' = fold (\<lambda>i cs. cs[nat i := cs ! nat (i + ?w)]) [0..0 + int k - 1] (cells d)"
  proof (rule cell_loop [where b = "int k" and w = ?w and h = ?h])
    fix i d1 assume i: "ok d1" "0 \<le> i" "i < int k" "width d1 = ?w" "height d1 = ?h"
    then have src: "i + ?w < width d1 * height d1" "i < width d1 * height d1" "0 \<le> i + ?w" using kw dim by auto
    have "nat (i + ?w) < length (cells d1)" using src buffer [OF i(1)] by auto
    then have "shows_char (codepoint (cells d1 ! nat (i + ?w)))" using cells_shown [OF i(1)] by simp
    then show "\<exists>d'. copy_cell conif i (i + ?w) (e, d1) = Ok (e, d') \<and> kept d1 {nat i} d' \<and>
        cells d' = (cells d1)[nat i := cells d1 ! nat (i + ?w)]"
      using put_cell_ok [OF i(1,2) src(2), of "cells d1 ! nat (i + ?w)" e] get_cell_ok [OF i(1) src(3,1), of e]
      by (simp add: copy_cell_def)
  qed (use ok in auto)
  then obtain d1 where d1: "ofold ?f [0..(?h - 1) * ?w - 1] (e, d) = Ok (e, d1)" "kept d {0..<k} d1"
      "cells d1 = fold (\<lambda>i cs. cs[nat i := cs ! nat (i + ?w)]) [0..int k - 1] (cells d)"
    unfolding k(1) by auto
  have c1: "length (cells d1) = length (cells d)" "\<And>j. j < length (cells d) \<Longrightarrow> cells d1 ! j = (if j < k then cells d ! (j + nat ?w) else cells d ! j)"
    using fold_shift [of ?w k "cells d"] len_k dim by (auto simp: d1(3))
  obtain d2 where d2: "console_erase conif 0 (?h - 1) (?w - 1) (?h - 1) (e, d1) = Ok (0, e, d2)" "kept d1 {} d2"
      "length (cells d2) = length (cells d1)"
      "\<And>j. j < length (cells d1) \<Longrightarrow> cells d2 ! j = (if (?h - 1) * ?w \<le> int j \<and> int j \<le> (?h - 1) * ?w + (?w - 1) then blank_cell e else cells d1 ! j)"
    using erase_row [of d1 0 "?w - 1" "?h - 1" e] keptD [OF d1(2)] dim by auto
  obtain d3 where d3: "call_invalidate conif 0 0 (?w - 1) (?h - 1) (e, d2) = Ok (0, e, d3)" "kept d2 {} d3" "cells d3 = cells d2"
      "stale d3 \<subseteq> stale d2 - rect ?w 0 0 (?w - 1) (?h - 1)"
    using call_invalidate_ok [of d2 0 0 "?w - 1" "?h - 1" e] keptD [OF d2(2)] keptD [OF d1(2)] by auto
  have g: "(y + 1) * ?w + x = y * ?w + x + ?w" for x y by (simp add: algebra_simps)
  have "console_scroll conif 1 0 0 (?w - 1) (?h - 1) (e, d) = Ok (0, e, d3)"
    using d1(1) d2(1) d3(1) ofold_grid [of ?w "?h - 1" ?f "(e, d)"] dim by (simp add: console_scroll_def dim_simps [OF ok] g)
  moreover have "{0..<k} \<subseteq> rect ?w 0 0 (?w - 1) (?h - 1)"
    by (rule subset_trans [OF _ rect_all [OF dim]]) (use len len_k in auto)
  then have "kept d {} d3" using d1(2) d2(2) d3(2,4) by (auto simp: kept_def)
  moreover have "cells d3 = text_scroll ?w (blank_cell e) (cells d)"
  proof (rule nth_equalityI)
    show l: "length (cells d3) = length (text_scroll ?w (blank_cell e) (cells d))"
      using c1(1) d2(3) d3(3) len_k by (simp add: text_scroll_def)
    fix j assume "j < length (cells d3)"
    then have j: "j < length (cells d)" "j < k + W" using c1(1) d2(3) d3(3) len_k by auto
    show "cells d3 ! j = text_scroll ?w (blank_cell e) (cells d) ! j"
      using d2(4) [of j] c1 j d3(3) k len_k
      by (cases "j < k") (auto simp: text_scroll_def nth_append add.commute)
  qed
  ultimately show ?thesis by blast
qed

text \<open>The state of the terminal in text mode: the cursor is on the screen.\<close>

definition view :: "'d \<Rightarrow> screen" where
  "view d = (cells d, snd (get_cursor_pos conif d))"

definition on_screen :: "'d \<Rightarrow> int \<Rightarrow> int \<Rightarrow> bool" where
  "on_screen d x y \<longleftrightarrow> 0 \<le> x \<and> x < width d \<and> 0 \<le> y \<and> y < height d"

definition text_ok :: "'d \<Rightarrow> bool" where
  "text_ok d \<longleftrightarrow> ok d \<and> (case snd (get_cursor_pos conif d) of (x, y) \<Rightarrow> on_screen d x y)"

text \<open>\<open>becomes d R s d'\<close>: the console shows the screen \<open>s\<close>, up to the cells in \<open>R\<close>.\<close>

definition becomes :: "'d \<Rightarrow> nat set \<Rightarrow> screen \<Rightarrow> 'd \<Rightarrow> bool" where
  "becomes d R s d' \<longleftrightarrow> text_ok d' \<and> width d' = width d \<and> height d' = height d \<and> stale d' \<subseteq> stale d \<union> R \<and> view d' = s"

lemma cursor_at: "ok d \<Longrightarrow> snd (get_cursor_pos conif d) = (x, y) \<Longrightarrow> with_cursor conif (e, d) f = f x y"
  using cursor [of d] by (cases "get_cursor_pos conif d") (auto simp: with_cursor_def)

lemma move_ok:
  assumes "kept d R d1" "on_screen d x y"
  shows "\<exists>d'. move_cursor conif x y (e, d1) = Ok (0, e, d') \<and> becomes d R (cells d1, x, y) d'"
  using set_cursor [of d1 x y] assms
  by (fastforce simp: move_cursor_def kept_def on_screen_def becomes_def text_ok_def view_def)

lemma next_row_ok:
  assumes d1: "kept d R d1" and y: "0 \<le> y" "y < height d" and x: "0 \<le> x'" "x' < width d"
  shows "\<exists>d'. next_row conif (width d) (height d) y (e, d1) (\<lambda>y. move_cursor conif x' y) = Ok (0, e, d') \<and>
    becomes d R (text_next_row (width d) (height d) (blank_cell e) x' (cells d1, x, y)) d'"
proof (cases "y + 1 < height d")
  case True
  then show ?thesis using move_ok [OF d1, of x' "y + 1" e] x y by (auto simp: next_row_def text_next_row_def on_screen_def)
next
  case False
  obtain d2 where d2: "console_scroll conif 1 0 0 (width d - 1) (height d - 1) (e, d1) = Ok (0, e, d2)" "kept d1 {} d2"
      "cells d2 = text_scroll (width d) (blank_cell e) (cells d1)"
    using scroll_up [of d1 e] keptD [OF d1] by auto
  have "kept d R d2" using kept_trans [OF d1 d2(2)] by simp
  then show ?thesis
    using move_ok [of d R d2 x' "height d - 1" e] False x y d2 by (auto simp: next_row_def text_next_row_def on_screen_def)
qed

lemma putchar_ok:
  assumes ok: "ok d" and c: "snd (get_cursor_pos conif d) = (x, y)" "on_screen d x y" and ch: "shows_char ch"
    and wide: "width_of ch = 2 \<Longrightarrow> x + 1 < width d"
  shows "\<exists>d'. console_putchar conif ch (e, d) = Ok (0, e, d') \<and> kept d (if width_of ch = 2 then {nat (y * width d + x + 1)} else {}) d' \<and>
    cells d' = (if width_of ch = 2
      then (cells d)[nat (y * width d + x) := \<lparr>attr = attr_state e, codepoint = ch\<rparr>, Suc (nat (y * width d + x)) := \<lparr>attr = attr_state e, codepoint = - 1\<rparr>]
      else (cells d)[nat (y * width d + x) := \<lparr>attr = attr_state e, codepoint = ch\<rparr>])"
proof -
  let ?w = "width d" and ?i = "y * width d + x"
  have i: "0 \<le> ?i" "?i < ?w * height d" using index_in_grid(1,2) [of x ?w y "height d"] c(2) by (auto simp: on_screen_def)
  obtain d1 where d1: "put_cell conif ?i \<lparr>attr = attr_state e, codepoint = ch\<rparr> (e, d) = Ok (e, d1)" "kept d {nat ?i} d1"
      "cells d1 = (cells d)[nat ?i := \<lparr>attr = attr_state e, codepoint = ch\<rparr>]"
    using put_cell_ok [OF ok i, of "\<lparr>attr = attr_state e, codepoint = ch\<rparr>" e] ch by auto
  have k1: "ok d1" "width d1 = ?w" "height d1 = height d" using keptD [OF d1(2)] by auto
  obtain d2 where d2: "call_invalidate conif x y x y (e, d1) = Ok (0, e, d2)" "kept d1 {} d2" "cells d2 = cells d1"
      "stale d2 \<subseteq> stale d1 - rect ?w x y x y"
    using call_invalidate_ok [of d1 x y x y e] k1 c(2) by (auto simp: on_screen_def)
  have "nat ?i \<in> rect ?w x y x y" by (auto simp: rect_def)
  then have kd2: "kept d {} d2" using d1(2) d2(2,4) by (auto simp: kept_def)
  show ?thesis
  proof (cases "width_of ch = 2")
    case False
    then have "\<not> 1 < width_of ch" by (auto simp: width_of_def split: if_splits)
    then show ?thesis using False d1 d2 kd2
      by (simp add: console_putchar_def wcwidth_eq cursor_at [OF ok c(1)] dim_simps [OF ok] Let_def)
  next
    case True
    have j: "0 \<le> ?i + 1" "?i + 1 < ?w * height d"
      using index_in_grid(1,2) [of "x + 1" ?w y "height d"] c(2) wide [OF True] by (auto simp: on_screen_def)
    obtain d3 where d3: "put_cell conif (?i + 1) \<lparr>attr = attr_state e, codepoint = - 1\<rparr> (e, d2) = Ok (e, d3)" "kept d2 {nat (?i + 1)} d3"
        "cells d3 = (cells d2)[nat (?i + 1) := \<lparr>attr = attr_state e, codepoint = - 1\<rparr>]"
      using put_cell_ok [of d2 "?i + 1" "\<lparr>attr = attr_state e, codepoint = - 1\<rparr>" e] keptD [OF kd2] j blanks_shown by auto
    obtain d4 where d4: "call_invalidate conif x y x y (e, d3) = Ok (0, e, d4)" "kept d3 {} d4" "cells d4 = cells d3"
      using call_invalidate_ok [of d3 x y x y e] keptD [OF d3(2)] keptD [OF kd2] c(2) by (auto simp: on_screen_def)
    have "kept d {nat (?i + 1)} d4" using kept_trans [OF kd2 kept_trans [OF d3(2) d4(2)]] by simp
    moreover have "nat (?i + 1) = Suc (nat ?i)" using i by simp
    ultimately show ?thesis using True wide d1 d2(1,3) d3 d4
      by (simp add: console_putchar_def wcwidth_eq cursor_at [OF ok c(1)] dim_simps [OF ok] Let_def)
  qed
qed

lemma next_row_then:
  "next_row conif w h y t (\<lambda>y t. check_then (move_cursor conif x' y t) (k y)) =
     check_then (next_row conif w h y t (\<lambda>y. move_cursor conif x' y)) (k (if y + 1 < h then y + 1 else h - 1))"
  by (auto simp: next_row_def check_then_def obind_def split: outcome.splits)

lemma put_rest:
  assumes ok: "ok d" and c: "snd (get_cursor_pos conif d) = (x, y)" "on_screen d x y" and ch: "shows_char ch"
    and k: "width_of ch \<in> {1, 2}" "width_of ch = 2 \<Longrightarrow> x + 1 < width d"
  shows "\<exists>d'. check_then (console_putchar conif ch (e, d)) (\<lambda>t.
      if x + width_of ch < width d then move_cursor conif (x + width_of ch) y t
      else next_row conif (width d) (height d) y t (\<lambda>y. move_cursor conif 0 y)) = Ok (0, e, d') \<and>
    becomes d (if width_of ch = 2 then {nat (y * width d + x + 1)} else {}) (text_put (width d) (height d) e ch (cells d, x, y)) d'"
proof -
  obtain d1 where d1: "console_putchar conif ch (e, d) = Ok (0, e, d1)" "kept d (if width_of ch = 2 then {nat (y * width d + x + 1)} else {}) d1"
      "cells d1 = (if width_of ch = 2
        then (cells d)[nat (y * width d + x) := \<lparr>attr = attr_state e, codepoint = ch\<rparr>, Suc (nat (y * width d + x)) := \<lparr>attr = attr_state e, codepoint = - 1\<rparr>]
        else (cells d)[nat (y * width d + x) := \<lparr>attr = attr_state e, codepoint = ch\<rparr>])"
    using putchar_ok [OF ok c ch k(2), of e] by auto
  have "\<not> (width_of ch = 2 \<and> width d < x + 2)" using k(2) by auto
  then have p: "text_put (width d) (height d) e ch (cells d, x, y) =
      (if x + width_of ch < width d then (cells d1, x + width_of ch, y) else text_next_row (width d) (height d) (blank_cell e) 0 (cells d1, x, y))"
    by (auto simp: text_put_def d1(3) Let_def)
  show ?thesis
  proof (cases "x + width_of ch < width d")
    case True
    then show ?thesis using move_ok [OF d1(2), of "x + width_of ch" y e] c(2) k(1) p d1(1) by (auto simp: on_screen_def)
  next
    case False
    then show ?thesis using next_row_ok [OF d1(2), of y 0 e x] c(2) p d1(1) by (auto simp: on_screen_def)
  qed
qed

lemma becomes_trans: "becomes d R s d1 \<Longrightarrow> becomes d1 S s' d2 \<Longrightarrow> becomes d (R \<union> S) s' d2"
  by (auto simp: becomes_def)

lemma becomes_mono: "becomes d R s d1 \<Longrightarrow> R \<subseteq> S \<Longrightarrow> becomes d S s d1"
  by (auto simp: becomes_def)

lemma becomesD:
  assumes "becomes d R (cs, x, y) d'"
  shows "ok d'" "snd (get_cursor_pos conif d') = (x, y)" "on_screen d' x y" "width d' = width d" "height d' = height d" "cells d' = cs"
  using assms by (auto simp: becomes_def text_ok_def view_def)

lemma put_plain_ok:
  assumes ok: "text_ok d" and v: "view d = (cs, x, y)" and ch: "shows_char ch" "width_of ch \<in> {1, 2}" "width_of ch = 2 \<Longrightarrow> 2 \<le> width d"
  shows "\<exists>d'. put_plain conif ch (width d) (height d) x y (e, d) = Ok (0, e, d') \<and>
    becomes d (stale_after ch) (text_put (width d) (height d) e ch (cs, x, y)) d'"
proof -
  have c: "ok d" "cells d = cs" "snd (get_cursor_pos conif d) = (x, y)" "on_screen d x y" using ok v by (auto simp: text_ok_def view_def)
  have ch32: "\<not> ch < 32" using width_of_text [OF ch(2)] by simp
  show ?thesis
  proof (cases "width_of ch = 2 \<and> width d < x + 2")
    case False
    then obtain d' where d': "check_then (console_putchar conif ch (e, d)) (\<lambda>t.
        if x + width_of ch < width d then move_cursor conif (x + width_of ch) y t
        else next_row conif (width d) (height d) y t (\<lambda>y. move_cursor conif 0 y)) = Ok (0, e, d')"
        "becomes d (if width_of ch = 2 then {nat (y * width d + x + 1)} else {}) (text_put (width d) (height d) e ch (cs, x, y)) d'"
      using put_rest [OF c(1,3,4) ch(1,2), of e] c(2) by auto
    have "becomes d (stale_after ch) (text_put (width d) (height d) e ch (cs, x, y)) d'"
      by (rule becomes_mono [OF d'(2)]) (simp add: stale_after_def)
    moreover have "\<not> (1 < width_of ch \<and> width d < x + width_of ch)" using False ch(2) by auto
    ultimately show ?thesis using d'(1) ch32 by (auto simp: put_plain_def wcwidth_eq Let_def)
  next
    case True
    obtain d1 where d1: "next_row conif (width d) (height d) y (e, d) (\<lambda>y. move_cursor conif 0 y) = Ok (0, e, d1)"
        "becomes d {} (text_next_row (width d) (height d) (blank_cell e) 0 (cs, x, y)) d1"
      using next_row_ok [OF kept_refl [OF c(1), of "{}"], of y 0 e x] c by (auto simp: on_screen_def)
    let ?y = "if y + 1 < height d then y + 1 else height d - 1"
    obtain cs1 where cs1: "text_next_row (width d) (height d) (blank_cell e) 0 (cs, x, y) = (cs1, 0, ?y)"
      by (cases "y + 1 < height d") (auto simp: text_next_row_def)
    note b = becomesD [OF d1(2) [unfolded cs1]]
    have two: "2 \<le> width d1" using ch(3) True b(4) by simp
    obtain d2 where d2: "check_then (console_putchar conif ch (e, d1)) (\<lambda>t.
        if 0 + width_of ch < width d1 then move_cursor conif (0 + width_of ch) ?y t
        else next_row conif (width d1) (height d1) ?y t (\<lambda>y. move_cursor conif 0 y)) = Ok (0, e, d2)"
        "becomes d1 (if width_of ch = 2 then {nat (?y * width d1 + 0 + 1)} else {}) (text_put (width d1) (height d1) e ch (cells d1, 0, ?y)) d2"
      using put_rest [OF b(1-3) ch(1,2), of e] two by auto
    have "text_put (width d) (height d) e ch (cs, x, y) = text_put (width d) (height d) e ch (cs1, 0, ?y)"
      using True two b(4) by (simp add: text_put_def cs1 Let_def)
    then have "becomes d (stale_after ch) (text_put (width d) (height d) e ch (cs, x, y)) d2"
      using becomes_mono [OF becomes_trans [OF d1(2) d2(2)], of "stale_after ch"] True b(4-6) by (simp add: stale_after_def)
    moreover have "put_plain conif ch (width d) (height d) x y (e, d) = Ok (0, e, d2)"
      using d1(1) d2(1) True b(4,5) ch32 by (simp add: put_plain_def wcwidth_eq next_row_then cong: if_cong)
    ultimately show ?thesis by blast
  qed
qed

lemma put_char_text:
  assumes ok: "text_ok d" and e: "escape_seq_state e = STATE_DEFAULT" and ch: "text_char ch" "shows_char ch" "width_of ch = 2 \<Longrightarrow> 2 \<le> width d"
  shows "\<exists>d'. put_char conif ch (e, d) = Ok (0, e, d') \<and> becomes d (stale_after ch) (text_step (width d) (height d) e (view d) ch) d'"
proof -
  obtain cs x y where v: "view d = (cs, x, y)" by (cases "view d")
  have c: "ok d" "cells d = cs" "snd (get_cursor_pos conif d) = (x, y)" "on_screen d x y" using ok v by (auto simp: text_ok_def view_def)
  have r: "kept d {} d" using kept_refl [OF c(1)] .
  have s: "becomes d {} t d' \<Longrightarrow> becomes d (stale_after c) t d'" for c t d' by (rule becomes_mono) auto
  note rows = next_row_ok [OF r, of y _ e x] and moves = move_ok [OF r, of _ y e]
  have "ch \<noteq> 8" "ch \<noteq> 9" "ch \<noteq> 27" using ch(1) width_of_text [of ch] by (auto simp: text_char_def)
  then have p: "put_char conif ch (e, d) =
      (if ch = 7 then move_cursor conif x y (e, d)
       else if ch = 10 then next_row conif (width d) (height d) y (e, d) (\<lambda>y. move_cursor conif 0 y)
       else if ch = 11 then next_row conif (width d) (height d) y (e, d) (\<lambda>y. move_cursor conif x y)
       else if ch = 12 then move_cursor conif x y (e, d)
       else if ch = 13 then move_cursor conif 0 y (e, d)
       else put_plain conif ch (width d) (height d) x y (e, d))"
    by (simp add: put_char_def e cursor_at [OF c(1,3)] dim_simps [OF c(1)])
  consider "ch = 7 \<or> ch = 12" | "ch = 13" | "ch = 10" | "ch = 11" | "32 \<le> ch" "width_of ch \<in> {1, 2}"
    using ch(1) width_of_text [of ch] by (auto simp: text_char_def)
  then show ?thesis
  proof cases
    case 5
    then show ?thesis using put_plain_ok [OF ok v ch(2) 5(2) ch(3), of e] v unfolding p by (auto simp: text_step_def)
  qed (use moves [of x] moves [of 0] rows [of 0] rows [of x] c v p in \<open>auto simp: text_step_def on_screen_def intro: s\<close>)
qed

lemma put_chars_text:
  "text_ok d \<Longrightarrow> escape_seq_state e = STATE_DEFAULT \<Longrightarrow> list_all (\<lambda>ch. text_char ch \<and> shows_char ch) chs \<Longrightarrow> 2 \<le> width d \<Longrightarrow>
     \<exists>d'. put_chars conif chs (e, d) = Ok (0, e, d') \<and>
       becomes d (\<Union>ch \<in> set chs. stale_after ch) (foldl (text_step (width d) (height d) e) (view d) chs) d'"
proof (induction chs arbitrary: d)
  case Nil
  then show ?case by (auto simp: becomes_def)
next
  case (Cons ch chs)
  obtain d1 where d1: "put_char conif ch (e, d) = Ok (0, e, d1)" "becomes d (stale_after ch) (text_step (width d) (height d) e (view d) ch) d1"
    using put_char_text [of d e ch] Cons.prems by auto
  have k: "text_ok d1" "width d1 = width d" "height d1 = height d" "view d1 = text_step (width d) (height d) e (view d) ch"
    using d1(2) by (auto simp: becomes_def)
  obtain d2 where d2: "put_chars conif chs (e, d1) = Ok (0, e, d2)"
      "becomes d1 (\<Union>ch \<in> set chs. stale_after ch) (foldl (text_step (width d1) (height d1) e) (view d1) chs) d2"
    using Cons.IH [OF k(1)] Cons.prems k(2) by auto
  then show ?case using d1 becomes_trans [OF d1(2) d2(2)] k by auto
qed

end

lemma vga_text:
  "vga.view d = (char_buffer d, cursor_col d, cursor_row d)"
  "vga.text_ok d \<longleftrightarrow> vga_ok d \<and> 0 \<le> cursor_col d \<and> cursor_col d < fst (snd (vga_get_dimension d)) \<and>
     0 \<le> cursor_row d \<and> cursor_row d < snd (snd (vga_get_dimension d))"
  unfolding vga.view_def vga.text_ok_def vga.on_screen_def by (simp_all add: vga_conif_def vga_get_cursor_pos_def)

text \<open>
  C18: Refinement.  Over the VGA text console, writing text (printable characters of width one and two, newline, vertical
  tab, carriage return, bell and form feed) in the default state never faults and succeeds, keeps the cursor on the
  screen, and has exactly the effect of the reference: characters are placed at the cursor with the current attributes,
  lines wrap, and the last line scrolls the screen up by one row.  When all characters are narrow and every cell was
  shown or marked as changed before, the text memory of the adapter shows the whole buffer afterwards.
\<close>

theorem terminal_text_refines:
  assumes "vga_ok d" "vga_get_dimension d = (STATUS_SUCCESS, w, h)" "2 \<le> w"
    and "0 \<le> cursor_col d" "cursor_col d < w" "0 \<le> cursor_row d" "cursor_row d < h"
    and "escape_seq_state e = STATE_DEFAULT" and "list_all (\<lambda>ch. text_char ch \<and> cp437_char ch) chs"
  shows "\<exists>d'. wwrite vga_conif chs (e, d) = Ok (STATUS_SUCCESS, e, d') \<and> vga_ok d' \<and> vga_get_dimension d' = (STATUS_SUCCESS, w, h) \<and>
    0 \<le> cursor_col d' \<and> cursor_col d' < w \<and> 0 \<le> cursor_row d' \<and> cursor_row d' < h \<and>
    (char_buffer d', cursor_col d', cursor_row d') = foldl (text_step w h e) (char_buffer d, cursor_col d, cursor_row d) chs \<and>
    (list_all (\<lambda>ch. width_of ch \<noteq> 2) chs \<and> vga_stale d = {} \<longrightarrow>
       (\<forall>i < vga_size d'. cell_word (char_buffer d' ! i) = Ok (text_memory d' ! i)))"
proof -
  note [simp] = vga_text
  obtain d1 where d1: "put_chars vga_conif chs (e, d) = Ok (0, e, d1)"
      "vga.becomes d (\<Union>ch \<in> set chs. stale_after ch) (foldl (text_step w h e) (char_buffer d, cursor_col d, cursor_row d) chs) d1"
    using vga.put_chars_text [of d e chs] assms by auto
  note b = d1(2) [unfolded vga.becomes_def]
  have k: "vga_ok d1" "vga_stale d1 \<subseteq> vga_stale d \<union> (\<Union>ch \<in> set chs. stale_after ch)" using b by simp_all
  have dim: "vga_get_dimension d1 = (STATUS_SUCCESS, w, h)"
    using b assms(2) k(1) by (cases "vga_get_dimension d1") (simp add: vga_ok_def)
  obtain d2 where d2: "vga_con_flush d1 = Ok (STATUS_SUCCESS, d2)" "flushed (vga_size d1) d1 d2" using vga_flush_ok [OF k(1)] by blast
  have "wwrite vga_conif chs (e, d) = Ok (STATUS_SUCCESS, e, d2)"
    using d1(1) d2(1) by (simp add: wwrite_def call_flush_def) (simp add: vga_conif_def)
  moreover have "vga_ok d2" "vga_get_dimension d2 = (STATUS_SUCCESS, w, h)" "vga_size d2 = vga_size d1"
      "(char_buffer d2, cursor_col d2, cursor_row d2) = (char_buffer d1, cursor_col d1, cursor_row d1)"
    using k(1) dim d2(2) by (auto simp: flushed_def vga_ok_def)
  moreover have "cell_word (char_buffer d2 ! i) = Ok (text_memory d2 ! i)"
    if "list_all (\<lambda>ch. width_of ch \<noteq> 2) chs" "vga_stale d = {}" "i < vga_size d2" for i
    using flushed_shows [OF d2(2)] that k(2) \<open>vga_size d2 = vga_size d1\<close> by (auto simp: stale_after_def list_all_iff)
  ultimately show ?thesis
    using b dim by (intro exI [of _ d2]) auto
qed

theorem terminal_text_refines_witness:
  "\<exists>d'. wwrite vga_conif [72, 105, 10, 0xAC00, 33] (escape ansiterm_example, vga_example) = Ok (STATUS_SUCCESS, escape ansiterm_example, d') \<and>
     cursor_col d' = 3 \<and> cursor_row d' = 1"
proof -
  have h: "vga_ok vga_example" "vga_get_dimension vga_example = (STATUS_SUCCESS, 8, 2)" "escape_seq_state (escape ansiterm_example) = STATE_DEFAULT"
    "0 \<le> cursor_col vga_example" "cursor_col vga_example < 8" "0 \<le> cursor_row vga_example" "cursor_row vga_example < 2"
    "list_all (\<lambda>ch. text_char ch \<and> cp437_char ch) [72, 105, 10, 0xAC00, 33]"
    by code_simp+
  have f: "snd (foldl (text_step 8 2 (escape ansiterm_example)) (char_buffer vga_example, cursor_col vga_example, cursor_row vga_example)
      [72, 105, 10, 0xAC00, 33]) = (3, 1)"
    by code_simp
  obtain d' where d': "wwrite vga_conif [72, 105, 10, 0xAC00, 33] (escape ansiterm_example, vga_example) = Ok (STATUS_SUCCESS, escape ansiterm_example, d')"
      "(char_buffer d', cursor_col d', cursor_row d') = foldl (text_step 8 2 (escape ansiterm_example))
        (char_buffer vga_example, cursor_col vga_example, cursor_row vga_example) [72, 105, 10, 0xAC00, 33]"
    using terminal_text_refines [OF h(1,2) _ h(4-7) h(3) h(8)] by auto
  have "(cursor_col d', cursor_row d') = (3, 1)" using f unfolding d'(2) [symmetric] by simp
  then show ?thesis using d'(1) by auto
qed

end
