(* ===== verification/AnsiUtf8.thy ===== *)
theory AnsiUtf8
  imports AnsiText
begin

text \<open>
  The byte interface of the terminal: \<^verbatim>\<open>write\<close> of \<^verbatim>\<open>boot/device/char/ansiterm.c\<close> decodes UTF-8, keeps the
  bytes of an unfinished character in \<^verbatim>\<open>utf8_fragment_buf\<close> and goes on with them in the next call. The reference
  is the encoder \<open>utf8\<close>; the lemmas follow the bytes of one character, the stream of kept and new bytes, and the loop.
\<close>

section \<open>UTF-8\<close>

definition utf8 :: "int \<Rightarrow> u8 list" where
  "utf8 c =
     (if c < 0x80 then [of_int c]
      else if c < 0x800 then [of_int (0xC0 + c div 0x40), of_int (0x80 + c mod 0x40)]
      else if c < 0x10000 then [of_int (0xE0 + c div 0x1000), of_int (0x80 + c div 0x40 mod 0x40), of_int (0x80 + c mod 0x40)]
      else [of_int (0xF0 + c div 0x40000), of_int (0x80 + c div 0x1000 mod 0x40), of_int (0x80 + c div 0x40 mod 0x40), of_int (0x80 + c mod 0x40)])"

definition scalar :: "int \<Rightarrow> bool" where
  "scalar c \<longleftrightarrow> 0 \<le> c \<and> c < 0x110000"

text \<open>The bytes of an unfinished character, and the bytes that are kept for the next call.\<close>

definition unfinished :: "u8 list \<Rightarrow> bool" where
  "unfinished bs \<longleftrightarrow> (\<exists>c n. scalar c \<and> n < length (utf8 c) \<and> bs = take n (utf8 c))"

definition fragment :: "ansiterm_data \<Rightarrow> u8 list" where
  "fragment a = take (utf8_fragment_len a) (utf8_fragment_buf a)"

text \<open>The bytes still to be read: the fragment and the rest of the buffer.\<close>

definition reading :: "ansiterm_data \<Rightarrow> u8 list \<Rightarrow> int \<Rightarrow> int \<Rightarrow> u8 list \<Rightarrow> bool" where
  "reading a buf p len bs \<longleftrightarrow> length (utf8_fragment_buf a) = 6 \<and> utf8_fragment_len a \<le> 6 \<and> 0 \<le> p \<and> 0 \<le> len \<and>
     p + len = int (length buf) \<and> bs = fragment a @ drop (nat p) buf"

section \<open>Lemmas\<close>

lemma sint_mod: "k \<le> 8 \<Longrightarrow> sint (b :: u8) mod 2 ^ k = uint b mod 2 ^ k"
proof -
  assume "k \<le> 8"
  have "uint b mod 256 = uint b" using uint_lt2p [of b] by (intro mod_pos_pos_trivial) simp_all
  then have "sint b mod 2 ^ 8 = uint b" using take_bit_signed_take_bit [of 8 7 "uint b"] by (simp add: sint_uint take_bit_eq_mod)
  then show ?thesis using \<open>k \<le> 8\<close> by (metis mod_mod_cancel le_imp_power_dvd)
qed

lemma byte_of_int: "0 \<le> c \<Longrightarrow> c < 256 \<Longrightarrow> uint (of_int c :: u8) = c"
  by (simp add: uint_word_of_int_eq take_bit_int_eq_self)

lemma or_shift: "0 \<le> b \<Longrightarrow> b < 2 ^ n \<Longrightarrow> or (a * 2 ^ n) b = a * 2 ^ n + b" for a b :: int
proof -
  assume b: "0 \<le> b" "b < 2 ^ n"
  have "or (take_bit n b) (push_bit n a) = take_bit n b + push_bit n a" using concat_bit_eq [of n b a] by (simp add: concat_bit_def)
  moreover have "take_bit n b = b" using b by (simp add: take_bit_int_eq_self)
  ultimately show ?thesis by (simp add: push_bit_eq_mult or.commute add.commute)
qed

lemma continuation_last: "continuation a buf p len n n wch = Ok (n, wch)"
  by (simp add: continuation.simps)

text \<open>The parts of a code point.\<close>

lemma div_parts: "0 < m \<Longrightarrow> m * q \<le> c \<Longrightarrow> c < m * r \<Longrightarrow> q \<le> c div m \<and> c div m < r" for m q r c :: int
proof -
  assume a: "0 < m" "m * q \<le> c" "c < m * r"
  have e: "m * (c div m) + c mod m = c" by simp
  have m: "0 \<le> c mod m" "c mod m < m" using a(1) by simp_all
  have "m * q < m * (c div m) + m" "m * (c div m) < m * r" using a e m by linarith+
  then have "m * q < m * (c div m + 1)" "m * (c div m) < m * r" by (simp_all add: distrib_left)
  then show ?thesis using a(1) by (simp add: mult_less_cancel_left_pos)
qed

lemma mod_parts: "c div m = q \<Longrightarrow> c mod m = c - m * q" for m q c :: int
  using minus_mult_div_eq_mod [of c m] by simp

lemma continuation_next:
  fixes b :: u8
  assumes "i < n" "get_seq_char a buf p len i = Ok (sint b)" "uint b = 0x80 + x" "0 \<le> x" "x < 64"
  shows "continuation a buf p len n i wch = continuation a buf p len n (i + 1) (or wch (x * 2 ^ nat ((n - i - 1) * 6)))"
proof -
  have d: "(0x80 + x) div 64 = 2" using div_parts [of 64 2 "0x80 + x" 3] assms(4,5) by simp
  have x: "(0x80 + x) mod 64 = x" "(0x80 + x) mod 256 = 0x80 + x" using mod_parts [OF d] assms(4,5) by simp_all
  have "sint b mod 256 = 0x80 + x" "sint b mod 64 = x" using sint_mod [of 8 b] sint_mod [of 6 b] x assms(3) by simp_all
  then show ?thesis using assms(1,2) d by (subst continuation.simps) simp
qed

lemma lead_byte_of:
  fixes b :: u8
  shows "lead_byte (sint b) =
    (if uint b < 0x80 then (1, uint b) else if uint b < 0xE0 then (2, uint b mod 0x20 * 0x40)
     else if uint b < 0xF0 then (3, uint b mod 0x10 * 0x1000) else if uint b < 0xF8 then (4, uint b mod 0x08 * 0x40000) else (- 1, 0))"
proof -
  have u: "uint b mod 256 = uint b" using uint_lt2p [of b] by (intro mod_pos_pos_trivial) simp_all
  have 8: "sint b mod 256 = uint b" using sint_mod [of 8 b] u by simp
  have 7: "sint b mod 128 = uint b mod 128" using sint_mod [of 7 b] by simp
  have 5: "sint b mod 32 = uint b mod 32" using sint_mod [of 5 b] by simp
  have 4: "sint b mod 16 = uint b mod 16" using sint_mod [of 4 b] by simp
  have 3: "sint b mod 8 = uint b mod 8" using sint_mod [of 3 b] by simp
  show ?thesis unfolding lead_byte_def 8 7 5 4 3 Let_def using mod_pos_pos_trivial [of "uint b" 128] by simp
qed

lemma utf8_length: "scalar c \<Longrightarrow> length (utf8 c) = (if c < 0x80 then 1 else if c < 0x800 then 2 else if c < 0x10000 then 3 else 4)"
  by (simp add: utf8_def)

lemma utf8_lead:
  assumes "scalar c"
  shows "lead_byte (sint (utf8 c ! 0)) = (int (length (utf8 c)), c div 2 ^ (6 * (length (utf8 c) - 1)) * 2 ^ (6 * (length (utf8 c) - 1)))"
proof -
  have c: "0 \<le> c" "c < 0x110000" using assms by (auto simp: scalar_def)
  have n: "\<not> 0xC0 + q < (0x80 :: int)" "\<not> 0xE0 + q < (0xE0 :: int)" "\<not> 0xF0 + q < (0xF0 :: int)" if "0 \<le> q" for q using that by auto
  consider "c < 0x80" | "0x80 \<le> c" "c < 0x800" | "0x800 \<le> c" "c < 0x10000" | "0x10000 \<le> c" by linarith
  then show ?thesis
  proof cases
    case 1
    then have "uint (of_int c :: u8) = c" using c by (intro byte_of_int) auto
    then show ?thesis using 1 by (simp add: utf8_def lead_byte_of)
  next
    case 2
    define q where "q = c div 0x40"
    have q: "0 \<le> q" "q < 0x20" using div_parts [of "0x40" 0 c "0x20"] 2 c by (auto simp: q_def)
    then have "uint (of_int (0xC0 + q) :: u8) = 0xC0 + q" "(0xC0 + q) mod 0x20 = q"
      using byte_of_int [of "0xC0 + q"] mod_parts [of "0xC0 + q" "0x20"] div_parts [of "0x20" "6" "0xC0 + q" "7"] by simp_all
    then show ?thesis using 2 q n(1) [OF q(1)] by (simp add: utf8_def lead_byte_of flip: q_def)
  next
    case 3
    define q where "q = c div 0x1000"
    have q: "0 \<le> q" "q < 0x10" using div_parts [of "0x1000" 0 c "0x10"] 3 c by (auto simp: q_def)
    then have "uint (of_int (0xE0 + q) :: u8) = 0xE0 + q" "(0xE0 + q) mod 0x10 = q"
      using byte_of_int [of "0xE0 + q"] mod_parts [of "0xE0 + q" "0x10"] div_parts [of "0x10" "14" "0xE0 + q" "15"] by simp_all
    then show ?thesis using 3 q by (simp add: utf8_def lead_byte_of flip: q_def)
  next
    case 4
    define q where "q = c div 0x40000"
    have q: "0 \<le> q" "q < 8" using div_parts [of "0x40000" 0 c "8"] 4 c by (auto simp: q_def)
    then have "uint (of_int (0xF0 + q) :: u8) = 0xF0 + q" "(0xF0 + q) mod 0x08 = q"
      using byte_of_int [of "0xF0 + q"] mod_parts [of "0xF0 + q" "0x08"] div_parts [of "0x08" "30" "0xF0 + q" "31"] by simp_all
    then show ?thesis using 4 q by (simp add: utf8_def lead_byte_of flip: q_def)
  qed
qed

lemma reading_length: "reading a buf p len bs \<Longrightarrow> int (length bs) = int (utf8_fragment_len a) + len"
  by (auto simp: reading_def fragment_def)

lemma get_seq_char_stream:
  assumes r: "reading a buf p len bs" and i: "i < length bs"
  shows "get_seq_char a buf p len (int i) = Ok (sint (bs ! i))"
proof (cases "i < utf8_fragment_len a")
  case True
  then show ?thesis using r by (simp add: get_seq_char_def reading_def fragment_def nth_append)
next
  case False
  have "int i < int (utf8_fragment_len a) + len" using reading_length [OF r] i by simp
  moreover have n: "nat (p + (int i - int (utf8_fragment_len a))) = nat p + (i - utf8_fragment_len a)"
    using r False unfolding reading_def by linarith
  moreover have "length (fragment a) = utf8_fragment_len a" using r by (simp add: reading_def fragment_def)
  ultimately show ?thesis using r False i by (auto simp: get_seq_char_def reading_def nth_append Let_def)
qed

lemma utf8_parts:
  assumes "scalar c"
  shows "0x80 \<le> c \<Longrightarrow> uint (utf8 c ! (length (utf8 c) - 1)) = 0x80 + c mod 0x40"
    "0x800 \<le> c \<Longrightarrow> uint (utf8 c ! (length (utf8 c) - 2)) = 0x80 + c div 0x40 mod 0x40"
    "0x10000 \<le> c \<Longrightarrow> uint (utf8 c ! (length (utf8 c) - 3)) = 0x80 + c div 0x1000 mod 0x40"
proof -
  have b: "uint (of_int (0x80 + x mod 0x40) :: u8) = 0x80 + x mod 0x40" for x by (intro byte_of_int) (simp_all add: add_increasing)
  show "0x80 \<le> c \<Longrightarrow> uint (utf8 c ! (length (utf8 c) - 1)) = 0x80 + c mod 0x40"
    using b [of c] by (simp add: utf8_def)
  show "0x800 \<le> c \<Longrightarrow> uint (utf8 c ! (length (utf8 c) - 2)) = 0x80 + c div 0x40 mod 0x40"
    using b [of "c div 0x40"] by (simp add: utf8_def)
  show "0x10000 \<le> c \<Longrightarrow> uint (utf8 c ! (length (utf8 c) - 3)) = 0x80 + c div 0x1000 mod 0x40"
    using b [of "c div 0x1000"] by (simp add: utf8_def)
qed

lemma join_parts: "c div 0x40 * 0x40 + c mod 0x40 = c" "c div 0x1000 * 0x1000 + c div 0x40 mod 0x40 * 0x40 = c div 0x40 * 0x40"
  "c div 0x40000 * 0x40000 + c div 0x1000 mod 0x40 * 0x1000 = c div 0x1000 * 0x1000" for c :: int
proof -
  show "c div 0x40 * 0x40 + c mod 0x40 = c" by simp
  have "c div 0x1000 = c div 0x40 div 0x40" "c div 0x40000 = c div 0x1000 div 0x40" by (simp_all flip: zdiv_zmult2_eq)
  then show "c div 0x1000 * 0x1000 + c div 0x40 mod 0x40 * 0x40 = c div 0x40 * 0x40"
    "c div 0x40000 * 0x40000 + c div 0x1000 mod 0x40 * 0x1000 = c div 0x1000 * 0x1000"
    using div_mult_mod_eq [of "c div 0x40" "0x40"] div_mult_mod_eq [of "c div 0x1000" "0x40"] by linarith+
qed

lemma or_parts: "or (c div 0x40 * 0x40) (c mod 0x40 * 1) = c" "or (c div 0x1000 * 0x1000) (c div 0x40 mod 0x40 * 0x40) = c div 0x40 * 0x40"
  "or (c div 0x40000 * 0x40000) (c div 0x1000 mod 0x40 * 0x1000) = c div 0x1000 * 0x1000" for c :: int
proof -
  have m: "0 \<le> x mod 0x40" "x mod 0x40 < 0x40" for x :: int by simp_all
  show "or (c div 0x40 * 0x40) (c mod 0x40 * 1) = c" using or_shift [of "c mod 0x40" 6 "c div 0x40"] m [of c] join_parts(1) by simp
  show "or (c div 0x1000 * 0x1000) (c div 0x40 mod 0x40 * 0x40) = c div 0x40 * 0x40"
    using or_shift [of "c div 0x40 mod 0x40 * 0x40" 12 "c div 0x1000"] m [of "c div 0x40"] join_parts(2) [of c] by simp
  show "or (c div 0x40000 * 0x40000) (c div 0x1000 mod 0x40 * 0x1000) = c div 0x1000 * 0x1000"
    using or_shift [of "c div 0x1000 mod 0x40 * 0x1000" 18 "c div 0x40000"] m [of "c div 0x1000"] join_parts(3) [of c] by simp
qed

lemma decode_full:
  assumes r: "reading a buf p len (utf8 c @ rest)" and c: "scalar c"
  shows "decode_char a buf p len = Ok (Some (int (length (utf8 c)), c))"
proof -
  let ?n = "length (utf8 c)"
  note l = utf8_length [OF c]
  have n: "1 \<le> ?n" "?n \<le> 4" using l by auto
  have get: "get_seq_char a buf p len (int i) = Ok (sint (utf8 c ! i))" if "i < ?n" for i
    using get_seq_char_stream [OF r, of i] that by (simp add: nth_append)
  have m: "0 \<le> x mod 0x40" "x mod 0x40 < 0x40" for x :: int by simp_all
  have step: "continuation a buf p len (int ?n) (int i) wch = continuation a buf p len (int ?n) (int (Suc i)) (or wch (x mod 0x40 * 2 ^ (6 * (?n - i - 1))))"
    if "i < ?n" "uint (utf8 c ! i) = 0x80 + x mod 0x40" for i x wch
  proof -
    have "nat ((int ?n - int i - 1) * 6) = 6 * (?n - i - 1)" using that(1) by simp
    then show ?thesis using continuation_next [OF _ get that(2) m, of "int ?n" wch] that(1) by (simp add: add.commute)
  qed
  have "continuation a buf p len (int ?n) (int 1) (c div 2 ^ (6 * (?n - 1)) * 2 ^ (6 * (?n - 1))) = Ok (int ?n, c)"
  proof -
    note s = utf8_parts [OF c]
    consider "c < 0x80" | "0x80 \<le> c" "c < 0x800" | "0x800 \<le> c" "c < 0x10000" | "0x10000 \<le> c" by linarith
    then show ?thesis
    proof cases
      case 1
      then have "?n = 1" using l by simp
      then show ?thesis using continuation_last [of a buf p len 1 c] by simp
    next
      case 2
      then have e: "?n = 2" using l by simp
      show ?thesis using step [of 1 c] s(1) 2(1) or_parts(1) [of c] continuation_last [of a buf p len 2] unfolding e by simp
    next
      case 3
      then have e: "?n = 3" using l by simp
      show ?thesis
        using step [of 1 "c div 0x40"] step [of 2 c] s(1,2) 3(1) or_parts(1,2) [of c] continuation_last [of a buf p len 3] unfolding e by simp
    next
      case 4
      then have e: "?n = 4" using l by simp
      show ?thesis
        using step [of 1 "c div 0x1000"] step [of 2 "c div 0x40"] step [of 3 c] s 4 or_parts [of c] continuation_last [of a buf p len 4] unfolding e by simp
    qed
  qed
  moreover have "\<not> int (utf8_fragment_len a) + len < to_unsigned (int ?n)" using reading_length [OF r] n by (simp add: to_unsigned_id)
  moreover have "utf8 c \<noteq> []" using n by auto
  ultimately show ?thesis
    using get [of 0] n utf8_lead [OF c] by (simp add: decode_char_def)
qed

lemma decode_partial:
  assumes r: "reading a buf p len (take n (utf8 c))" and c: "scalar c" and n: "0 < n" "n < length (utf8 c)"
  shows "decode_char a buf p len = Ok None"
proof -
  have l: "length (utf8 c) \<le> 4" using utf8_length [OF c] by simp
  have "get_seq_char a buf p len 0 = Ok (sint (utf8 c ! 0))" using get_seq_char_stream [OF r, of 0] n by simp
  moreover have "int (utf8_fragment_len a) + len < to_unsigned (int (length (utf8 c)))" using reading_length [OF r] n l by (simp add: to_unsigned_id)
  ultimately show ?thesis using utf8_lead [OF c] by (simp add: decode_char_def)
qed

lemma unfinished_shorter:
  assumes "unfinished f" "f @ xs = utf8 c @ rest" "scalar c"
  shows "length f < length (utf8 c)"
proof -
  obtain c' n where f: "scalar c'" "n < length (utf8 c')" "f = take n (utf8 c')" using assms(1) by (auto simp: unfinished_def)
  have "0 < length (utf8 c)" using utf8_length [OF assms(3)] by simp
  moreover have "length (utf8 c') = length (utf8 c)" if "0 < n"
  proof -
    have "f ! 0 = (f @ xs) ! 0" using that f by (simp add: nth_append)
    also have "\<dots> = utf8 c ! 0" using \<open>0 < length (utf8 c)\<close> by (simp add: assms(2) nth_append)
    finally have "utf8 c' ! 0 = utf8 c ! 0" using that f by simp
    then show ?thesis using utf8_lead [OF f(1)] utf8_lead [OF assms(3)] by simp
  qed
  ultimately show ?thesis using f by (cases "0 < n") auto
qed

lemma keep_rest:
  assumes "reading a buf p len bs" "length bs \<le> 6"
  shows "\<exists>a'. keep_fragment buf p len a = Ok a' \<and> escape a' = escape a \<and> fragment a' = bs \<and> length (utf8_fragment_buf a') = 6 \<and> utf8_fragment_len a' \<le> 6"
proof -
  have "int (utf8_fragment_len a) + len \<le> 6" using reading_length [OF assms(1)] assms(2) by simp
  then have n: "utf8_fragment_len a + nat len \<le> 6" "nat p + nat len = length buf" using assms(1) unfolding reading_def by linarith+
  then have "take (nat len) (drop (nat p) buf) = drop (nat p) buf" by simp
  then show ?thesis using assms(1) n by (auto simp: keep_fragment_def reading_def fragment_def Let_def)
qed

lemma put_chars_Cons:
  "put_chars conif (c # cs) t = Ok (0, t') \<longleftrightarrow> (\<exists>st t1. put_char conif c t = Ok (st, t1) \<and> CHECK_SUCCESS st \<and> put_chars conif cs t1 = Ok (0, t'))"
  by (cases "put_char conif c t") (auto simp: check_then_def split: if_splits)

lemma put_chars_success: "put_chars conif cs t = Ok (st, t') \<Longrightarrow> CHECK_SUCCESS st \<Longrightarrow> st = 0"
proof (induction cs arbitrary: t)
  case (Cons c cs)
  then show ?case by (cases "put_char conif c t") (auto simp: check_then_def split: if_splits)
qed simp

lemma write_loop_utf8:
  assumes "reading a buf p len (concat (map utf8 cs) @ tail)" "list_all scalar cs" "unfinished tail" "unfinished (fragment a)"
    "put_chars conif cs (escape a, d) = Ok (0, e', d')"
  shows "\<exists>a'. write_loop conif buf p len written a d = Ok (0, written + len, a', d') \<and> escape a' = e' \<and> fragment a' = tail \<and>
     length (utf8_fragment_buf a') = 6 \<and> utf8_fragment_len a' \<le> 6"
  using assms
proof (induction cs arbitrary: a p len written d)
  case Nil
  have r: "reading a buf p len tail" and e: "e' = escape a" "d' = d" using Nil by auto
  show ?case
  proof (cases "0 < len")
    case False
    then have "fragment a = tail" "len = 0" using r by (auto simp: reading_def)
    then show ?thesis using r e by (intro exI [of _ a]) (simp add: write_loop.simps reading_def)
  next
    case True
    obtain c n where t: "scalar c" "n < length (utf8 c)" "tail = take n (utf8 c)" using Nil(3) by (auto simp: unfinished_def)
    have "length tail \<le> 6" using t utf8_length [OF t(1)] by (auto split: if_splits)
    moreover have "0 < n" using reading_length [OF r] True t by (cases n) auto
    ultimately show ?thesis
      using keep_rest [OF r] decode_partial [OF r [unfolded t(3)] t(1) _ t(2)] True e by (auto simp: write_loop.simps [of conif buf p len])
  qed
next
  case (Cons c cs)
  let ?f = "length (fragment a)" and ?n = "length (utf8 c)"
  have r: "reading a buf p len (utf8 c @ concat (map utf8 cs) @ tail)" and c: "scalar c" and cs: "list_all scalar cs"
    using Cons.prems by simp_all
  have f: "utf8_fragment_len a = ?f" using r by (simp add: reading_def fragment_def)
  have s: "fragment a @ drop (nat p) buf = utf8 c @ concat (map utf8 cs) @ tail" using r by (simp add: reading_def)
  have l: "?f < ?n" using unfinished_shorter [OF Cons.prems(4) s c] .
  have len: "0 < len" "int ?n - int ?f \<le> len" using reading_length [OF r] l f by simp_all
  obtain st e1 d1 where put: "put_char conif c (escape a, d) = Ok (st, e1, d1)" "CHECK_SUCCESS st" "put_chars conif cs (e1, d1) = Ok (0, e', d')"
    using Cons.prems(5) unfolding put_chars_Cons by auto
  define a1 where "a1 = a\<lparr>escape := e1, utf8_fragment_len := 0\<rparr>"
  define k where "k = int ?n - int ?f"
  have "drop ?n (fragment a @ drop (nat p) buf) = concat (map utf8 cs) @ tail" unfolding s by simp
  moreover have "nat (p + k) = nat p + (?n - ?f)" using l r unfolding k_def reading_def by linarith
  ultimately have "drop (nat (p + k)) buf = concat (map utf8 cs) @ tail" using l by (simp add: add.commute)
  then have "reading a1 buf (p + k) (len - k) (concat (map utf8 cs) @ tail)"
    using r len l by (simp add: reading_def a1_def fragment_def k_def)
  moreover have "unfinished (fragment a1)" by (auto simp: a1_def fragment_def unfinished_def scalar_def utf8_def intro!: exI [of _ 0])
  ultimately obtain a' where a': "write_loop conif buf (p + k) (len - k) (written + k) a1 d1 = Ok (0, written + len, a', d')"
      "escape a' = e'" "fragment a' = tail" "length (utf8_fragment_buf a') = 6" "utf8_fragment_len a' \<le> 6"
    using Cons.IH [of a1 "p + k" "len - k" d1 "written + k"] cs Cons.prems(3) put(3) by (auto simp: a1_def)
  then show ?case using decode_full [OF r c] put(1,2) len(1) f
    by (intro exI [of _ a']) (simp add: write_loop.simps [of conif buf p len] a1_def k_def Let_def)
qed

text \<open>
  C19: The UTF-8 decoder of the terminal. Bytes that continue the kept fragment to the encoding of a list of code points,
  followed by the beginning of one more character, have the effect of writing the code points, however the bytes are split
  among the calls: all bytes are consumed, the console and the state of the escape sequences end up as after
  \<^verbatim>\<open>wwrite\<close>, and the beginning of the last character is kept for the next call.
\<close>

theorem write_utf8:
  assumes "length (utf8_fragment_buf a) = 6" "utf8_fragment_len a \<le> 6" "unfinished (fragment a)"
    "fragment a @ bs = concat (map utf8 cs) @ tail" "list_all scalar cs" "unfinished tail"
    "wwrite conif cs (escape a, d) = Ok (STATUS_SUCCESS, e', d')"
  shows "\<exists>a'. ansiterm_write conif bs a d = Ok (STATUS_SUCCESS, Some (int (length bs)), a', d') \<and> escape a' = e' \<and> fragment a' = tail \<and>
     length (utf8_fragment_buf a') = 6 \<and> utf8_fragment_len a' \<le> 6"
proof -
  have r: "reading a bs 0 (int (length bs)) (concat (map utf8 cs) @ tail)" using assms by (simp add: reading_def)
  obtain e1 d1 where p: "put_chars conif cs (escape a, d) = Ok (0, e1, d1)" "call_flush conif (e1, d1) = Ok (0, e', d')"
    using assms(7) put_chars_success [of conif cs "(escape a, d)"]
    by (cases "put_chars conif cs (escape a, d)") (auto simp: wwrite_def check_then_def split: if_splits)
  obtain a' where a': "write_loop conif bs 0 (int (length bs)) 0 a d = Ok (0, int (length bs), a', d1)" "escape a' = e1" "fragment a' = tail"
      "length (utf8_fragment_buf a') = 6" "utf8_fragment_len a' \<le> 6"
    using write_loop_utf8 [OF r assms(5,6,3) p(1), of 0] by auto
  then show ?thesis using p(2) by (intro exI [of _ "a'\<lparr>escape := e'\<rparr>"]) (simp add: ansiterm_write_def fragment_def)
qed

theorem write_utf8_witness:
  "\<exists>a' d'. ansiterm_write vga_conif [0xA9, 72, 0xC3] (ansiterm_example\<lparr>utf8_fragment_buf := [0xC3, 0, 0, 0, 0, 0], utf8_fragment_len := 1\<rparr>) vga_example =
     Ok (STATUS_SUCCESS, Some 3, a', d') \<and> fragment a' = [0xC3]"
proof -
  let ?a = "ansiterm_example\<lparr>utf8_fragment_buf := [0xC3, 0, 0, 0, 0, 0], utf8_fragment_len := 1\<rparr>"
  have u: "unfinished [0xC3]" unfolding unfinished_def by (rule exI [of _ "0xE9"], rule exI [of _ 1]) code_simp
  have f: "fragment ?a = [0xC3]" by (simp add: fragment_def)
  have b: "fragment ?a @ [0xA9, 72, 0xC3] = concat (map utf8 [0xE9, 72]) @ [0xC3]" "list_all scalar [0xE9, 72]" by code_simp+
  have "case wwrite vga_conif [0xE9, 72] (escape ?a, vga_example) of Ok (st, _) \<Rightarrow> st = STATUS_SUCCESS | _ \<Rightarrow> False" by code_simp
  then obtain e' d' where w: "wwrite vga_conif [0xE9, 72] (escape ?a, vga_example) = Ok (STATUS_SUCCESS, e', d')"
    by (auto split: outcome.splits)
  show ?thesis using write_utf8 [OF _ _ _ b u w] u f by auto
qed

end
