(* ===== verification/AnsiSeq.thy ===== *)
theory AnsiSeq
  imports AnsiText
begin

text \<open>
  Escape sequences of the terminal, \<^verbatim>\<open>handle_esc\<close> and \<^verbatim>\<open>handle_csi\<close> of \<^verbatim>\<open>boot/device/char/ansiterm.c\<close>.  The
  first part is a type discipline for the state of the sequences that every operation keeps on every console; the second
  reads back the decimal arguments that a program prints, and follows a cursor address to the position on the screen.
\<close>

section \<open>The type of the state\<close>

text \<open>
  Eight arguments of the type \<^verbatim>\<open>int\<close>, a count of at most eight, and a number being read only when there is one.
\<close>

definition seq_ok :: "escape_data \<Rightarrow> bool" where
  "seq_ok e \<longleftrightarrow> length (escape_seq_args e) = 8 \<and> list_all (\<lambda>n. - (2 ^ 31) \<le> n \<and> n < 2 ^ 31) (escape_seq_args e) \<and>
     0 \<le> escape_seq_arg_count e \<and> escape_seq_arg_count e \<le> 8 \<and> (escape_seq_number_input e \<longrightarrow> 1 \<le> escape_seq_arg_count e)"

text \<open>A step of the terminal that ends with a state of that type, whatever its status.\<close>

definition typed :: "'d step \<Rightarrow> bool" where
  "typed m \<longleftrightarrow> opost (\<lambda>(st, t). seq_ok (fst t)) m"

section \<open>Decimal arguments\<close>

fun decimal :: "nat \<Rightarrow> int list" where
  "decimal n = (if n < 10 then [48 + int n] else decimal (n div 10) @ [48 + int (n mod 10)])"

declare decimal.simps [simp del]

fun arguments :: "nat list \<Rightarrow> int list" where
  "arguments [] = []"
| "arguments [n] = decimal n"
| "arguments (n # m # ns) = decimal n @ [59] @ arguments (m # ns)"

text \<open>The state inside a sequence that has the arguments \<open>ns\<close>, with a number being read or not.\<close>

definition csi :: "escape_data \<Rightarrow> nat list \<Rightarrow> bool \<Rightarrow> escape_data" where
  "csi e ns b = e\<lparr>escape_seq_args := map int ns @ replicate (8 - length ns) 0, escape_seq_arg_count := int (length ns),
     escape_seq_state := STATE_CSI, escape_seq_number_input := b\<rparr>"

section \<open>Every step is typed\<close>

named_theorems typed_intros

lemma to_int_range [simp]: "- 2147483648 \<le> to_int x" "to_int x < 2147483648"
  by (simp_all add: to_int_def)

lemma seq_ok_to_state [simp]: "seq_ok (fst (to_state s t)) = seq_ok (fst t)"
  by (simp add: to_state_def seq_ok_def)

lemma seq_ok_updates [simp]:
  "seq_ok (e\<lparr>attr_state := a\<rparr>) = seq_ok e"
  "seq_ok (e\<lparr>saved_cursor_x := x, saved_cursor_y := y\<rparr>) = seq_ok e"
  by (simp_all add: seq_ok_def)

lemma typed_return [typed_intros]: "seq_ok (fst t) \<Longrightarrow> typed (Ok (st, t))"
  by (simp add: typed_def)

lemma typed_Ok [simp]: "typed (Ok (st, e, d)) = seq_ok e"
  by (simp add: typed_def)

lemma typed_check [typed_intros]: "typed m \<Longrightarrow> (\<And>t. seq_ok (fst t) \<Longrightarrow> typed (f t)) \<Longrightarrow> typed (check_then m f)"
  by (cases m) (auto simp: typed_def check_then_def)

lemma typed_bind: "opost P m \<Longrightarrow> (\<And>a. P a \<Longrightarrow> typed (f a)) \<Longrightarrow> typed (obind m f)"
  by (cases m) (auto simp: typed_def)

lemma typed_step: "typed m \<Longrightarrow> (\<And>st t. seq_ok (fst t) \<Longrightarrow> typed (f st t)) \<Longrightarrow> typed (obind m (\<lambda>(st, t). f st t))"
  by (cases m) (auto simp: typed_def)

lemma typed_any [typed_intros]: "(\<And>a. typed (f a)) \<Longrightarrow> typed (obind m f)"
  by (rule typed_bind [of "\<lambda>_. True"]) (auto simp: opost_any)

lemma typed_calls [typed_intros]:
  "seq_ok (fst t) \<Longrightarrow> (\<And>x y. typed (f x y)) \<Longrightarrow> typed (with_cursor conif t f)"
  "seq_ok (fst t) \<Longrightarrow> (\<And>x y. typed (f x y)) \<Longrightarrow> typed (with_dimension conif t f)"
  "seq_ok (fst t) \<Longrightarrow> typed m \<Longrightarrow> typed (with_buffer conif t m)"
  by (auto simp: with_cursor_def with_dimension_def with_buffer_def Let_def typed_def split: prod.split)

lemma typed_device [typed_intros]:
  "seq_ok (fst t) \<Longrightarrow> typed (move_cursor conif x y t)"
  "seq_ok (fst t) \<Longrightarrow> typed (call_invalidate conif x0 y0 x1 y1 t)"
  "seq_ok (fst t) \<Longrightarrow> typed (call_flush conif t)"
  by (auto simp: move_cursor_def call_invalidate_def call_flush_def finish_def Let_def typed_def outcome_simps opost_def
      split: prod.splits)

lemma typed_if [typed_intros]: "typed m \<Longrightarrow> typed n \<Longrightarrow> typed (if c then m else n)"
  by simp

text \<open>The loops over cells change the device only.\<close>

lemma put_cell_escape: "put_cell conif i c t = Ok t' \<Longrightarrow> fst t' = fst t"
  by (auto simp: put_cell_def Let_def split: if_splits)

lemma copy_cell_escape: "copy_cell conif i j t = Ok t' \<Longrightarrow> fst t' = fst t"
  by (auto simp: copy_cell_def outcome_simps dest: put_cell_escape)

lemma ofold_keeps:
  assumes "\<And>x t t'. f x t = Ok t' \<Longrightarrow> fst t' = fst t"
  shows "ofold f xs t = Ok t' \<Longrightarrow> fst t' = fst t"
  using ofold_partial [of f xs t t' "\<lambda>u. fst u = fst t"] assms by metis

lemma typed_grid:
  assumes "\<And>y x t t'. g y x t = Ok t' \<Longrightarrow> fst t' = fst t" and "seq_ok (fst t)" and "\<And>t. seq_ok (fst t) \<Longrightarrow> typed (k t)"
  shows "typed (obind (ofold (\<lambda>y. ofold (g y) xs) ys t) k)"
proof (rule typed_bind [of "\<lambda>u. fst u = fst t"])
  have "ofold (g y) xs u = Ok u' \<Longrightarrow> fst u' = fst u" for y u u' by (rule ofold_keeps [OF assms(1)])
  then show "opost (\<lambda>u. fst u = fst t) (ofold (\<lambda>y. ofold (g y) xs) ys t)"
    unfolding opost_def using ofold_keeps [of "\<lambda>y. ofold (g y) xs" ys t] by blast
qed (use assms in auto)

lemma typed_erase [typed_intros]: "seq_ok (fst t) \<Longrightarrow> typed (console_erase conif x0 y0 x1 y1 t)"
  unfolding console_erase_def by (intro typed_intros typed_grid put_cell_escape) auto

lemma typed_scroll [typed_intros]:
  assumes "seq_ok (fst t)"
  shows "typed (console_scroll conif n x0 y0 x1 y1 t)"
proof -
  show ?thesis unfolding console_scroll_def
    by (intro typed_intros typed_grid copy_cell_escape typed_step) (use assms in \<open>auto intro: typed_intros\<close>)
qed

text \<open>The handlers.\<close>

lemma typed_putchar [typed_intros]:
  assumes "seq_ok (fst t)"
  shows "typed (console_putchar conif ch t)"
proof -
  have put: "typed (obind (put_cell conif i c u) k)" if "seq_ok (fst u)" "\<And>u. seq_ok (fst u) \<Longrightarrow> typed (k u)" for i c u k
    by (rule typed_bind [of "\<lambda>v. fst v = fst u"]) (use that in \<open>auto simp: opost_def dest: put_cell_escape\<close>)
  show ?thesis unfolding console_putchar_def Let_def using assms by (intro typed_any) (intro typed_intros put; simp)
qed

lemma typed_cursor [typed_intros]:
  assumes "seq_ok (fst t)"
  shows "typed (handle_cuu conif t)" "typed (handle_cud conif t)" "typed (handle_cuf conif t)" "typed (handle_cub conif t)"
    "typed (handle_cnl conif t)" "typed (handle_cpl conif t)" "typed (handle_cha conif t)" "typed (handle_cup_hvp conif t)"
    "typed (handle_scosc conif t)" "typed (handle_scorc conif t)" "typed (handle_dsr t)" "typed (handle_dectcem v conif t)"
  unfolding handle_cuu_def handle_cud_def handle_cuf_def handle_cub_def handle_cnl_def handle_cpl_def handle_cha_def
    handle_cup_hvp_def handle_scosc_def handle_scorc_def handle_dsr_def handle_dectcem_def Let_def
  using assms by (auto intro!: typed_intros split: prod.split)

lemma typed_screen [typed_intros]:
  assumes "seq_ok (fst t)"
  shows "typed (handle_ed conif t)" "typed (handle_el conif t)" "typed (handle_su conif t)" "typed (handle_sd conif t)" "typed (handle_sgr t)"
  unfolding handle_ed_def handle_el_def handle_su_def handle_sd_def handle_sgr_def Let_def
  using assms by (auto intro!: typed_intros)

lemma typed_arguments:
  assumes "seq_ok e"
  shows "0 \<le> d \<Longrightarrow> d \<le> 9 \<Longrightarrow> \<exists>e'. seq_digit d e = Ok e' \<and> seq_ok e'" "\<exists>e'. seq_question e = Ok e' \<and> seq_ok e'"
  using assms by (auto simp: seq_digit_def seq_question_def seq_ok_def Let_def list_all_length nth_list_update
      split: if_splits)

lemma typed_csi [typed_intros]:
  assumes "seq_ok (fst t)"
  shows "typed (handle_csi conif ch t)"
proof -
  have "typed (obind (seq_question (fst t)) (\<lambda>e. Ok (STATUS_SUCCESS, e, snd t)))"
    using typed_arguments(2) [OF assms] by (auto intro: typed_intros)
  moreover have "typed (obind (seq_digit (ch - 48) (fst t)) (\<lambda>e. Ok (STATUS_SUCCESS, e, snd t)))" if "48 \<le> ch" "ch \<le> 57"
    using typed_arguments(1) [OF assms, of "ch - 48"] that by (auto intro: typed_intros)
  moreover have "seq_ok ((fst t)\<lparr>escape_seq_number_input := False\<rparr>)" using assms by (simp add: seq_ok_def)
  ultimately show ?thesis unfolding handle_csi_def handle_dectcem_show_def handle_dectcem_hide_def
    using assms by (intro typed_check) (auto intro: typed_intros)
qed

lemma typed_esc [typed_intros]: "typed (handle_esc ch t)"
  unfolding handle_esc_def Let_def by (intro typed_intros) (simp, simp add: seq_ok_def list_all_iff)

lemma typed_next_row [typed_intros]:
  "seq_ok (fst t) \<Longrightarrow> (\<And>y t. seq_ok (fst t) \<Longrightarrow> typed (k y t)) \<Longrightarrow> typed (next_row conif w h y t k)"
  unfolding next_row_def by (intro typed_intros) auto

lemma typed_plain [typed_intros]:
  assumes "seq_ok (fst t)"
  shows "typed (put_plain conif ch w h x y t)"
proof -
  have "typed (check_then (console_putchar conif ch t) (\<lambda>t. if x + n < w then move_cursor conif (x + n) y t
      else next_row conif w h y t (\<lambda>y. move_cursor conif 0 y)))" if "seq_ok (fst t)" for x y n t
    using that by (intro typed_intros) auto
  then show ?thesis unfolding put_plain_def Let_def using assms by (intro typed_intros) auto
qed

lemma typed_backspace [typed_intros]:
  "seq_ok (fst t) \<Longrightarrow> (\<And>x. typed (k x)) \<Longrightarrow> typed (console_backspace conif t x k)"
  unfolding console_backspace_def by (intro typed_intros) (auto split: option.split)

lemma typed_put_char [typed_intros]:
  assumes "seq_ok (fst t)"
  shows "typed (put_char conif ch t)"
proof (cases "escape_seq_state (fst t) = STATE_DEFAULT")
  case True
  then show ?thesis unfolding put_char_def Let_def using assms by simp (intro typed_intros; simp)
next
  case False
  then show ?thesis unfolding put_char_def using assms by (cases "escape_seq_state (fst t)") (auto intro!: typed_intros)
qed

lemma typed_put_chars [typed_intros]: "seq_ok (fst t) \<Longrightarrow> typed (put_chars conif chs t)"
  by (induction chs arbitrary: t) (auto intro!: typed_intros)

section \<open>Arguments are read back\<close>

lemma put_chars_append: "put_chars conif (xs @ ys) t = check_then (put_chars conif xs t) (put_chars conif ys)"
proof (induction xs arbitrary: t)
  case (Cons x xs)
  then show ?case by (cases "put_char conif x t") (auto simp: check_then_def)
qed simp

lemma csi_digit:
  assumes "d < 10"
  shows "put_char conif (48 + int d) (csi e ns b, c) = obind (seq_digit (int d) (csi e ns b)) (\<lambda>e'. Ok (0, e', c))"
proof -
  have "to_char (48 + int d) = 48 + int d" using assms by (simp add: to_char_def)
  then show ?thesis using assms
    by (cases "seq_digit (int d) (csi e ns b)") (simp_all add: put_char_def handle_csi_def csi_def check_then_def)
qed

lemma csi_separator: "put_char conif 59 (csi e ns b, c) = Ok (0, csi e ns False, c)"
  by (simp add: put_char_def handle_csi_def csi_def to_char_def)

lemma digit_first:
  assumes "d < 10" "length ns < 8"
  shows "seq_digit (int d) (csi e ns False) = Ok (csi e (ns @ [d]) True)"
proof -
  have "replicate (8 - length ns) (0 :: int) = 0 # replicate (7 - length ns) 0"
    using assms(2) by (simp flip: replicate_Suc add: Suc_diff_le)
  then show ?thesis using assms by (simp add: seq_digit_def csi_def list_update_append nth_append)
qed

lemma digit_next:
  assumes "d < 10" "length ns < 7" "10 * q + d < 2 ^ 31"
  shows "seq_digit (int d) (csi e (ns @ [q]) True) = Ok (csi e (ns @ [10 * q + d]) True)"
  using assms by (simp add: seq_digit_def csi_def list_update_append nth_append)

lemma decimal_read:
  "length ns < 7 \<Longrightarrow> n < 2 ^ 31 \<Longrightarrow> put_chars conif (decimal n) (csi e ns False, c) = Ok (0, csi e (ns @ [n]) True, c)"
proof (induction n rule: decimal.induct)
  case (1 n)
  show ?case
  proof (cases "n < 10")
    case True
    then show ?thesis using 1 by (simp add: decimal.simps [of n] csi_digit digit_first)
  next
    case False
    then have "put_chars conif (decimal (n div 10)) (csi e ns False, c) = Ok (0, csi e (ns @ [n div 10]) True, c)" using 1 by simp
    then show ?thesis using False 1
      by (simp add: decimal.simps [of n] put_chars_append csi_digit digit_next del: decimal.simps)
  qed
qed

lemma arguments_read:
  "ms \<noteq> [] \<Longrightarrow> length ns + length ms \<le> 7 \<Longrightarrow> list_all (\<lambda>n. n < 2 ^ 31) ms \<Longrightarrow>
     put_chars conif (arguments ms) (csi e ns False, c) = Ok (0, csi e (ns @ ms) True, c)"
proof (induction ms arbitrary: ns rule: arguments.induct)
  case (3 n m ms)
  then show ?case by (simp add: put_chars_append decimal_read csi_separator)
qed (simp_all add: decimal_read)

context console begin

lemma csi_start:
  assumes d: "text_ok d" and e: "escape_seq_state e = STATE_DEFAULT"
  shows "\<exists>d'. put_chars conif [27, 91] (e, d) = Ok (0, csi e [] False, d') \<and> becomes d {} (view d) d'"
proof -
  obtain x y where c: "ok d" "snd (get_cursor_pos conif d) = (x, y)" "on_screen d x y" using d by (auto simp: text_ok_def)
  obtain d1 where d1: "move_cursor conif x y (to_state STATE_ESC (e, d)) = Ok (0, fst (to_state STATE_ESC (e, d)), d1)"
      "becomes d {} (cells d, x, y) d1"
    using move_ok [OF kept_refl [OF c(1)] c(3)] by (fastforce simp: to_state_def)
  have "put_char conif 27 (e, d) = Ok (0, fst (to_state STATE_ESC (e, d)), d1)"
    using d1(1) e by (simp add: put_char_def cursor_at [OF c(1,2)] dim_simps [OF c(1)])
  moreover have "put_char conif 91 (fst (to_state STATE_ESC (e, d)), d1) = Ok (0, csi e [] False, d1)"
    by (simp add: put_char_def handle_esc_def to_char_def to_state_def csi_def)
  ultimately show ?thesis using d1(2) c(2) by (auto simp: view_def)
qed

lemma csi_sequence:
  assumes "text_ok d" "escape_seq_state e = STATE_DEFAULT" "ns \<noteq> []" "length ns \<le> 7" "list_all (\<lambda>n. n < 2 ^ 31) ns"
  shows "\<exists>d'. put_chars conif ([27, 91] @ arguments ns @ [ch]) (e, d) = put_chars conif [ch] (csi e ns True, d') \<and> becomes d {} (view d) d'"
proof -
  obtain d' where d': "put_chars conif [27, 91] (e, d) = Ok (0, csi e [] False, d')" "becomes d {} (view d) d'"
    using csi_start [OF assms(1,2)] by blast
  show ?thesis
    using d'(2) arguments_read [OF assms(3) _ assms(5), of "[]" conif e d'] assms(4)
    unfolding put_chars_append d'(1) by (auto simp: put_chars_append simp del: put_chars.simps)
qed

lemma cursor_address:
  assumes d: "text_ok d" and e: "escape_seq_state e = STATE_DEFAULT" and "1 \<le> r" "int r \<le> height d" "1 \<le> k" "int k \<le> width d"
    and "r < 2 ^ 31" "k < 2 ^ 31"
  shows "\<exists>d'. put_chars conif ([27, 91] @ arguments [r, k] @ [72]) (e, d) =
      Ok (0, (csi e [r, k] True)\<lparr>escape_seq_state := STATE_DEFAULT\<rparr>, d') \<and> becomes d {} (cells d, int k - 1, int r - 1) d'"
proof -
  let ?e = "csi e [r, k] True"
  obtain d1 where d1: "put_chars conif ([27, 91] @ arguments [r, k] @ [72]) (e, d) = put_chars conif [72] (?e, d1)"
      "becomes d {} (view d) d1"
    using csi_sequence [OF d e, of "[r, k]" 72] assms by auto
  have b: "ok d1" "kept d1 {} d1" "on_screen d1 (int k - 1) (int r - 1)" "cells d1 = cells d"
    using d1(2) assms by (auto simp: becomes_def text_ok_def view_def on_screen_def kept_refl)
  obtain d2 where d2: "move_cursor conif (int k - 1) (int r - 1) (?e\<lparr>escape_seq_state := STATE_DEFAULT\<rparr>, d1) =
      Ok (0, ?e\<lparr>escape_seq_state := STATE_DEFAULT\<rparr>, d2)" "becomes d1 {} (cells d1, int k - 1, int r - 1) d2"
    using move_ok [OF b(2,3)] by blast
  obtain x y where xy: "snd (get_cursor_pos conif d1) = (x, y)" by (cases "snd (get_cursor_pos conif d1)")
  have "handle_cup_hvp conif (?e, d1) = Ok (0, ?e\<lparr>escape_seq_state := STATE_DEFAULT\<rparr>, d2)"
    using d2(1) assms(3,5,7,8) by (simp add: handle_cup_hvp_def cursor_at [OF b(1) xy] seq_arg_def csi_def to_state_def)
  moreover have "put_char conif 72 (?e, d1) = check_then (check_then (handle_cup_hvp conif (?e, d1)) (\<lambda>t. Ok (0, t))) (\<lambda>t. Ok (0, t))"
    by (simp add: put_char_def handle_csi_def csi_def to_char_def)
  ultimately have "put_chars conif [72] (?e, d1) = Ok (0, ?e\<lparr>escape_seq_state := STATE_DEFAULT\<rparr>, d2)" by simp
  then show ?thesis using d1 becomes_trans [OF d1(2) d2(2)] b(4) by auto
qed

end

text \<open>
  C20: Type.  On every console, whatever its functions return, and for every sequence of characters, the state of the escape
  sequences keeps its type: eight arguments in the range of \<^verbatim>\<open>int\<close>, a count between zero and eight, and a number
  being read only when there is an argument for it.  Inside a sequence every digit, separator and question mark is taken without
  an access outside the arguments, however many have come before.
\<close>

theorem escape_state_typed:
  assumes "seq_ok e"
  shows "opost (\<lambda>(st, e', d'). seq_ok e') (wwrite conif chs (e, d)) \<and>
    (\<forall>ch \<in> {48..59} \<union> {63}. \<exists>e'. put_char conif ch (e\<lparr>escape_seq_state := STATE_CSI\<rparr>, d) = Ok (STATUS_SUCCESS, e', d) \<and> seq_ok e')"
proof -
  let ?e = "e\<lparr>escape_seq_state := STATE_CSI\<rparr>"
  have e: "seq_ok ?e" "seq_ok (?e\<lparr>escape_seq_number_input := False\<rparr>)" using assms by (simp_all add: seq_ok_def)
  have "\<exists>e'. put_char conif ch (?e, d) = Ok (STATUS_SUCCESS, e', d) \<and> seq_ok e'" if ch: "ch \<in> {48..59} \<union> {63}" for ch
  proof -
    have "to_char ch = ch" using ch by (auto simp: to_char_def)
    then have p: "put_char conif ch (?e, d) = check_then (handle_csi conif ch (?e, d)) (\<lambda>t. Ok (STATUS_SUCCESS, t))"
      by (simp add: put_char_def)
    consider "ch = 63" | "ch = 58 \<or> ch = 59" | "48 \<le> ch" "ch \<le> 57" using ch by force
    then show ?thesis unfolding p
      using typed_arguments(2) [OF e(1)] typed_arguments(1) [OF e(1), of "ch - 48"] e(2) by cases (auto simp: handle_csi_def)
  qed
  moreover have "typed (wwrite conif chs (e, d))" unfolding wwrite_def using assms by (intro typed_intros) simp_all
  then have "opost (\<lambda>(st, e', d'). seq_ok e') (wwrite conif chs (e, d))" unfolding typed_def by (rule opost_weaken) auto
  ultimately show ?thesis by blast
qed

theorem escape_state_typed_witness:
  "seq_ok (escape ansiterm_example) \<and>
   opost (\<lambda>(st, e', d'). seq_ok e') (wwrite vga_conif [27, 91, 51, 56, 59, 109, 65] (escape ansiterm_example, vga_example))"
proof -
  have "seq_ok (escape ansiterm_example)" by code_simp
  then show ?thesis using escape_state_typed [of "escape ansiterm_example" vga_conif "[27, 91, 51, 56, 59, 109, 65]" vga_example] by blast
qed

text \<open>
  C21: Cursor addressing.  On the VGA console in the default state, the sequence \<^verbatim>\<open>ESC [ r ; c H\<close> with decimal numbers
  inside the screen puts the cursor into row \<open>r - 1\<close> and column \<open>c - 1\<close>, whatever earlier sequences have left in the arguments; cells,
  attributes and the saved cursor stay as they are and the terminal is back in the default state.
\<close>

theorem cursor_addressing:
  assumes "vga_ok d" "vga_get_dimension d = (STATUS_SUCCESS, w, h)" "w < 2 ^ 31" "h < 2 ^ 31"
    and "0 \<le> cursor_col d" "cursor_col d < w" "0 \<le> cursor_row d" "cursor_row d < h" and "escape_seq_state e = STATE_DEFAULT"
    and "1 \<le> r" "int r \<le> h" "1 \<le> c" "int c \<le> w"
  shows "\<exists>e' d'. put_chars vga_conif ([27, 91] @ decimal r @ [59] @ decimal c @ [72]) (e, d) = Ok (STATUS_SUCCESS, e', d') \<and>
    cursor_col d' = int c - 1 \<and> cursor_row d' = int r - 1 \<and> char_buffer d' = char_buffer d \<and> vga_ok d' \<and>
    escape_seq_state e' = STATE_DEFAULT \<and> attr_state e' = attr_state e \<and>
    saved_cursor_x e' = saved_cursor_x e \<and> saved_cursor_y e' = saved_cursor_y e"
proof -
  have n: "r < 2 ^ 31" "c < 2 ^ 31" using assms(3,4,11,13) by simp_all
  have t: "vga.text_ok d" using assms by (simp add: vga_text)
  have "buffer_cells vga_conif d = char_buffer d" by (simp add: vga_conif_def)
  then show ?thesis
    using vga.cursor_address [OF t assms(9,10) _ assms(12) _ n] assms by (auto simp: vga.becomes_def vga_text csi_def)
qed

theorem cursor_addressing_witness:
  "\<exists>e' d'. put_chars vga_conif [27, 91, 50, 59, 55, 72] (escape ansiterm_example, vga_example) = Ok (STATUS_SUCCESS, e', d') \<and>
     cursor_col d' = 6 \<and> cursor_row d' = 1"
proof -
  have h: "vga_ok vga_example" "vga_get_dimension vga_example = (STATUS_SUCCESS, 8, 2)" "escape_seq_state (escape ansiterm_example) = STATE_DEFAULT"
    "0 \<le> cursor_col vga_example" "cursor_col vga_example < 8" "0 \<le> cursor_row vga_example" "cursor_row vga_example < 2"
    by code_simp+
  show ?thesis using cursor_addressing [OF h(1,2) _ _ h(4-7) h(3), of 2 7] by (auto simp: decimal.simps)
qed

end
