(* ===== verification/BootFat.thy ===== *)
theory BootFat
  imports Stdlib
begin

text \<open>
  The FAT driver of the boot loader, \<^verbatim>\<open>boot/filesystem/fat/fat.c\<close>, which only reads, and the list of mounted file systems of
  \<^verbatim>\<open>boot/filesystem/fs.c\<close>.  The block device is reached through \<^verbatim>\<open>struct block_interface\<close>: \<open>dev_read lba n\<close> is the answer to a
  request for \<open>n\<close> blocks, a status and the bytes that were stored at the start of the buffer.  Reads and writes outside an
  object, and divisions by zero, are \<open>Fault\<close>.  Loops over chains of clusters have fuel, and running out of it is \<open>Hang\<close>:
  a cyclic chain keeps the driver busy for ever.
\<close>

section \<open>Devices and bytes\<close>

record block_device =
  dev_interface :: status
  dev_block_size :: "status \<times> u32"
  dev_read :: "int \<Rightarrow> nat \<Rightarrow> status \<times> u8 list"

definition store :: "u8 list \<Rightarrow> u8 list \<Rightarrow> u8 list outcome" where
  "store bs buf = (if length bs \<le> length buf then Ok (bs @ drop (length bs) buf) else Fault)"

definition byte_at :: "u8 list \<Rightarrow> nat \<Rightarrow> u8 outcome" where
  "byte_at buf i = (if i < length buf then Ok (buf ! i) else Fault)"

definition le16 :: "u8 list \<Rightarrow> nat \<Rightarrow> u16" where
  "le16 bs i = ucast (bs ! i) OR push_bit 8 (ucast (bs ! Suc i))"

definition le32 :: "u8 list \<Rightarrow> nat \<Rightarrow> u32" where
  "le32 bs i = ucast (le16 bs i) OR push_bit 16 (ucast (le16 bs (i + 2)))"

section \<open>The state of a mounted volume\<close>

datatype volume_type = FT_FAT12 | FT_FAT16 | FT_FAT32

text \<open>The three function pointers of the source are set together with \<open>fat_type\<close>, which stands for them.\<close>

record fat_data =
  reserved_sectors :: u16
  sector_size :: u16
  cluster_size :: u32
  sectors_per_cluster :: u8
  fat_type :: volume_type
  data_area_begin :: u32
  fat_size :: u32
  free_clusters :: u32
  next_free_cluster :: u32
  total_sector_count :: u32
  root_cluster :: u32
  root_entry_count :: u16
  root_sector_count :: u16
  fsinfo_sector :: u16
  fatbuf_lba :: int
  fatbuf :: "u8 list"
  databuf_lba_start :: int
  databuf :: "u8 list"

text \<open>A directory entry is kept as its 32 bytes.\<close>

record fat_dir_data =
  dir_head_cluster :: u32
  dir_current_cluster :: u32
  is_root :: bool
  current_entry_index :: nat
  dir_direntry :: "u8 list"

record fat_file_data =
  direntry_cluster :: u32
  direntry_entry_index :: nat
  file_direntry :: "u8 list"
  head_cluster :: u32
  current_cluster :: u32
  cursor :: u32

record fs_directory_entry =
  entry_name :: "u8 list"
  entry_size :: u64

definition de_attribute :: "u8 list \<Rightarrow> u8" where
  "de_attribute e = e ! 11"

definition de_attribute2 :: "u8 list \<Rightarrow> u8" where
  "de_attribute2 e = e ! 12"

definition de_cluster :: "u8 list \<Rightarrow> u32" where
  "de_cluster e = push_bit 16 (ucast (le16 e 20)) OR ucast (le16 e 26)"

definition de_size :: "u8 list \<Rightarrow> u32" where
  "de_size e = le32 e 28"

section \<open>Names\<close>

text \<open>
  \<^verbatim>\<open>validate_sfn\<close> and \<^verbatim>\<open>validate_lfn\<close>: a bit for each ASCII character.  Characters are signed; a negative one indexes
  the table before its start.  The loops test the character before the length.
\<close>

definition bitmap_allows :: "u32 list \<Rightarrow> int \<Rightarrow> bool outcome" where
  "bitmap_allows bitmap c =
     (if 0 \<le> c \<and> c < 128 then Ok (bit (bitmap ! nat (c div 32)) (nat (c mod 32))) else Fault)"

fun validate_sfn_loop :: "u8 list \<Rightarrow> nat \<Rightarrow> bool \<Rightarrow> bool outcome" where
  "validate_sfn_loop [] n has_dot = Fault"
| "validate_sfn_loop (c # cs) n has_dot =
     (if c = 0 \<or> n = 0 then Ok True
      else if c = 46 \<and> has_dot then Ok False
      else obind (bitmap_allows [0x00000000, 0x03FF237B, 0xC3FFFFFF, 0x68000001] (sint c)) (\<lambda>a.
        if \<not> a then Ok False else validate_sfn_loop cs (n - 1) (has_dot \<or> c = 46)))"

definition validate_sfn :: "u8 list \<Rightarrow> nat \<Rightarrow> bool outcome" where
  "validate_sfn str len =
     (if 0 < len \<and> str = [] then Fault
      else if 0 < len \<and> hd str = 46 then Ok False else validate_sfn_loop str len False)"

fun validate_lfn_loop :: "u8 list \<Rightarrow> nat \<Rightarrow> nat \<Rightarrow> bool outcome" where
  "validate_lfn_loop [] n i = Fault"
| "validate_lfn_loop (c # cs) n i =
     (if c = 0 \<or> n = 0 then Ok True
      else if 0x7F < i then validate_lfn_loop cs (n - 1) (Suc i)
      else obind (bitmap_allows [0x00000000, 0x23FF7BFB, 0xFFFFFFFF, 0x6FFFFFFF] (sint c)) (\<lambda>a.
        if \<not> a then Ok False else validate_lfn_loop cs (n - 1) (Suc i)))"

definition validate_lfn :: "u8 list \<Rightarrow> nat \<Rightarrow> bool outcome" where
  "validate_lfn str len =
     (if 0 < len \<and> str = [] then Fault
      else if 0 < len \<and> hd str = 46 then Ok False else validate_lfn_loop str len 0)"

text \<open>
  \<^verbatim>\<open>remove_right_padding\<close> copies from the right, writing nothing before the first character that is not a space; the
  result is the buffer and the length.
\<close>

fun padding_loop :: "u8 list \<Rightarrow> nat \<Rightarrow> nat \<Rightarrow> nat \<Rightarrow> u8 list \<Rightarrow> (u8 list \<times> nat) outcome" where
  "padding_loop orig dest_len 0 str_len dest = Ok (dest, str_len)"
| "padding_loop orig dest_len (Suc cur) str_len dest =
     obind (byte_at orig cur) (\<lambda>c.
       if str_len \<noteq> 0 then
         (if cur < length dest then padding_loop orig dest_len cur (Suc str_len) (dest[cur := c]) else Fault)
       else if c \<noteq> 32 then
         (if cur < length dest \<and> (cur < dest_len \<longrightarrow> Suc cur < length dest)
          then padding_loop orig dest_len cur 1 (if cur < dest_len then dest[cur := c, Suc cur := 0] else dest[cur := c])
          else Fault)
       else padding_loop orig dest_len cur 0 dest)"

definition remove_right_padding :: "u8 list \<Rightarrow> u8 list \<Rightarrow> nat \<Rightarrow> nat \<Rightarrow> (u8 list \<times> nat) outcome" where
  "remove_right_padding dest orig dest_len orig_len = padding_loop orig dest_len orig_len 0 dest"

text \<open>The bytes of one character, \<open>None\<close> when they do not fit; none at all at the end of a name.\<close>

definition ucs2_to_utf8 :: "nat \<Rightarrow> u16 \<Rightarrow> u8 list option" where
  "ucs2_to_utf8 len c =
     (if c = 0 \<or> c = 0xFFFF then Some []
      else if c < 0x7F then (if len < 1 then None else Some [ucast c])
      else if c < 0x7FF then
        (if len < 2 then None else Some [ucast (drop_bit 6 (c AND 0x07C0)) OR 0xC0, ucast (c AND 0x003F) OR 0x80])
      else if len < 3 then None
      else Some [ucast (drop_bit 12 (c AND 0xF000)) OR 0xE0, ucast (drop_bit 6 (c AND 0x0FC0)) OR 0x80, ucast (c AND 0x003F) OR 0x80])"

text \<open>A long name entry fills thirteen units of a buffer of 256.\<close>

definition lfn_units :: "u8 list \<Rightarrow> u16 list" where
  "lfn_units e = map (\<lambda>i. le16 e (1 + 2 * i)) [0..<5] @ map (\<lambda>i. le16 e (14 + 2 * i)) [0..<6] @ map (\<lambda>i. le16 e (28 + 2 * i)) [0..<2]"

definition get_lfn_filename :: "u8 list \<Rightarrow> u16 list \<Rightarrow> u16 list outcome" where
  "get_lfn_filename e buf =
     (let p = (uint (e ! 0 AND 0x1F) - 1) * 13; n = (if e ! 0 AND 0x40 \<noteq> 0 then 14 else 13) in
      if p < 0 \<or> length buf < nat p + n then Fault
      else Ok (take (nat p) buf @ take n (lfn_units e @ [0]) @ drop (nat p + n) buf))"

text \<open>The bytes written, the terminator included where it is written.\<close>

fun lfn_loop :: "u8 \<Rightarrow> u16 list \<Rightarrow> u8 list \<Rightarrow> u8 list outcome" where
  "lfn_loop fallback [] out = (if length out < 255 then Fault else Ok out)"
| "lfn_loop fallback (c # cs) out =
     (if length out < 255 then
        (case ucs2_to_utf8 (255 - length out) c of
           None \<Rightarrow> lfn_loop fallback cs (out @ [fallback])
         | Some [] \<Rightarrow> Ok (out @ [0])
         | Some bs \<Rightarrow> lfn_loop fallback cs (out @ bs))
      else Ok out)"

definition lfn_ucs2_to_utf8 :: "u16 list \<Rightarrow> bool \<Rightarrow> u8 \<Rightarrow> u8 list outcome" where
  "lfn_ucs2_to_utf8 ucs2buf allow_nonascii fallback =
     (if allow_nonascii then lfn_loop fallback ucs2buf []
      else if length ucs2buf < 256 then Fault
      else Ok (map (\<lambda>c. if c < 0x80 then ucast c else fallback) (take 256 ucs2buf) @ [0]))"

text \<open>The part of a short name up to its padding, in lower case where the entry says so.\<close>

fun sfn_part :: "bool \<Rightarrow> u8 list \<Rightarrow> u8 list outcome" where
  "sfn_part lower [] = Ok []"
| "sfn_part lower (c # cs) =
     (if c = 32 then Ok []
      else obind (if lower then tolower (sint c) else Ok (sint c)) (\<lambda>k.
        obind (sfn_part lower cs) (\<lambda>r. Ok (of_int k # r))))"

definition get_sfn_filename :: "u8 list \<Rightarrow> u8 list outcome" where
  "get_sfn_filename e =
     obind (sfn_part (de_attribute2 e AND 0x08 \<noteq> 0) (take 8 e)) (\<lambda>n.
     obind (sfn_part (de_attribute2 e AND 0x10 \<noteq> 0) (take 3 (drop 8 e))) (\<lambda>x.
       Ok (n @ (if e ! 8 \<noteq> 32 then [46] else []) @ x @ [0])))"

fun checksum_loop :: "u8 list \<Rightarrow> u8 \<Rightarrow> u8" where
  "checksum_loop [] chksum = chksum"
| "checksum_loop (c # cs) chksum = checksum_loop cs ((if chksum AND 1 \<noteq> 0 then 0x80 else 0) + drop_bit 1 chksum + c)"

definition get_sfn_checksum :: "u8 list \<Rightarrow> u8 outcome" where
  "get_sfn_checksum buf = (if length buf < 13 then Fault else Ok (checksum_loop (take 13 buf) 0))"

text \<open>\<^verbatim>\<open>strncmp\<close> and \<^verbatim>\<open>strncasecmp\<close>: \<open>n\<close> characters are compared by a key, then the difference of the bytes that are reached.\<close>

fun compare_loop :: "(u8 \<Rightarrow> int outcome) \<Rightarrow> nat \<Rightarrow> u8 list \<Rightarrow> u8 list \<Rightarrow> int outcome" where
  "compare_loop key n (a # as) (b # bs) =
     (if n = 0 \<or> a = 0 then Ok (uint a - uint b)
      else obind (key a) (\<lambda>x. obind (key b) (\<lambda>y. if x \<noteq> y then Ok (uint a - uint b) else compare_loop key (n - 1) as bs)))"
| "compare_loop key n _ _ = Fault"

definition compare_limit :: "nat \<Rightarrow> nat" where
  "compare_limit maxlen = (if maxlen = 0 then 2 ^ 32 - 1 else maxlen - 1)"

definition strncmp :: "u8 list \<Rightarrow> u8 list \<Rightarrow> nat \<Rightarrow> int outcome" where
  "strncmp p1 p2 maxlen = compare_loop (\<lambda>c. Ok (sint c)) (compare_limit maxlen) p1 p2"

definition strcmp :: "u8 list \<Rightarrow> u8 list \<Rightarrow> int outcome" where
  "strcmp p1 p2 = strncmp p1 p2 (2 ^ 32 - 1)"

definition strncasecmp :: "u8 list \<Rightarrow> u8 list \<Rightarrow> nat \<Rightarrow> int outcome" where
  "strncasecmp p1 p2 maxlen = compare_loop (\<lambda>c. toupper (sint c)) (compare_limit maxlen) p1 p2"

section \<open>Sectors and clusters\<close>

definition read_fat :: "block_device \<Rightarrow> u32 \<Rightarrow> fat_data \<Rightarrow> (status \<times> fat_data) outcome" where
  "read_fat dev fat_sector v =
     (let lba = uint (ucast (reserved_sectors v) + fat_sector) in
      if fatbuf_lba v = lba then Ok (STATUS_SUCCESS, v)
      else let (st, bs) = dev_read dev lba 1 in
        obind (store bs (fatbuf v)) (\<lambda>buf.
          if \<not> CHECK_SUCCESS st then Ok (st, v\<lparr>fatbuf := buf\<rparr>)
          else Ok (STATUS_SUCCESS, v\<lparr>fatbuf := buf, fatbuf_lba := lba\<rparr>)))"

definition boot_sector_to_cluster :: "fat_data \<Rightarrow> int \<Rightarrow> u32 outcome" where
  "boot_sector_to_cluster v lba =
     (let begin = uint (data_area_begin v) + (if fat_type v = FT_FAT32 then 0 else uint (root_sector_count v)) in
      if sectors_per_cluster v = 0 then Fault
      else Ok (of_int (cdiv (lba - begin) (uint (sectors_per_cluster v)) + 2)))"

definition fatcluster_to_sector :: "fat_data \<Rightarrow> u32 \<Rightarrow> int" where
  "fatcluster_to_sector v cluster =
     uint ((cluster - 2) * ucast (sectors_per_cluster v) + data_area_begin v +
       (if fat_type v = FT_FAT32 then 0 else ucast (root_sector_count v)))"

definition fill_databuf :: "block_device \<Rightarrow> int \<Rightarrow> nat \<Rightarrow> fat_data \<Rightarrow> (status \<times> fat_data) outcome" where
  "fill_databuf dev lba n v =
     (if databuf_lba_start v = lba then Ok (STATUS_SUCCESS, v)
      else let (st, bs) = dev_read dev lba n in
        obind (store bs (databuf v)) (\<lambda>buf.
          if \<not> CHECK_SUCCESS st then Ok (st, v\<lparr>databuf := buf\<rparr>)
          else Ok (STATUS_SUCCESS, v\<lparr>databuf := buf, databuf_lba_start := lba\<rparr>)))"

definition read_sector :: "block_device \<Rightarrow> int \<Rightarrow> fat_data \<Rightarrow> (status \<times> fat_data) outcome" where
  "read_sector dev lba v = fill_databuf dev lba 1 v"

definition read_cluster :: "block_device \<Rightarrow> u32 \<Rightarrow> fat_data \<Rightarrow> (status \<times> fat_data) outcome" where
  "read_cluster dev cluster v = fill_databuf dev (fatcluster_to_sector v cluster) (unat (sectors_per_cluster v)) v"

section \<open>Chains of clusters\<close>

text \<open>One round of each of the three loops: the entry of the table for a cluster.\<close>

type_synonym table_read = "u32 \<Rightarrow> fat_data \<Rightarrow> (status \<times> u32 \<times> fat_data) outcome"

definition fat_byte :: "block_device \<Rightarrow> u32 \<Rightarrow> nat \<Rightarrow> (u8 \<Rightarrow> fat_data \<Rightarrow> (status \<times> u32 \<times> fat_data) outcome) \<Rightarrow> table_read" where
  "fat_byte dev sector i k cluster v =
     obind (read_fat dev sector v) (\<lambda>(st, v).
       if \<not> CHECK_SUCCESS st then Ok (st, cluster, v) else obind (byte_at (fatbuf v) i) (\<lambda>b. k b v))"

definition entry12 :: "u32 \<Rightarrow> u8 \<Rightarrow> u8 \<Rightarrow> u32" where
  "entry12 cluster b0 b1 =
     (if cluster AND 1 \<noteq> 0 then drop_bit 4 (ucast b0 AND 0xF0) OR push_bit 4 (ucast b1)
      else ucast b0 OR push_bit 8 (ucast b1 AND 0x0F))"

definition next12 :: "block_device \<Rightarrow> table_read" where
  "next12 dev cluster v =
     (let byte_idx = ucast (cluster + drop_bit 1 cluster) :: u16; size = sector_size v in
      if size = 0 then Fault
      else let sector_idx = byte_idx div size; byte_idx = byte_idx mod size in
        fat_byte dev (ucast sector_idx) (unat byte_idx) (\<lambda>b0 v.
          if byte_idx = size - 1
          then fat_byte dev (ucast sector_idx + 1) 0 (\<lambda>b1 v. Ok (STATUS_SUCCESS, entry12 cluster b0 b1, v)) cluster v
          else obind (byte_at (fatbuf v) (Suc (unat byte_idx))) (\<lambda>b1. Ok (STATUS_SUCCESS, entry12 cluster b0 b1, v))) cluster v)"

text \<open>An element of \<open>n\<close> bytes of the table read as an array.\<close>

definition table_element :: "block_device \<Rightarrow> nat \<Rightarrow> (u8 list \<Rightarrow> nat \<Rightarrow> u32) \<Rightarrow> table_read" where
  "table_element dev n get cluster v =
     (let per_sector = ucast (sector_size v) div of_nat n in
      if per_sector = 0 then Fault
      else obind (read_fat dev (cluster div per_sector) v) (\<lambda>(st, v).
        if \<not> CHECK_SUCCESS st then Ok (st, cluster, v)
        else let i = n * unat (cluster mod per_sector) in
          if length (fatbuf v) < i + n then Fault else Ok (STATUS_SUCCESS, get (fatbuf v) i, v)))"

definition next16 :: "block_device \<Rightarrow> table_read" where
  "next16 dev = table_element dev 2 (\<lambda>buf i. ucast (le16 buf i))"

definition next32 :: "block_device \<Rightarrow> table_read" where
  "next32 dev = table_element dev 4 (\<lambda>buf i. le32 buf i AND 0x0FFFFFFF)"

text \<open>The cluster is an in-out parameter: the result has its last value, the end mark included.\<close>

fun cluster_loop :: "table_read \<Rightarrow> u32 \<Rightarrow> nat \<Rightarrow> table_read" where
  "cluster_loop entry limit 0 cluster v = Ok (STATUS_SUCCESS, cluster, v)"
| "cluster_loop entry limit (Suc n) cluster v =
     obind (entry cluster v) (\<lambda>(st, c, v).
       if \<not> CHECK_SUCCESS st then Ok (st, cluster, v)
       else if limit < c then Ok (STATUS_END_OF_LIST, c, v)
       else cluster_loop entry limit n c v)"

definition next_checked :: "table_read \<Rightarrow> u32 \<Rightarrow> nat \<Rightarrow> table_read" where
  "next_checked entry limit count cluster v =
     (if limit < cluster then Ok (STATUS_INVALID_VALUE, cluster, v) else cluster_loop entry limit count cluster v)"

definition get_next_cluster12 :: "block_device \<Rightarrow> nat \<Rightarrow> table_read" where
  "get_next_cluster12 dev = next_checked (next12 dev) 0xFF4"

definition get_next_cluster16 :: "block_device \<Rightarrow> nat \<Rightarrow> table_read" where
  "get_next_cluster16 dev = next_checked (next16 dev) 0xFFF4"

definition get_next_cluster32 :: "block_device \<Rightarrow> nat \<Rightarrow> table_read" where
  "get_next_cluster32 dev = next_checked (next32 dev) 0x0FFFFFF6"

definition get_next_cluster :: "block_device \<Rightarrow> nat \<Rightarrow> table_read" where
  "get_next_cluster dev count cluster v =
     (case fat_type v of FT_FAT12 \<Rightarrow> get_next_cluster12 dev count cluster v
      | FT_FAT16 \<Rightarrow> get_next_cluster16 dev count cluster v
      | FT_FAT32 \<Rightarrow> get_next_cluster32 dev count cluster v)"

section \<open>Files\<close>

text \<open>\<open>out\<close> are the bytes stored in the buffer of the caller; their number is the result.\<close>

lemma part_of_cluster:
  fixes size off len :: u32
  assumes "len \<noteq> 0" "size \<noteq> 0"
  shows "0 < min (size - off mod size) len" "min (size - off mod size) len \<le> len"
proof -
  have "off mod size < size" using assms(2) by (simp add: word_mod_less_divisor word_gt_0)
  then have "size - off mod size \<noteq> 0" by auto
  then show "0 < min (size - off mod size) len" using assms(1) by (simp add: min_def word_gt_0)
  show "min (size - off mod size) len \<le> len" by simp
qed

lemma part_shrinks: "len \<noteq> 0 \<Longrightarrow> size \<noteq> 0 \<Longrightarrow> unat (len - min (size - off mod size) len) < unat len" for size off len :: u32
  using part_of_cluster [of len size off] by (metis unat_sub_if' word_less_nat_alt word_sub_le word_le_nat_alt diff_less unat_gt_0 word_gt_0 unat_sub)

function read_loop :: "block_device \<Rightarrow> u32 \<Rightarrow> u8 list \<Rightarrow> fat_file_data \<Rightarrow> fat_data \<Rightarrow> (status \<times> u8 list \<times> fat_file_data \<times> fat_data) outcome" where
  "read_loop dev len out f v =
     (if len = 0 then Ok (STATUS_SUCCESS, out, f, v)
      else if cluster_size v = 0 then Fault
      else
        let off = cursor f mod cluster_size v; read_len = min (cluster_size v - off) len; size = cluster_size v in
        obind (read_cluster dev (current_cluster f) v) (\<lambda>(st, v).
          if \<not> CHECK_SUCCESS st then Ok (st, out, f, v)
          else if length (databuf v) < unat off + unat read_len then Fault
          else
            let out = out @ take (unat read_len) (drop (unat off) (databuf v)); f = f\<lparr>cursor := cursor f + read_len\<rparr>; len = len - read_len
            in if off + read_len < size then read_loop dev len out f v
               else obind (get_next_cluster dev 1 (current_cluster f) v) (\<lambda>(st, c, v).
                 if \<not> CHECK_SUCCESS st then Ok (STATUS_SUCCESS, out, f\<lparr>current_cluster := c\<rparr>, v)
                 else read_loop dev len out (f\<lparr>current_cluster := c\<rparr>) v)))"
  by pat_completeness auto
termination by (relation "measure (\<lambda>(dev, len, out, f, v). unat len)") (auto simp: part_shrinks)

declare read_loop.simps [simp del]

definition fat_read :: "block_device \<Rightarrow> u32 \<Rightarrow> fat_file_data \<Rightarrow> fat_data \<Rightarrow> (status \<times> nat option \<times> u8 list \<times> fat_file_data \<times> fat_data) outcome" where
  "fat_read dev len f v =
     (let size = de_size (file_direntry f) in
      if size \<le> cursor f then Ok (STATUS_END_OF_FILE, None, [], f, v)
      else
        let len = (if size \<le> cursor f + len then size - cursor f else len)
        in obind (read_loop dev len [] f v) (\<lambda>(st, out, f, v).
          Ok (st, if CHECK_SUCCESS st then Some (length out) else None, out, f, v)))"

datatype seek_origin = SEEK_SET | SEEK_CUR | SEEK_END | SEEK_OTHER

definition fat_seek :: "block_device \<Rightarrow> int \<Rightarrow> seek_origin \<Rightarrow> fat_file_data \<Rightarrow> fat_data \<Rightarrow> (status \<times> fat_file_data \<times> fat_data) outcome" where
  "fat_seek dev offset origin f v =
     (let size = uint (de_size (file_direntry f));
          new_cursor = (case origin of SEEK_CUR \<Rightarrow> uint (cursor f) + offset | SEEK_END \<Rightarrow> size + offset | _ \<Rightarrow> offset)
      in if origin = SEEK_OTHER \<or> new_cursor < 0 then Ok (STATUS_INVALID_VALUE, f, v)
         else
           let new_cursor = min new_cursor size
           in if cluster_size v = 0 then Fault
              else obind (get_next_cluster dev (nat (new_cursor div uint (cluster_size v))) (head_cluster f) v) (\<lambda>(st, c, v).
                if \<not> CHECK_SUCCESS st then Ok (st, f, v)
                else Ok (STATUS_SUCCESS, f\<lparr>current_cluster := c, cursor := of_int new_cursor\<rparr>, v)))"

definition fat_tell :: "fat_file_data \<Rightarrow> status \<times> int" where
  "fat_tell f = (STATUS_SUCCESS, uint (cursor f))"

section \<open>Directories\<close>

datatype scan = Scan_end | Scan_found | Scan_next

text \<open>The inner loop over the entries of the block in the buffer, from index \<open>i\<close> on.\<close>

function scan_block :: "u8 list \<Rightarrow> bool \<Rightarrow> nat \<Rightarrow> nat \<Rightarrow> u16 list \<Rightarrow> bool \<Rightarrow> (scan \<times> nat \<times> u16 list \<times> bool) outcome" where
  "scan_block buf root per_block i lfn is_lfn =
     (if per_block = 0 then (if root then Fault else Ok (Scan_next, i, lfn, is_lfn))
      else if root \<or> i < per_block then
        let p = 32 * (i mod per_block); e = take 32 (drop p buf);
            skip = (\<lambda>lfn is_lfn. if Suc i mod per_block = 0 then Ok (Scan_next, Suc i, lfn, is_lfn)
              else scan_block buf root per_block (Suc i) lfn is_lfn)
        in if length buf < p + 32 then Fault
           else if e ! 0 = 0 then Ok (Scan_end, i, lfn, is_lfn)
           else if e ! 0 = 0xE5 then skip lfn is_lfn
           else if de_attribute e AND 0x0F = 0x0F then obind (get_lfn_filename e lfn) (\<lambda>lfn. skip lfn True)
           else if de_attribute e AND 0x08 \<noteq> 0 then skip lfn False
           else Ok (Scan_found, i, lfn, is_lfn)
      else Ok (Scan_next, i, lfn, is_lfn))"
  by pat_completeness auto
termination
proof (relation "measure (\<lambda>(buf, root, per_block, i, lfn, is_lfn). per_block - i mod per_block)", goal_cases)
  case (2 buf root per_block i)
  then have "Suc i mod per_block = Suc (i mod per_block)" by (simp add: mod_Suc split: if_splits)
  moreover have "i mod per_block < per_block" using 2 by simp
  ultimately show ?case by simp
qed simp

declare scan_block.simps [simp del]

definition is_rootdir :: "fat_dir_data \<Rightarrow> fat_data \<Rightarrow> bool" where
  "is_rootdir d v \<longleftrightarrow> fat_type v \<noteq> FT_FAT32 \<and> dir_head_cluster d = 0"

definition entries_per_block :: "fat_dir_data \<Rightarrow> fat_data \<Rightarrow> nat" where
  "entries_per_block d v = unat (if is_rootdir d v then sector_size v else ucast (cluster_size v)) div 32"

definition fetch_block :: "block_device \<Rightarrow> fat_dir_data \<Rightarrow> fat_data \<Rightarrow> (status \<times> fat_dir_data \<times> fat_data) outcome" where
  "fetch_block dev d v =
     (let i = current_entry_index d; n = entries_per_block d v in
      if is_rootdir d v then
        if n = 0 then Fault
        else if unat (root_sector_count v) \<le> i div n then Ok (STATUS_END_OF_LIST, d, v)
        else obind (read_sector dev (uint (data_area_begin v + of_nat (i div n))) v) (\<lambda>(st, v). Ok (st, d, v))
      else
        obind (if n \<le> i then get_next_cluster dev 1 (dir_current_cluster d) v else Ok (STATUS_SUCCESS, dir_current_cluster d, v))
          (\<lambda>(st, c, v).
            if \<not> CHECK_SUCCESS st then Ok (st, d, v)
            else
              let d = (if n \<le> i then d\<lparr>current_entry_index := 0\<rparr> else d)
              in obind (read_cluster dev c v) (\<lambda>(st, v).
                if \<not> CHECK_SUCCESS st then Ok (st, d, v) else Ok (STATUS_SUCCESS, d\<lparr>dir_current_cluster := c\<rparr>, v))))"

fun iter_loop :: "block_device \<Rightarrow> nat \<Rightarrow> u16 list \<Rightarrow> bool \<Rightarrow> fat_dir_data \<Rightarrow> fat_data \<Rightarrow>
    (status \<times> (u16 list \<times> bool) option \<times> fat_dir_data \<times> fat_data) outcome" where
  "iter_loop dev 0 lfn is_lfn d v = Hang"
| "iter_loop dev (Suc fuel) lfn is_lfn d v =
     obind (fetch_block dev d v) (\<lambda>(st, d, v).
       if \<not> CHECK_SUCCESS st then Ok (st, None, d, v)
       else obind (scan_block (databuf v) (is_rootdir d v) (entries_per_block d v) (current_entry_index d) lfn is_lfn)
         (\<lambda>(k, i, lfn, is_lfn).
           let d = d\<lparr>current_entry_index := i\<rparr>
           in case k of
                Scan_end \<Rightarrow> Ok (STATUS_END_OF_LIST, None, d, v)
              | Scan_found \<Rightarrow> Ok (STATUS_SUCCESS, Some (lfn, is_lfn), d, v)
              | Scan_next \<Rightarrow> iter_loop dev fuel lfn is_lfn d v))"

text \<open>Memory that is not initialised: the buffer for long names, a directory entry on the stack, a fresh object.\<close>

record memory =
  stack_lfn :: "u16 list"
  stack_entry :: fs_directory_entry
  heap_dir :: fat_dir_data

text \<open>The entry that was found is read again at its index, without reducing it to the block.\<close>

definition iter_directory :: "block_device \<Rightarrow> nat \<Rightarrow> memory \<Rightarrow> fs_directory_entry \<Rightarrow> fat_dir_data \<Rightarrow> fat_data \<Rightarrow>
    (status \<times> fs_directory_entry \<times> fat_dir_data \<times> fat_data) outcome" where
  "iter_directory dev fuel m entry d v =
     obind (iter_loop dev fuel (stack_lfn m) False d v) (\<lambda>(st, r, d, v). case r of
       None \<Rightarrow> Ok (st, entry, d, v)
     | Some (lfn, is_lfn) \<Rightarrow>
         let p = 32 * current_entry_index d; e = take 32 (drop p (databuf v)) in
         if length (databuf v) < p + 32 then Fault
         else obind (if is_lfn then lfn_ucs2_to_utf8 lfn True 63 else get_sfn_filename e) (\<lambda>bs.
           obind (store bs (entry_name entry)) (\<lambda>name.
             Ok (STATUS_SUCCESS, \<lparr>entry_name = name, entry_size = ucast (de_size e)\<rparr>,
                 d\<lparr>dir_direntry := e, current_entry_index := Suc (current_entry_index d)\<rparr>, v))))"

definition rewind_directory :: "fat_dir_data \<Rightarrow> fat_dir_data" where
  "rewind_directory d = d\<lparr>dir_current_cluster := dir_head_cluster d, current_entry_index := 0, dir_direntry := replicate 32 0\<rparr>"

fun match_loop :: "block_device \<Rightarrow> nat \<Rightarrow> nat \<Rightarrow> memory \<Rightarrow> u8 list \<Rightarrow> fs_directory_entry \<Rightarrow> fat_dir_data \<Rightarrow> fat_data \<Rightarrow>
    (status \<times> fs_directory_entry \<times> fat_dir_data \<times> fat_data) outcome" where
  "match_loop dev blocks 0 m name entry d v = Hang"
| "match_loop dev blocks (Suc fuel) m name entry d v =
     obind (iter_directory dev blocks m entry d v) (\<lambda>(st, entry, d, v).
       if st \<noteq> STATUS_SUCCESS then Ok (STATUS_ENTRY_NOT_FOUND, entry, d, v)
       else obind (strncasecmp name (entry_name entry) 256) (\<lambda>r.
         if r = 0 then Ok (STATUS_SUCCESS, entry, d, v) else match_loop dev blocks fuel m name entry d v))"

definition match_name :: "block_device \<Rightarrow> nat \<Rightarrow> nat \<Rightarrow> memory \<Rightarrow> u8 list \<Rightarrow> fs_directory_entry \<Rightarrow> fat_dir_data \<Rightarrow> fat_data \<Rightarrow>
    (status \<times> fs_directory_entry \<times> fat_dir_data \<times> fat_data) outcome" where
  "match_name dev blocks fuel m name entry d v = match_loop dev blocks fuel m name entry (rewind_directory d) v"

text \<open>\<open>oom\<close> are the answers of the two allocations, true for none.\<close>

definition fat_open :: "block_device \<Rightarrow> nat \<Rightarrow> nat \<Rightarrow> memory \<Rightarrow> bool \<times> bool \<Rightarrow> u8 list \<Rightarrow> fat_dir_data \<Rightarrow> fat_data \<Rightarrow>
    (status \<times> fat_file_data option \<times> fat_dir_data \<times> fat_data) outcome" where
  "fat_open dev blocks fuel m oom name d v =
     obind (match_name dev blocks fuel m name (stack_entry m) d v) (\<lambda>(st, entry, d, v).
       if \<not> CHECK_SUCCESS st then Ok (st, None, d, v)
       else if de_attribute (dir_direntry d) AND 0x10 \<noteq> 0 then Ok (STATUS_WRONG_ELEMENT_TYPE, None, d, v)
       else if fst oom \<or> snd oom then Ok (STATUS_UNKNOWN_ERROR, None, d, v)
       else Ok (STATUS_SUCCESS, Some \<lparr>direntry_cluster = dir_current_cluster d, direntry_entry_index = current_entry_index d,
              file_direntry = dir_direntry d, head_cluster = de_cluster (dir_direntry d),
              current_cluster = de_cluster (dir_direntry d), cursor = 0\<rparr>, d, v))"

definition fat_open_root_directory :: "memory \<Rightarrow> bool \<times> bool \<Rightarrow> fat_data \<Rightarrow> status \<times> fat_dir_data option" where
  "fat_open_root_directory m oom v =
     (if fst oom \<or> snd oom then (STATUS_UNKNOWN_ERROR, None)
      else let head = (if fat_type v = FT_FAT32 then root_cluster v else 0)
           in (STATUS_SUCCESS, Some ((heap_dir m)\<lparr>is_root := True, dir_head_cluster := head, dir_current_cluster := head, current_entry_index := 0\<rparr>)))"

definition fat_open_directory :: "block_device \<Rightarrow> nat \<Rightarrow> nat \<Rightarrow> memory \<Rightarrow> bool \<times> bool \<Rightarrow> u8 list \<Rightarrow> fat_dir_data \<Rightarrow> fat_data \<Rightarrow>
    (status \<times> fat_dir_data option \<times> fat_dir_data \<times> fat_data) outcome" where
  "fat_open_directory dev blocks fuel m oom name d v =
     obind (if is_root d then obind (strcmp [46, 0] name) (\<lambda>r. if r = 0 then Ok True
              else obind (strcmp [46, 46, 0] name) (\<lambda>r. Ok (r = 0))) else Ok False) (\<lambda>dots.
       if dots then (case fat_open_root_directory m oom v of (st, r) \<Rightarrow> Ok (st, r, d, v))
       else obind (match_name dev blocks fuel m name (stack_entry m) d v) (\<lambda>(st, entry, d, v).
         if \<not> CHECK_SUCCESS st then Ok (st, None, d, v)
         else if de_attribute (dir_direntry d) AND 0x10 = 0 then Ok (STATUS_WRONG_ELEMENT_TYPE, None, d, v)
         else if fst oom \<or> snd oom then Ok (STATUS_UNKNOWN_ERROR, None, d, v)
         else
           let c = de_cluster (dir_direntry d); head = (if c = 0 then root_cluster v else c)
           in Ok (STATUS_SUCCESS, Some ((heap_dir m)\<lparr>dir_head_cluster := head, is_root := (c = 0), dir_current_cluster := head,
                current_entry_index := 0\<rparr>), d, v)))"

section \<open>The list of file systems\<close>

text \<open>
  \<^verbatim>\<open>boot/filesystem/fs.c\<close>: the list from \<^verbatim>\<open>fs_list_head\<close> on, each object with the number that stands for its address.  The
  search for a predecessor in \<^verbatim>\<open>filesystem_remove\<close> never finds one for the first element.
\<close>

record filesystem =
  fs_addr :: nat
  fs_name :: "u8 list"

fun filesystem_find :: "u8 list \<Rightarrow> filesystem list \<Rightarrow> (status \<times> filesystem option) outcome" where
  "filesystem_find name [] = Ok (STATUS_ENTRY_NOT_FOUND, None)"
| "filesystem_find name (f # fs) =
     obind (strncmp (fs_name f) name 64) (\<lambda>r. if r = 0 then Ok (STATUS_SUCCESS, Some f) else filesystem_find name fs)"

text \<open>\<^verbatim>\<open>strncpy\<close> into cleared memory; \<open>new\<close> is the address of the new object, none when memory is exhausted.\<close>

definition copied_name :: "u8 list \<Rightarrow> u8 list outcome" where
  "copied_name name =
     (let n = length (takeWhile (\<lambda>c. c \<noteq> 0) name) in
      if n = length name \<and> n < 63 then Fault else Ok (take 63 (take n name @ replicate 64 0) @ [0]))"

definition filesystem_create :: "nat option \<Rightarrow> u8 list \<Rightarrow> filesystem list \<Rightarrow> (status \<times> filesystem option \<times> filesystem list) outcome" where
  "filesystem_create new name fs =
     obind (filesystem_find name fs) (\<lambda>(st, _).
       if CHECK_SUCCESS st then Ok (STATUS_DUPLICATE_ENTRY, None, fs)
       else case new of
         None \<Rightarrow> Ok (STATUS_UNKNOWN_ERROR, None, fs)
       | Some a \<Rightarrow> obind (copied_name name) (\<lambda>n.
           let f = \<lparr>fs_addr = a, fs_name = n\<rparr> in Ok (STATUS_SUCCESS, Some f, fs @ [f])))"

definition filesystem_remove :: "filesystem \<Rightarrow> filesystem list \<Rightarrow> filesystem list" where
  "filesystem_remove f fs = (case fs of [] \<Rightarrow> [] | g # gs \<Rightarrow> g # filter (\<lambda>h. fs_addr h \<noteq> fs_addr f) gs)"

section \<open>Probing and mounting\<close>

definition fs_type_is :: "u8 list \<Rightarrow> nat \<Rightarrow> u8 list \<Rightarrow> bool outcome" where
  "fs_type_is bpb offset text = obind (strncmp (drop offset bpb) text 8) (\<lambda>r. Ok (r = 0))"

text \<open>The checks of the boot sector: the signature and one of the three type names.\<close>

definition FAT12_FSTYPE_STR :: "u8 list" where "FAT12_FSTYPE_STR = [70, 65, 84, 49, 50, 32, 32, 32, 0]"
definition FAT16_FSTYPE_STR :: "u8 list" where "FAT16_FSTYPE_STR = [70, 65, 84, 49, 54, 32, 32, 32, 0]"
definition FAT32_FSTYPE_STR :: "u8 list" where "FAT32_FSTYPE_STR = [70, 65, 84, 51, 50, 32, 32, 32, 0]"

definition bpb_signed :: "u8 list \<Rightarrow> bool outcome" where
  "bpb_signed bpb =
     (if le16 bpb 510 \<noteq> 0xAA55 then Ok False
      else obind (fs_type_is bpb 54 FAT12_FSTYPE_STR) (\<lambda>a. if a then Ok True
        else obind (fs_type_is bpb 54 FAT16_FSTYPE_STR) (\<lambda>a. if a then Ok True
          else fs_type_is bpb 82 FAT32_FSTYPE_STR)))"

text \<open>A block read into a local variable, which has 512 bytes.\<close>

definition read_block :: "block_device \<Rightarrow> int \<Rightarrow> (u8 list \<Rightarrow> 'r outcome) \<Rightarrow> (status \<Rightarrow> 'r outcome) \<Rightarrow> 'r outcome" where
  "read_block dev lba k fail =
     (let (st, bs) = dev_read dev lba 1 in
      if 512 < length bs then Fault else if \<not> CHECK_SUCCESS st then fail st else if length bs < 512 then Fault else k bs)"

definition boot_bpb_fat_size :: "u8 list \<Rightarrow> u32" where
  "boot_bpb_fat_size bpb = (if le16 bpb 22 \<noteq> 0 then ucast (le16 bpb 22) else le32 bpb 36)"

definition boot_bpb_total_sectors :: "u8 list \<Rightarrow> u32" where
  "boot_bpb_total_sectors bpb = (if le16 bpb 19 \<noteq> 0 then ucast (le16 bpb 19) else le32 bpb 32)"

definition boot_bpb_data_begin :: "u8 list \<Rightarrow> u32" where
  "boot_bpb_data_begin bpb = ucast (le16 bpb 14) + ucast (bpb ! 16) * boot_bpb_fat_size bpb"

definition boot_bpb_root_sectors :: "u8 list \<Rightarrow> u32 outcome" where
  "boot_bpb_root_sectors bpb =
     (let size = ucast (le16 bpb 11) :: u32 in if size = 0 then Fault else Ok ((ucast (le16 bpb 17) * 32 + (size - 1)) div size))"

definition clusters_of :: "u8 list \<Rightarrow> u32 \<Rightarrow> u32 outcome" where
  "clusters_of bpb root_sectors =
     (if bpb ! 13 = 0 then Fault else Ok ((boot_bpb_total_sectors bpb - boot_bpb_data_begin bpb - root_sectors) div ucast (bpb ! 13)))"

definition fat_probe :: "block_device option \<Rightarrow> status outcome" where
  "fat_probe blkdev = (case blkdev of None \<Rightarrow> Ok STATUS_INVALID_VALUE
   | Some dev \<Rightarrow>
       if \<not> CHECK_SUCCESS (dev_interface dev) then Ok (dev_interface dev)
       else if \<not> CHECK_SUCCESS (fst (dev_block_size dev)) then Ok (fst (dev_block_size dev))
       else if snd (dev_block_size dev) \<noteq> 512 then Ok STATUS_SIZE_CHECK_FAILURE
       else read_block dev 0 (\<lambda>bpb.
         obind (bpb_signed bpb) (\<lambda>signed.
         if \<not> signed then Ok STATUS_INVALID_SIGNATURE
         else obind (boot_bpb_root_sectors bpb) (\<lambda>root_sectors. obind (clusters_of bpb root_sectors) (\<lambda>cluster_count.
           if 0xFFF4 < cluster_count then
             read_block dev (uint (le16 bpb 48)) (\<lambda>fsinfo.
               Ok (if le32 fsinfo 0 \<noteq> 0x41615252 \<or> le32 fsinfo 484 \<noteq> 0x61417272 \<or> le16 fsinfo 510 \<noteq> 0xAA55
                   then STATUS_INVALID_SIGNATURE else STATUS_SUCCESS)) Ok
           else Ok STATUS_SUCCESS)))) Ok)"

text \<open>
  \<open>fresh\<close> is the memory of the new object before its initialisation and \<open>oom\<close> the answers of the two allocations; the
  buffer for clusters is \<open>junk\<close> cut to its size.  The result has the volume on success; \<^verbatim>\<open>*fsout\<close> is never assigned.
\<close>

definition volume_of :: "u8 list \<Rightarrow> u32 \<Rightarrow> u32 \<Rightarrow> u8 list \<Rightarrow> fat_data \<Rightarrow> fat_data" where
  "volume_of bpb root_sectors cluster_count buf fresh =
     fresh\<lparr>sector_size := le16 bpb 11, sectors_per_cluster := bpb ! 13, cluster_size := ucast (le16 bpb 11) * ucast (bpb ! 13),
       root_entry_count := le16 bpb 17, reserved_sectors := le16 bpb 14, root_sector_count := ucast root_sectors,
       fat_size := boot_bpb_fat_size bpb, total_sector_count := boot_bpb_total_sectors bpb, data_area_begin := boot_bpb_data_begin bpb,
       databuf := buf, databuf_lba_start := - 1,
       fat_type := (if cluster_count \<le> 0xFF4 then FT_FAT12 else if cluster_count \<le> 0xFFF4 then FT_FAT16 else FT_FAT32)\<rparr>"

definition fat_mount :: "nat option \<Rightarrow> bool \<times> bool \<Rightarrow> (nat \<Rightarrow> u8 list) \<Rightarrow> fat_data \<Rightarrow> block_device option \<Rightarrow> u8 list \<Rightarrow> filesystem list \<Rightarrow>
    (status \<times> fat_data option \<times> filesystem list) outcome" where
  "fat_mount new oom junk fresh blkdev name fs = (case blkdev of None \<Rightarrow> Ok (STATUS_INVALID_VALUE, None, fs)
   | Some dev \<Rightarrow>
       if \<not> CHECK_SUCCESS (dev_interface dev) then Ok (dev_interface dev, None, fs)
       else if \<not> CHECK_SUCCESS (fst (dev_block_size dev)) then Ok (fst (dev_block_size dev), None, fs)
       else if snd (dev_block_size dev) \<noteq> 512 then Ok (STATUS_SIZE_CHECK_FAILURE, None, fs)
       else obind (filesystem_create new name fs) (\<lambda>(st, f, fs). case f of None \<Rightarrow> Ok (st, None, fs)
       | Some f \<Rightarrow>
           let has_error = (\<lambda>st. Ok (st, None, filesystem_remove f fs)) in
           if fst oom then has_error STATUS_UNKNOWN_ERROR
           else read_block dev 0 (\<lambda>bpb.
             obind (bpb_signed bpb) (\<lambda>signed.
             if \<not> signed then has_error STATUS_INVALID_SIGNATURE
             else obind (boot_bpb_root_sectors bpb) (\<lambda>root_sectors.
               obind (clusters_of bpb (ucast (ucast root_sectors :: u16))) (\<lambda>cluster_count.
                 if snd oom then has_error STATUS_UNKNOWN_ERROR
                 else
                   let v = volume_of bpb root_sectors cluster_count (junk (unat (ucast (le16 bpb 11) * ucast (bpb ! 13) :: u32))) fresh
                   in if fat_type v = FT_FAT32 then
                        let v = v\<lparr>root_cluster := le32 bpb 44, fsinfo_sector := le16 bpb 48\<rparr>
                        in read_block dev (uint (le16 bpb 48)) (\<lambda>fsinfo.
                             Ok (STATUS_SUCCESS, Some (v\<lparr>free_clusters := le32 fsinfo 488, next_free_cluster := le32 fsinfo 492\<rparr>), fs))
                           (\<lambda>st. Ok (st, None, fs))
                      else Ok (STATUS_SUCCESS, Some v, fs))))) has_error))"

end
