(* ===== verification/FatVolume.thy ===== *)
theory FatVolume
  imports BootFat
begin

text \<open>
  FAT volumes on a disk, as the driver of the boot loader reads them: the reference for table entries and chains of clusters,
  without regard to sectors and caches, and the lemmas that the cached accesses of \<^verbatim>\<open>boot/filesystem/fat/fat.c\<close> agree with it.
\<close>

section \<open>The volume on the disk\<close>

text \<open>A device of \<open>n\<close> blocks with the given contents that answers all requests.\<close>

definition disk_blocks :: "(int \<Rightarrow> u8 list) \<Rightarrow> int \<Rightarrow> nat \<Rightarrow> u8 list" where
  "disk_blocks disk lba k = concat (map (\<lambda>i. disk (lba + int i)) [0..<k])"

definition serves :: "block_device \<Rightarrow> (int \<Rightarrow> u8 list) \<Rightarrow> int \<Rightarrow> bool" where
  "serves dev disk n \<longleftrightarrow> n < 2 ^ 32 \<and> (\<forall>lba. length (disk lba) = 512) \<and>
     (\<forall>lba k. 0 \<le> lba \<longrightarrow> lba + int k \<le> n \<longrightarrow> dev_read dev lba k = (STATUS_SUCCESS, disk_blocks disk lba k))"

definition data_first :: "fat_data \<Rightarrow> int" where
  "data_first v = uint (data_area_begin v) + (if fat_type v = FT_FAT32 then 0 else uint (root_sector_count v))"

text \<open>
  The layout of a volume, and the two buffers: each holds the blocks that its tag names.  The buffer for clusters may hold a
  single sector of the root directory in front of the clusters.
\<close>

definition layout_ok :: "int \<Rightarrow> fat_data \<Rightarrow> bool" where
  "layout_ok n v \<longleftrightarrow> sector_size v = 512 \<and> sectors_per_cluster v \<noteq> 0 \<and> cluster_size v = 512 * ucast (sectors_per_cluster v) \<and>
     uint (reserved_sectors v) + uint (fat_size v) \<le> uint (data_area_begin v) \<and> data_first v \<le> n"

definition buffers_ok :: "(int \<Rightarrow> u8 list) \<Rightarrow> int \<Rightarrow> fat_data \<Rightarrow> bool" where
  "buffers_ok disk n v \<longleftrightarrow> length (fatbuf v) = 512 \<and> length (databuf v) = 512 * unat (sectors_per_cluster v) \<and>
     (0 \<le> fatbuf_lba v \<and> fatbuf_lba v < n \<longrightarrow> fatbuf v = disk (fatbuf_lba v)) \<and>
     (data_first v \<le> databuf_lba_start v \<and> databuf_lba_start v < n \<longrightarrow> databuf v = disk_blocks disk (databuf_lba_start v) (unat (sectors_per_cluster v))) \<and>
     (uint (data_area_begin v) \<le> databuf_lba_start v \<and> databuf_lba_start v < data_first v \<longrightarrow> take 512 (databuf v) = disk (databuf_lba_start v))"

definition vol_ok :: "block_device \<Rightarrow> (int \<Rightarrow> u8 list) \<Rightarrow> int \<Rightarrow> fat_data \<Rightarrow> bool" where
  "vol_ok dev disk n v \<longleftrightarrow> serves dev disk n \<and> layout_ok n v \<and> buffers_ok disk n v"

text \<open>What reading leaves alone: everything but the buffers.\<close>

definition geometry :: "fat_data \<Rightarrow> fat_data" where
  "geometry v = v\<lparr>fatbuf := [], fatbuf_lba := 0, databuf := [], databuf_lba_start := 0\<rparr>"

definition cluster_limit :: "fat_data \<Rightarrow> u32" where
  "cluster_limit v = (case fat_type v of FT_FAT12 \<Rightarrow> 0xFF4 | FT_FAT16 \<Rightarrow> 0xFFF4 | FT_FAT32 \<Rightarrow> 0x0FFFFFF6)"

text \<open>The reference for table entries: the bytes of the table without regard to sectors.\<close>

definition table_byte :: "(int \<Rightarrow> u8 list) \<Rightarrow> fat_data \<Rightarrow> nat \<Rightarrow> u8" where
  "table_byte disk v k = disk (uint (reserved_sectors v) + int (k div 512)) ! (k mod 512)"

definition entry_offset :: "fat_data \<Rightarrow> u32 \<Rightarrow> nat" where
  "entry_offset v c = (case fat_type v of FT_FAT12 \<Rightarrow> unat c + unat c div 2 | FT_FAT16 \<Rightarrow> 2 * unat c | FT_FAT32 \<Rightarrow> 4 * unat c)"

definition entry_bytes :: "fat_data \<Rightarrow> nat" where
  "entry_bytes v = (case fat_type v of FT_FAT12 \<Rightarrow> 2 | FT_FAT16 \<Rightarrow> 2 | FT_FAT32 \<Rightarrow> 4)"

definition fat_entry :: "(int \<Rightarrow> u8 list) \<Rightarrow> fat_data \<Rightarrow> u32 \<Rightarrow> u32" where
  "fat_entry disk v c =
     (let bs = map (table_byte disk v) [entry_offset v c..<entry_offset v c + entry_bytes v] in
      case fat_type v of FT_FAT12 \<Rightarrow> entry12 c (bs ! 0) (bs ! 1)
      | FT_FAT16 \<Rightarrow> ucast (le16 bs 0) | FT_FAT32 \<Rightarrow> le32 bs 0 AND 0x0FFFFFFF)"

definition cluster_lba :: "fat_data \<Rightarrow> u32 \<Rightarrow> int" where
  "cluster_lba v c = data_first v + (uint c - 2) * uint (sectors_per_cluster v)"

definition good_cluster :: "int \<Rightarrow> fat_data \<Rightarrow> u32 \<Rightarrow> bool" where
  "good_cluster n v c \<longleftrightarrow> 2 \<le> c \<and> c \<le> cluster_limit v \<and> cluster_lba v c + uint (sectors_per_cluster v) \<le> n \<and>
     entry_offset v c + entry_bytes v \<le> 512 * unat (fat_size v)"

fun chain :: "(int \<Rightarrow> u8 list) \<Rightarrow> int \<Rightarrow> fat_data \<Rightarrow> u32 \<Rightarrow> u32 list \<Rightarrow> bool" where
  "chain disk n v c [] \<longleftrightarrow> cluster_limit v < c"
| "chain disk n v c (x # xs) \<longleftrightarrow> x = c \<and> good_cluster n v c \<and> chain disk n v (fat_entry disk v c) xs"

definition cluster_bytes :: "(int \<Rightarrow> u8 list) \<Rightarrow> fat_data \<Rightarrow> u32 \<Rightarrow> u8 list" where
  "cluster_bytes disk v c = disk_blocks disk (cluster_lba v c) (unat (sectors_per_cluster v))"

definition chain_bytes :: "(int \<Rightarrow> u8 list) \<Rightarrow> fat_data \<Rightarrow> u32 list \<Rightarrow> u8 list" where
  "chain_bytes disk v cs = concat (map (cluster_bytes disk v) cs)"

text \<open>
  A volume of eight sectors with a table of 12-bit entries: a file in clusters 2 and 3, and a directory in cluster 4 that has a deleted
  entry and the entry of the file.
\<close>

definition example_entry :: "u8 list" where
  "example_entry = [65, 32, 32, 32, 32, 32, 32, 32, 84, 88, 84, 0x20, 0x18, 0, 0, 0, 0, 0, 0, 0, 0, 0, 0, 0, 0, 0, 2, 0, 0x58, 0x02, 0, 0]"

definition example_disk :: "int \<Rightarrow> u8 list" where
  "example_disk lba =
     (if lba = 1 then [0, 0, 0, 0x03, 0xF0, 0xFF, 0xFF, 0x0F] @ replicate 504 0
      else if lba = 3 then replicate 512 0x61 else if lba = 4 then replicate 512 0x62
      else if lba = 5 then 0xE5 # replicate 31 0 @ example_entry @ replicate 448 0
      else replicate 512 0)"

definition example_device :: block_device where
  "example_device = \<lparr>dev_interface = STATUS_SUCCESS, dev_block_size = (STATUS_SUCCESS, 512),
     dev_read = (\<lambda>lba k. (STATUS_SUCCESS, disk_blocks example_disk lba k))\<rparr>"

definition example_volume :: fat_data where
  "example_volume = \<lparr>reserved_sectors = 1, sector_size = 512, cluster_size = 512, sectors_per_cluster = 1, fat_type = FT_FAT12,
     data_area_begin = 2, fat_size = 1, free_clusters = 0, next_free_cluster = 0, total_sector_count = 8, root_cluster = 0,
     root_entry_count = 16, root_sector_count = 1, fsinfo_sector = 0, fatbuf_lba = - 1, fatbuf = replicate 512 0,
     databuf_lba_start = - 1, databuf = replicate 512 0\<rparr>"

section \<open>Lemmas\<close>

lemma length_blocks: "serves dev disk n \<Longrightarrow> length (disk_blocks disk lba k) = 512 * k"
proof -
  assume "serves dev disk n"
  then have "length (disk i) = 512" for i by (simp add: serves_def)
  then show ?thesis by (induction k) (simp_all add: disk_blocks_def)
qed

lemma blocks_1 [simp]: "disk_blocks disk lba 1 = disk lba" "disk_blocks disk lba (Suc 0) = disk lba"
  by (simp_all add: disk_blocks_def)

lemma geometry_eq: "geometry v' = geometry v \<longleftrightarrow> (\<exists>a b c d. v' = v\<lparr>fatbuf := a, fatbuf_lba := b, databuf := c, databuf_lba_start := d\<rparr>)"
proof
  assume g: "geometry v' = geometry v"
  have "v' = (geometry v')\<lparr>fatbuf := fatbuf v', fatbuf_lba := fatbuf_lba v', databuf := databuf v', databuf_lba_start := databuf_lba_start v'\<rparr>"
    by (simp add: geometry_def)
  then show "\<exists>a b c d. v' = v\<lparr>fatbuf := a, fatbuf_lba := b, databuf := c, databuf_lba_start := d\<rparr>"
    unfolding g by (auto simp: geometry_def)
qed (auto simp: geometry_def)

lemma geometry_fields:
  assumes "geometry v' = geometry v"
  shows "sector_size v' = sector_size v" "sectors_per_cluster v' = sectors_per_cluster v" "cluster_size v' = cluster_size v" "fat_type v' = fat_type v"
    "data_area_begin v' = data_area_begin v" "root_sector_count v' = root_sector_count v" "reserved_sectors v' = reserved_sectors v" "fat_size v' = fat_size v"
  using assms unfolding geometry_eq by auto

lemma geometryD:
  assumes g: "geometry v' = geometry v"
  shows "data_first v' = data_first v" "cluster_limit v' = cluster_limit v" "cluster_lba v' = cluster_lba v" "good_cluster n v' = good_cluster n v"
    "fat_entry disk v' = fat_entry disk v" "cluster_bytes disk v' = cluster_bytes disk v" "layout_ok n v' = layout_ok n v"
    "fatcluster_to_sector v' c = fatcluster_to_sector v c"
proof -
  note f = geometry_fields [OF g]
  have t: "table_byte disk v' = table_byte disk v" by (simp add: fun_eq_iff table_byte_def f)
  have o: "entry_offset v' = entry_offset v" "entry_bytes v' = entry_bytes v" by (simp_all add: fun_eq_iff entry_offset_def entry_bytes_def f)
  show d: "data_first v' = data_first v" by (simp add: data_first_def f)
  show l: "cluster_limit v' = cluster_limit v" by (simp add: cluster_limit_def f)
  show c: "cluster_lba v' = cluster_lba v" by (simp add: fun_eq_iff cluster_lba_def f d)
  show "good_cluster n v' = good_cluster n v" by (simp add: fun_eq_iff good_cluster_def f l c o)
  show "fat_entry disk v' = fat_entry disk v" by (simp only: fun_eq_iff fat_entry_def f t o) simp
  show "cluster_bytes disk v' = cluster_bytes disk v" by (simp add: fun_eq_iff cluster_bytes_def f c)
  show "layout_ok n v' = layout_ok n v" by (simp add: layout_ok_def f d)
  show "fatcluster_to_sector v' c = fatcluster_to_sector v c" for c by (simp add: fatcluster_to_sector_def f)
qed

lemma geometry_chain: "geometry v' = geometry v \<Longrightarrow> chain disk n v' c cs = chain disk n v c cs"
proof (induction cs arbitrary: c)
  case Nil
  then show ?case by (simp add: geometryD(2) [OF Nil])
next
  case (Cons x xs)
  then show ?case by (simp add: geometryD(4,5) [OF Cons.prems])
qed

lemma geometry_chain_bytes: "geometry v' = geometry v \<Longrightarrow> chain_bytes disk v' cs = chain_bytes disk v cs"
proof -
  assume g: "geometry v' = geometry v"
  show ?thesis by (simp add: chain_bytes_def geometryD(6) [OF g])
qed

definition reads_to :: "block_device \<Rightarrow> (int \<Rightarrow> u8 list) \<Rightarrow> int \<Rightarrow> fat_data \<Rightarrow> fat_data \<Rightarrow> bool" where
  "reads_to dev disk n v v' \<longleftrightarrow> vol_ok dev disk n v' \<and> geometry v' = geometry v"

lemma reads_to_refl: "vol_ok dev disk n v \<Longrightarrow> reads_to dev disk n v v"
  by (simp add: reads_to_def)

lemma reads_to_trans: "reads_to dev disk n v v1 \<Longrightarrow> reads_to dev disk n v1 v2 \<Longrightarrow> reads_to dev disk n v v2"
  by (simp add: reads_to_def)

lemma store_all: "length bs = length buf \<Longrightarrow> store bs buf = Ok bs"
  by (simp add: store_def)

lemma word_sum: "uint a + uint b < 2 ^ 32 \<Longrightarrow> uint (a + b) = uint a + uint b" for a b :: u32
  by (simp add: uint_word_ariths(1))

lemma unat_u32_of: "int k < 2 ^ 32 \<Longrightarrow> uint (of_nat k :: u32) = int k"
  by (simp add: unsigned_of_nat take_bit_nat_eq_self flip: of_nat_take_bit)

lemma read_fat_ok:
  assumes ok: "vol_ok dev disk n v" and k: "k < unat (fat_size v)"
  shows "\<exists>v'. read_fat dev (of_nat k) v = Ok (STATUS_SUCCESS, v') \<and> reads_to dev disk n v v' \<and> fatbuf v' = disk (uint (reserved_sectors v) + int k)"
proof -
  let ?lba = "uint (reserved_sectors v) + int k"
  have s: "serves dev disk n" and l: "layout_ok n v" and b: "buffers_ok disk n v" using ok by (simp_all add: vol_ok_def)
  have "data_first v \<ge> uint (data_area_begin v)" by (simp add: data_first_def)
  moreover have "int k < uint (fat_size v)" using k by (metis uint_nat of_nat_less_iff)
  ultimately have r: "?lba < n" using l unfolding layout_ok_def by linarith
  have n: "n < 2 ^ 32" using s by (simp add: serves_def)
  have "int k < 2 ^ 32" using r n uint_ge_0 [of "reserved_sectors v"] by linarith
  then have lba: "uint (ucast (reserved_sectors v) + of_nat k :: u32) = ?lba"
    using r n word_sum [of "ucast (reserved_sectors v)" "of_nat k"] unat_u32_of [of k] by (simp add: uint_up_ucast is_up)
  have read: "dev_read dev ?lba 1 = (STATUS_SUCCESS, disk ?lba)" using s r unfolding serves_def by simp
  have 5: "length (disk ?lba) = 512" using s by (simp add: serves_def)
  show ?thesis
  proof (cases "fatbuf_lba v = ?lba")
    case True
    then have "fatbuf v = disk ?lba" using b r unfolding buffers_ok_def by auto
    then show ?thesis using True ok lba by (auto simp: read_fat_def reads_to_refl)
  next
    case False
    let ?v = "v\<lparr>fatbuf := disk ?lba, fatbuf_lba := ?lba\<rparr>"
    have g: "geometry ?v = geometry v" by (simp add: geometry_def)
    have "buffers_ok disk n ?v" using b 5 geometry_fields [OF g] geometryD(1) [OF g] unfolding buffers_ok_def by simp
    then have "reads_to dev disk n v ?v" using s l g geometryD(7) [OF g] by (simp add: reads_to_def vol_ok_def)
    moreover have "store (disk ?lba) (fatbuf v) = Ok (disk ?lba)" using b 5 by (intro store_all) (simp add: buffers_ok_def)
    ultimately show ?thesis using False lba read by (auto simp: read_fat_def Let_def)
  qed
qed

lemma fat_byte_ok:
  assumes ok: "vol_ok dev disk n v" and k: "sector < unat (fat_size v)" "i < 512"
  shows "\<exists>v'. (\<forall>f c. fat_byte dev (of_nat sector) i f c v = f (table_byte disk v (512 * sector + i)) v') \<and> reads_to dev disk n v v' \<and>
     fatbuf v' = disk (uint (reserved_sectors v) + int sector)"
proof -
  obtain v' where v': "read_fat dev (of_nat sector) v = Ok (STATUS_SUCCESS, v')" "reads_to dev disk n v v'" "fatbuf v' = disk (uint (reserved_sectors v) + int sector)"
    using read_fat_ok [OF ok k(1)] by auto
  moreover have "(512 * sector + i) div 512 = sector" "(512 * sector + i) mod 512 = i" using k(2) by simp_all
  moreover have "i < length (fatbuf v')" using v'(2) k(2) by (simp add: reads_to_def vol_ok_def buffers_ok_def)
  ultimately show ?thesis by (auto simp: fat_byte_def byte_at_def table_byte_def)
qed

lemma next12_ok:
  assumes ok: "vol_ok dev disk n v" and g: "good_cluster n v c" and t: "fat_type v = FT_FAT12"
  shows "\<exists>v'. next12 dev c v = Ok (STATUS_SUCCESS, fat_entry disk v c, v') \<and> reads_to dev disk n v v'"
proof -
  define k where "k = unat c + unat c div 2"
  have c: "unat c \<le> 0xFF4" using g t by (simp add: good_cluster_def cluster_limit_def word_le_nat_alt)
  then have k1: "k < 0x17F0" by (simp add: k_def)
  have e: "k + 2 \<le> 512 * unat (fat_size v)" using g t by (simp add: good_cluster_def entry_offset_def entry_bytes_def k_def)
  have s: "sector_size v = 512" using ok by (simp add: vol_ok_def layout_ok_def)
  have "unat (c + drop_bit 1 c) = k" using c by (simp add: unat_word_ariths drop_bit_eq_div unat_div k_def)
  define b where "b = (ucast (c + drop_bit 1 c) :: u16)"
  have "unat b = k" using k1 \<open>unat (c + drop_bit 1 c) = k\<close> by (simp add: b_def unsigned_ucast_eq take_bit_nat_eq_self)
  have d: "unat (b div 512) = k div 512" "unat (b mod 512) = k mod 512" using \<open>unat b = k\<close> by (simp_all add: unat_div unat_mod)
  have u: "ucast (b div 512) = (of_nat (k div 512) :: u32)" by (simp flip: d(1))
  have m: "b mod 512 = 511 \<longleftrightarrow> k mod 512 = 511" using d(2) by (simp add: word_unat_eq_iff)
  have z: "(512 :: u16) \<noteq> 0" "(512 :: u16) - 1 = 511" by simp_all
  note fe = fat_entry_def entry_offset_def entry_bytes_def t k_def [symmetric]
  have lt: "k div 512 < unat (fat_size v)" "k mod 512 < 512" using e by auto
  obtain v1 where v1: "\<And>f c. fat_byte dev (of_nat (k div 512)) (k mod 512) f c v = f (table_byte disk v k) v1" "reads_to dev disk n v v1"
      "fatbuf v1 = disk (uint (reserved_sectors v) + int (k div 512))"
    using fat_byte_ok [OF ok lt] by auto
  have e1: "fat_entry disk v c = entry12 c (table_byte disk v k) (table_byte disk v (Suc k))" by (simp add: fe)
  show ?thesis
  proof (cases "k mod 512 = 511")
    case True
    then have k2: "Suc k = 512 * Suc (k div 512)" using div_mult_mod_eq [of k 512] by simp
    have l1: "Suc (k div 512) < unat (fat_size v1)" using e k2 geometry_fields(8) [of v1 v] v1(2) by (simp add: reads_to_def)
    have t1: "table_byte disk v1 j = table_byte disk v j" for j using geometry_fields(7) [of v1 v] v1(2) by (simp add: reads_to_def table_byte_def)
    obtain v2 where v2: "\<And>f c. fat_byte dev (of_nat (Suc (k div 512))) 0 f c v1 = f (table_byte disk v (Suc k)) v2" "reads_to dev disk n v1 v2"
      using fat_byte_ok [OF _ l1, of dev disk n 0] v1(2) k2 t1 by (auto simp: reads_to_def)
    then show ?thesis using v1 True m e1 reads_to_trans [OF v1(2) v2(2)] unfolding next12_def s Let_def b_def [symmetric] u d z(2) using z(1) by (simp add: add.commute)
  next
    case False
    then have "Suc k div 512 = k div 512" "Suc k mod 512 = Suc (k mod 512)" by (simp_all add: div_Suc mod_Suc)
    moreover have "Suc (k mod 512) < 512" using False lt(2) by simp
    moreover have "length (fatbuf v1) = 512" using v1(2) by (simp add: reads_to_def vol_ok_def buffers_ok_def)
    ultimately have "byte_at (fatbuf v1) (Suc (k mod 512)) = Ok (table_byte disk v (Suc k))" using v1(3) by (simp add: byte_at_def table_byte_def)
    then show ?thesis using v1 False m e1 unfolding next12_def s Let_def b_def [symmetric] u d z(2) using z(1) by simp
  qed
qed

lemma aligned: "j < k \<Longrightarrow> (k * q + j) div (k * m) = q div m \<and> (k * q + j) mod (k * m) = k * (q mod m) + j" for j k q m :: nat
  by (simp add: div_mult2_eq mod_mult2_eq)

lemma table_element_ok:
  assumes ok: "vol_ok dev disk n v" and k: "k = 2 \<or> k = 4" and e: "k * unat c + k \<le> 512 * unat (fat_size v)"
  shows "\<exists>v'. table_element dev k get c v =
      Ok (STATUS_SUCCESS, get (disk (uint (reserved_sectors v) + int (k * unat c div 512))) (k * unat c mod 512), v') \<and> reads_to dev disk n v v'"
proof -
  define m where "m = 512 div k"
  have m: "k * m = 512" "0 < m" "m \<le> 256" using k by (auto simp: m_def)
  have s: "sector_size v = 512" using ok by (simp add: vol_ok_def layout_ok_def)
  have "ucast (512 :: u16) = (512 :: u32)" by simp
  then have per: "ucast (sector_size v) div of_nat k = (of_nat m :: u32)" using k by (auto simp: s m_def)
  have um: "unat (of_nat m :: u32) = m" using m(3) by simp
  have d: "k * unat c div 512 = unat c div m" "k * unat c mod 512 = k * (unat c mod m)"
    using aligned [of 0 k "unat c" m] m(1) k by auto
  have c: "unat (c div of_nat m) = unat c div m" "unat (c mod of_nat m) = unat c mod m" by (simp_all only: unat_div unat_mod um)
  then have dv: "c div of_nat m = of_nat (unat c div m)" by (metis of_nat_unat ucast_id)
  have lt: "unat c div m < unat (fat_size v)" using e m d(1) k by auto
  obtain v' where v': "read_fat dev (of_nat (unat c div m)) v = Ok (STATUS_SUCCESS, v')" "reads_to dev disk n v v'"
      "fatbuf v' = disk (uint (reserved_sectors v) + int (unat c div m))"
    using read_fat_ok [OF ok lt] by auto
  have "unat c mod m < m" using m by simp
  then have "k * (unat c mod m) + k \<le> k * m" using k by auto
  moreover have "length (fatbuf v') = 512" using v'(2) by (simp add: reads_to_def vol_ok_def buffers_ok_def)
  moreover have "(of_nat m :: u32) \<noteq> 0" using um m(2) by auto
  ultimately show ?thesis using v' m(1) by (simp add: table_element_def per dv c Let_def d)
qed

lemma next16_ok:
  assumes ok: "vol_ok dev disk n v" and g: "good_cluster n v c" and t: "fat_type v = FT_FAT16"
  shows "\<exists>v'. next16 dev c v = Ok (STATUS_SUCCESS, fat_entry disk v c, v') \<and> reads_to dev disk n v v'"
proof -
  have e: "2 * unat c + 2 \<le> 512 * unat (fat_size v)" using g t by (simp add: good_cluster_def entry_offset_def entry_bytes_def)
  have a: "(2 * unat c + j) div 512 = unat c div 256" "(2 * unat c + j) mod 512 = 2 * (unat c mod 256) + j" if "j < 2" for j
    using aligned [OF that, of "unat c" 256] by simp_all
  have "fat_entry disk v c = ucast (le16 (disk (uint (reserved_sectors v) + int (unat c div 256))) (2 * (unat c mod 256)))"
    using a [of 0] a [of 1] by (simp add: fat_entry_def t entry_offset_def entry_bytes_def le16_def table_byte_def upt_rec)
  then show ?thesis using table_element_ok [OF ok _ e, of "\<lambda>buf i. ucast (le16 buf i)"] a [of 0] unfolding next16_def by simp
qed

lemma next32_ok:
  assumes ok: "vol_ok dev disk n v" and g: "good_cluster n v c" and t: "fat_type v = FT_FAT32"
  shows "\<exists>v'. next32 dev c v = Ok (STATUS_SUCCESS, fat_entry disk v c, v') \<and> reads_to dev disk n v v'"
proof -
  have e: "4 * unat c + 4 \<le> 512 * unat (fat_size v)" using g t by (simp add: good_cluster_def entry_offset_def entry_bytes_def)
  have a: "(4 * unat c + j) div 512 = unat c div 128" "(4 * unat c + j) mod 512 = 4 * (unat c mod 128) + j" if "j < 4" for j
    using aligned [OF that, of "unat c" 128] by simp_all
  have "map (table_byte disk v) [4 * unat c..<4 * unat c + 4] =
      map (\<lambda>j. disk (uint (reserved_sectors v) + int (unat c div 128)) ! (4 * (unat c mod 128) + j)) [0..<4]"
    using a by (intro nth_equalityI) (auto simp: table_byte_def)
  then have "fat_entry disk v c = le32 (disk (uint (reserved_sectors v) + int (unat c div 128))) (4 * (unat c mod 128)) AND 0x0FFFFFFF"
    by (simp add: fat_entry_def t entry_offset_def entry_bytes_def le32_def le16_def upt_rec)
  then show ?thesis using table_element_ok [OF ok _ e, of "\<lambda>buf i. le32 buf i AND 0x0FFFFFFF"] a [of 0] unfolding next32_def by simp
qed

definition next_entry :: "block_device \<Rightarrow> volume_type \<Rightarrow> table_read" where
  "next_entry dev t = (case t of FT_FAT12 \<Rightarrow> next12 dev | FT_FAT16 \<Rightarrow> next16 dev | FT_FAT32 \<Rightarrow> next32 dev)"

lemma get_next_cluster_eq: "get_next_cluster dev count c v = next_checked (next_entry dev (fat_type v)) (cluster_limit v) count c v"
  by (simp add: get_next_cluster_def get_next_cluster12_def get_next_cluster16_def get_next_cluster32_def next_entry_def cluster_limit_def
      split: volume_type.split)

lemma next_entry_ok:
  assumes "vol_ok dev disk n v" "good_cluster n v c"
  shows "\<exists>v'. next_entry dev (fat_type v) c v = Ok (STATUS_SUCCESS, fat_entry disk v c, v') \<and> reads_to dev disk n v v'"
  using next12_ok [OF assms] next16_ok [OF assms] next32_ok [OF assms] by (cases "fat_type v") (auto simp: next_entry_def)

lemma chain_first: "chain disk n v c cs \<Longrightarrow> (case cs of [] \<Rightarrow> cluster_limit v < c | x # xs \<Rightarrow> x = c \<and> c \<le> cluster_limit v)"
  by (cases cs) (auto simp: good_cluster_def)

lemma next_chain:
  assumes "vol_ok dev disk n v" "chain disk n v c cs" "k < length cs"
  shows "\<exists>v'. cluster_loop (next_entry dev (fat_type v)) (cluster_limit v) k c v = Ok (STATUS_SUCCESS, cs ! k, v') \<and> reads_to dev disk n v v'"
  using assms
proof (induction k arbitrary: v c cs)
  case 0
  then show ?case by (cases cs) (auto intro: reads_to_refl)
next
  case (Suc k)
  obtain xs where cs: "cs = c # xs" "good_cluster n v c" "chain disk n v (fat_entry disk v c) xs" "k < length xs"
    using Suc.prems by (cases cs) auto
  obtain v1 where v1: "next_entry dev (fat_type v) c v = Ok (STATUS_SUCCESS, fat_entry disk v c, v1)" "reads_to dev disk n v v1"
    using next_entry_ok [OF Suc.prems(1) cs(2)] by auto
  have g: "geometry v1 = geometry v" and ok: "vol_ok dev disk n v1" using v1(2) by (simp_all add: reads_to_def)
  obtain v2 where v2: "cluster_loop (next_entry dev (fat_type v)) (cluster_limit v) k (fat_entry disk v c) v1 = Ok (STATUS_SUCCESS, xs ! k, v2)" "reads_to dev disk n v1 v2"
    using Suc.IH [OF ok _ cs(4), of "fat_entry disk v c"] cs(3) geometry_chain [OF g] geometry_fields(4) [OF g] geometryD(2) [OF g] by auto
  have "\<not> cluster_limit v < fat_entry disk v c" using chain_first [OF cs(3)] cs(4) by (cases xs) auto
  then show ?case using v1 v2 cs(1) reads_to_trans [OF v1(2) v2(2)] by simp
qed

lemma next_chain_end:
  assumes "vol_ok dev disk n v" "chain disk n v c cs" "cs \<noteq> []"
  shows "\<exists>v' c'. cluster_loop (next_entry dev (fat_type v)) (cluster_limit v) (length cs) c v = Ok (STATUS_END_OF_LIST, c', v') \<and>
     cluster_limit v < c' \<and> reads_to dev disk n v v'"
  using assms
proof (induction cs arbitrary: v c)
  case (Cons x xs)
  have cs: "good_cluster n v c" "chain disk n v (fat_entry disk v c) xs" using Cons.prems by auto
  obtain v1 where v1: "next_entry dev (fat_type v) c v = Ok (STATUS_SUCCESS, fat_entry disk v c, v1)" "reads_to dev disk n v v1"
    using next_entry_ok [OF Cons.prems(1) cs(1)] by auto
  have g: "geometry v1 = geometry v" and ok: "vol_ok dev disk n v1" using v1(2) by (simp_all add: reads_to_def)
  show ?case
  proof (cases "xs = []")
    case True
    then show ?thesis using v1 cs(2) by auto
  next
    case False
    obtain v2 c' where "cluster_loop (next_entry dev (fat_type v)) (cluster_limit v) (length xs) (fat_entry disk v c) v1 = Ok (STATUS_END_OF_LIST, c', v2)"
        "cluster_limit v < c'" "reads_to dev disk n v1 v2"
      using Cons.IH [OF ok _ False, of "fat_entry disk v c"] cs(2) geometry_chain [OF g] geometry_fields(4) [OF g] geometryD(2) [OF g] by auto
    moreover have "\<not> cluster_limit v < fat_entry disk v c" using chain_first [OF cs(2)] False by (cases xs) auto
    ultimately show ?thesis using v1 reads_to_trans [OF v1(2)] by auto
  qed
qed simp

text \<open>Advancing along a chain: to one of its clusters, or to the mark at its end.\<close>

definition chain_at :: "fat_data \<Rightarrow> u32 list \<Rightarrow> nat \<Rightarrow> u32 \<Rightarrow> bool" where
  "chain_at v cs i c \<longleftrightarrow> (if i < length cs then c = cs ! i else cluster_limit v < c)"

lemma chain_drop: "chain disk n v c cs \<Longrightarrow> i < length cs \<Longrightarrow> chain disk n v (cs ! i) (drop i cs)"
proof (induction cs arbitrary: c i)
  case (Cons x xs)
  then show ?case
  proof (cases i)
    case (Suc j)
    then show ?thesis using Cons.IH [of "fat_entry disk v c" j] Cons.prems by auto
  qed auto
qed simp

lemma get_next_ok:
  assumes ok: "vol_ok dev disk n v" and ch: "chain disk n v h cs" and c: "c = cs ! i" "i < length cs" and k: "i + k \<le> length cs"
  shows "\<exists>v' c' st. get_next_cluster dev k c v = Ok (st, c', v') \<and> reads_to dev disk n v v' \<and> chain_at v cs (i + k) c' \<and>
     (st = (if i + k < length cs then STATUS_SUCCESS else STATUS_END_OF_LIST))"
proof -
  have d: "chain disk n v c (drop i cs)" using chain_drop [OF ch c(2)] c(1) by simp
  have l: "\<not> cluster_limit v < c" using chain_first [OF d] c(2) by (cases "drop i cs") auto
  show ?thesis
  proof (cases "i + k < length cs")
    case True
    then show ?thesis using next_chain [OF ok d, of k] l c by (auto simp: get_next_cluster_eq next_checked_def chain_at_def)
  next
    case False
    then have e: "k = length (drop i cs)" "drop i cs \<noteq> []" using k c(2) by auto
    then show ?thesis using next_chain_end [OF ok d e(2)] l False by (auto simp: get_next_cluster_eq next_checked_def chain_at_def)
  qed
qed

lemma uint_pos: "w \<noteq> 0 \<Longrightarrow> 0 < uint w" for w :: "'a :: len word"
  by (simp add: order_less_le uint_0_iff)

lemma cluster_sector:
  assumes ok: "vol_ok dev disk n v" and c: "good_cluster n v c"
  shows "fatcluster_to_sector v c = cluster_lba v c" "data_first v \<le> cluster_lba v c" "cluster_lba v c < n"
proof -
  have n: "n < 2 ^ 32" using ok by (simp add: vol_ok_def serves_def)
  have s: "0 < uint (sectors_per_cluster v)" using ok by (simp add: vol_ok_def layout_ok_def uint_pos)
  have "2 \<le> uint c" using c by (simp add: good_cluster_def word_le_def)
  then show d: "data_first v \<le> cluster_lba v c" by (simp add: cluster_lba_def)
  show l: "cluster_lba v c < n" using c s by (simp add: good_cluster_def)
  have "0 \<le> data_first v" by (simp add: data_first_def)
  then have "uint (of_int (cluster_lba v c) :: u32) = cluster_lba v c"
    using d l n by (simp add: uint_word_of_int_eq take_bit_int_eq_self)
  then show "fatcluster_to_sector v c = cluster_lba v c"
    by (simp add: fatcluster_to_sector_def cluster_lba_def data_first_def algebra_simps split: if_splits)
qed

lemma fill_databuf_ok:
  assumes ok: "vol_ok dev disk n v" and r: "data_first v \<le> lba" "lba + uint (sectors_per_cluster v) \<le> n"
  shows "\<exists>v'. fill_databuf dev lba (unat (sectors_per_cluster v)) v = Ok (STATUS_SUCCESS, v') \<and> reads_to dev disk n v v' \<and>
     databuf v' = disk_blocks disk lba (unat (sectors_per_cluster v))"
proof -
  let ?k = "unat (sectors_per_cluster v)" and ?b = "disk_blocks disk lba (unat (sectors_per_cluster v))"
  have s: "serves dev disk n" and l: "layout_ok n v" and b: "buffers_ok disk n v" using ok by (simp_all add: vol_ok_def)
  have "0 < uint (sectors_per_cluster v)" using l by (simp add: layout_ok_def uint_pos)
  then have lt: "lba < n" using r(2) by simp
  have 0: "0 \<le> data_first v" by (simp add: data_first_def)
  have read: "dev_read dev lba ?k = (STATUS_SUCCESS, ?b)" using s r 0 unfolding serves_def by simp
  have len: "length ?b = length (databuf v)" using length_blocks [OF s] b by (simp add: buffers_ok_def)
  show ?thesis
  proof (cases "databuf_lba_start v = lba")
    case True
    then have "databuf v = ?b" using b r(1) lt unfolding buffers_ok_def by auto
    then show ?thesis using True ok by (auto simp: fill_databuf_def reads_to_refl)
  next
    case False
    let ?v = "v\<lparr>databuf := ?b, databuf_lba_start := lba\<rparr>"
    have g: "geometry ?v = geometry v" by (simp add: geometry_def)
    have "buffers_ok disk n ?v" using b len r(1) geometry_fields [OF g] geometryD(1) [OF g] unfolding buffers_ok_def by simp
    then have "reads_to dev disk n v ?v" using s l g geometryD(7) [OF g] by (simp add: reads_to_def vol_ok_def)
    then show ?thesis using False read store_all [OF len] by (auto simp: fill_databuf_def)
  qed
qed

lemma read_cluster_ok:
  assumes ok: "vol_ok dev disk n v" and c: "good_cluster n v c"
  shows "\<exists>v'. read_cluster dev c v = Ok (STATUS_SUCCESS, v') \<and> reads_to dev disk n v v' \<and> databuf v' = cluster_bytes disk v c"
proof -
  note s = cluster_sector [OF ok c]
  have "cluster_lba v c + uint (sectors_per_cluster v) \<le> n" using c by (simp add: good_cluster_def)
  then show ?thesis using fill_databuf_ok [OF ok s(2)] s(1) by (simp add: read_cluster_def cluster_bytes_def)
qed

lemma length_cluster_bytes: "vol_ok dev disk n v \<Longrightarrow> length (cluster_bytes disk v c) = unat (cluster_size v)"
proof -
  assume ok: "vol_ok dev disk n v"
  have "unat (sectors_per_cluster v) < 256" using unsigned_less [of "sectors_per_cluster v", where ?'a = nat] by simp
  then have "unat (cluster_size v) = 512 * unat (sectors_per_cluster v)" using ok
    by (simp add: vol_ok_def layout_ok_def unat_word_ariths unsigned_ucast_eq take_bit_nat_eq_self)
  then show ?thesis using ok length_blocks by (auto simp: cluster_bytes_def vol_ok_def)
qed

lemma cluster_size_pos:
  assumes "vol_ok dev disk n v"
  shows "0 < unat (cluster_size v)"
proof -
  have "0 < unat (sectors_per_cluster v)" using assms by (simp add: vol_ok_def layout_ok_def unat_gt_0)
  then have "0 < length (cluster_bytes disk v 0)" using assms length_blocks [of dev disk n] by (simp add: cluster_bytes_def vol_ok_def)
  then show ?thesis using length_cluster_bytes [OF assms] by simp
qed

text \<open>The bytes of one cluster inside the bytes of a chain.\<close>

lemma drop_concat_blocks:
  assumes "\<And>x. x \<in> set xss \<Longrightarrow> length x = k" "i < length xss" "j \<le> k"
  shows "drop (k * i + j) (concat xss) = drop j (xss ! i) @ concat (drop (Suc i) xss)"
  using assms(1,2)
proof (induction xss arbitrary: i)
  case (Cons x xs)
  have x: "length x = k" using Cons.prems by simp
  show ?case
  proof (cases i)
    case 0
    then show ?thesis using x assms(3) by simp
  next
    case (Suc i')
    then have "drop (k * i + j) (concat (x # xs)) = drop (k * i' + j) (concat xs)" using x by (simp add: add.assoc)
    then show ?thesis using Cons.IH [of i'] Cons.prems Suc by simp
  qed
qed simp

lemma part_of_chain:
  assumes ok: "vol_ok dev disk n v" and i: "p div unat (cluster_size v) < length cs" and m: "p mod unat (cluster_size v) + m \<le> unat (cluster_size v)"
  shows "take m (drop (p mod unat (cluster_size v)) (cluster_bytes disk v (cs ! (p div unat (cluster_size v))))) = take m (drop p (chain_bytes disk v cs))"
proof -
  let ?k = "unat (cluster_size v)" let ?i = "p div ?k" let ?j = "p mod ?k"
  have l: "\<And>x. x \<in> set (map (cluster_bytes disk v) cs) \<Longrightarrow> length x = ?k" using length_cluster_bytes [OF ok] by auto
  have j: "?j \<le> ?k" using m by simp
  have "drop p (chain_bytes disk v cs) = drop ?j (map (cluster_bytes disk v) cs ! ?i) @ concat (drop (Suc ?i) (map (cluster_bytes disk v) cs))"
    using drop_concat_blocks [of "map (cluster_bytes disk v) cs" ?k ?i ?j] l i j by (simp add: chain_bytes_def)
  then show ?thesis using i m length_cluster_bytes [OF ok] by simp
qed

lemma example_volume_ok: "vol_ok example_device example_disk 8 example_volume"
proof -
  have "length (example_disk lba) = 512" for lba by (simp add: example_disk_def example_entry_def)
  then have "serves example_device example_disk 8" by (simp add: serves_def example_device_def)
  moreover have "layout_ok 8 example_volume" "buffers_ok example_disk 8 example_volume" by code_simp+
  ultimately show ?thesis by (simp add: vol_ok_def)
qed

lemma example_chains: "chain example_disk 8 example_volume 2 [2, 3]" "chain example_disk 8 example_volume 4 [4]"
  by code_simp+

end
