(* ===== verification/FatFile.thy ===== *)
theory FatFile
  imports FatVolume
begin

text \<open>
  Files of a FAT volume: \<^verbatim>\<open>read\<close>, \<^verbatim>\<open>seek\<close> and \<^verbatim>\<open>tell\<close> of \<^verbatim>\<open>boot/filesystem/fat/fat.c\<close> implement a position in a list of bytes, the
  interface \<open>byte_file\<close>.
\<close>

section \<open>Files\<close>

definition file_size :: "fat_file_data \<Rightarrow> nat" where
  "file_size f = unat (de_size (file_direntry f))"

definition file_ok :: "block_device \<Rightarrow> (int \<Rightarrow> u8 list) \<Rightarrow> int \<Rightarrow> u32 list \<Rightarrow> fat_file_data \<Rightarrow> fat_data \<Rightarrow> bool" where
  "file_ok dev disk n cs f v \<longleftrightarrow> vol_ok dev disk n v \<and> (cs \<noteq> [] \<longrightarrow> chain disk n v (head_cluster f) cs) \<and>
     file_size f \<le> length cs * unat (cluster_size v) \<and> unat (cursor f) \<le> file_size f \<and>
     (unat (cursor f) < file_size f \<longrightarrow> current_cluster f = cs ! (unat (cursor f) div unat (cluster_size v)))"

definition file_bytes :: "(int \<Rightarrow> u8 list) \<Rightarrow> u32 list \<Rightarrow> fat_file_data \<Rightarrow> fat_data \<Rightarrow> u8 list" where
  "file_bytes disk cs f v = take (file_size f) (chain_bytes disk v cs)"

text \<open>What reading leaves alone of a file, and of the volume.\<close>

definition same_file :: "block_device \<Rightarrow> (int \<Rightarrow> u8 list) \<Rightarrow> int \<Rightarrow> fat_file_data \<Rightarrow> fat_data \<Rightarrow> fat_file_data \<Rightarrow> fat_data \<Rightarrow> bool" where
  "same_file dev disk n f v f' v' \<longleftrightarrow> reads_to dev disk n v v' \<and>
     f'\<lparr>current_cluster := 0, cursor := 0\<rparr> = f\<lparr>current_cluster := 0, cursor := 0\<rparr>"

lemma same_file_refl: "vol_ok dev disk n v \<Longrightarrow> same_file dev disk n f v f v"
  by (simp add: same_file_def reads_to_refl)

lemma same_file_trans: "same_file dev disk n f v f1 v1 \<Longrightarrow> same_file dev disk n f1 v1 f2 v2 \<Longrightarrow> same_file dev disk n f v f2 v2"
  by (auto simp: same_file_def intro: reads_to_trans)

lemma length_chain_bytes: "vol_ok dev disk n v \<Longrightarrow> length (chain_bytes disk v cs) = length cs * unat (cluster_size v)"
  by (induction cs) (simp_all add: chain_bytes_def length_cluster_bytes)

lemma chain_good: "chain disk n v c cs \<Longrightarrow> i < length cs \<Longrightarrow> good_cluster n v (cs ! i)"
  using chain_drop [of disk n v c cs i] by (cases "drop i cs") auto

lemma take_slice: "a + b \<le> c \<Longrightarrow> take (a + b) (drop p xs) = take a (drop p xs) @ take b (drop (p + a) xs)"
  by (simp add: take_add add.commute)

lemma div_within: "(p :: nat) mod k + r < k \<Longrightarrow> (p + r) div k = p div k"
  using div_add1_eq [of p r k] by simp

text \<open>The part of a request that lies in the cluster at the cursor.\<close>

definition part_len :: "u32 \<Rightarrow> fat_file_data \<Rightarrow> fat_data \<Rightarrow> u32" where
  "part_len len f v = min (cluster_size v - cursor f mod cluster_size v) len"

lemma part_len_unat:
  assumes "vol_ok dev disk n v" "len \<noteq> 0"
  shows "unat (part_len len f v) = min (unat (cluster_size v) - unat (cursor f) mod unat (cluster_size v)) (unat len)" "0 < unat (part_len len f v)"
    "unat (part_len len f v) \<le> unat len" "unat (len - part_len len f v) = unat len - unat (part_len len f v)"
    "unat (cursor f) mod unat (cluster_size v) + unat (part_len len f v) \<le> unat (cluster_size v)"
    "unat (cursor f mod cluster_size v + part_len len f v) = unat (cursor f) mod unat (cluster_size v) + unat (part_len len f v)"
proof -
  let ?k = "unat (cluster_size v)" and ?o = "cursor f mod cluster_size v"
  have k: "0 < ?k" using cluster_size_pos [OF assms(1)] .
  have o: "unat ?o = unat (cursor f) mod ?k" "unat ?o < ?k" using k by (simp_all add: unat_mod)
  then have "unat (cluster_size v - ?o) = ?k - unat (cursor f) mod ?k" by (simp add: unat_sub word_le_nat_alt)
  then show u: "unat (part_len len f v) = min (?k - unat (cursor f) mod ?k) (unat len)" by (simp add: part_len_def min_def word_le_nat_alt)
  then show "0 < unat (part_len len f v)" using o assms(2) by (auto simp: unat_gt_0)
  show le: "unat (part_len len f v) \<le> unat len" using u by simp
  then show "unat (len - part_len len f v) = unat len - unat (part_len len f v)" by (simp add: unat_sub word_le_nat_alt)
  show s: "unat (cursor f) mod ?k + unat (part_len len f v) \<le> ?k" using u o by auto
  then show "unat (?o + part_len len f v) = unat (cursor f) mod ?k + unat (part_len len f v)"
    using o(1) unat_u32_less [of "cluster_size v"] by (simp add: unat_word_ariths)
qed

lemma same_fileD:
  assumes "same_file dev disk n f v f' v'"
  shows "head_cluster f' = head_cluster f" "file_size f' = file_size f" "geometry v' = geometry v" "vol_ok dev disk n v'"
proof -
  have e: "f'\<lparr>current_cluster := 0, cursor := 0\<rparr> = f\<lparr>current_cluster := 0, cursor := 0\<rparr>" using assms by (simp add: same_file_def)
  show "head_cluster f' = head_cluster f" using arg_cong [OF e, of head_cluster] by simp
  show "file_size f' = file_size f" using arg_cong [OF e, of file_direntry] by (simp add: file_size_def)
  show "geometry v' = geometry v" "vol_ok dev disk n v'" using assms by (simp_all add: same_file_def reads_to_def)
qed

lemma file_ok_same:
  assumes "file_ok dev disk n cs f v" "same_file dev disk n f v f' v'" "unat (cursor f') \<le> file_size f"
    "unat (cursor f') < file_size f \<Longrightarrow> current_cluster f' = cs ! (unat (cursor f') div unat (cluster_size v))"
  shows "file_ok dev disk n cs f' v'"
  using assms same_fileD [OF assms(2)] geometry_chain [OF same_fileD(3) [OF assms(2)]] geometry_fields(3) [OF same_fileD(3) [OF assms(2)]]
  by (simp add: file_ok_def)

text \<open>One round of the loop reads the part from the cluster at the cursor and goes on in the same cluster or the next one.\<close>

lemma read_part:
  assumes f: "file_ok dev disk n cs f v" and len: "len \<noteq> 0" "unat (cursor f) + unat len \<le> file_size f" and r: "r = part_len len f v"
    and out1: "out1 = out @ take (unat r) (drop (unat (cursor f)) (chain_bytes disk v cs))" and f1: "f1 = f\<lparr>cursor := cursor f + r\<rparr>"
    and i: "i = unat (cursor f) div unat (cluster_size v)"
  shows "\<exists>v1. reads_to dev disk n v v1 \<and> i < length cs \<and> current_cluster f = cs ! i \<and> unat (cursor f1) = unat (cursor f) + unat r \<and>
     read_loop dev len out f v = (if cursor f mod cluster_size v + r < cluster_size v then read_loop dev (len - r) out1 f1 v1
       else obind (get_next_cluster dev 1 (current_cluster f) v1) (\<lambda>(st, c, v).
         if \<not> CHECK_SUCCESS st then Ok (STATUS_SUCCESS, out1, f1\<lparr>current_cluster := c\<rparr>, v)
         else read_loop dev (len - r) out1 (f1\<lparr>current_cluster := c\<rparr>) v))"
proof -
  let ?k = "unat (cluster_size v)" and ?p = "unat (cursor f)" and ?o = "cursor f mod cluster_size v"
  have ok: "vol_ok dev disk n v" and ch: "cs \<noteq> [] \<longrightarrow> chain disk n v (head_cluster f) cs" and sz: "file_size f \<le> length cs * ?k"
    using f by (simp_all add: file_ok_def)
  note u = part_len_unat [OF ok len(1), of f, folded r]
  have p: "?p < file_size f" using len(2) u(2,3) by simp
  then have il: "i < length cs" using sz i by (simp add: less_mult_imp_div_less)
  have cur: "current_cluster f = cs ! i" using f p i by (simp add: file_ok_def)
  obtain v1 where v1: "read_cluster dev (current_cluster f) v = Ok (STATUS_SUCCESS, v1)" "reads_to dev disk n v v1" "databuf v1 = cluster_bytes disk v (cs ! i)"
    using read_cluster_ok [OF ok chain_good [of disk n v "head_cluster f" cs i]] ch il cur by auto
  have uo: "unat ?o = ?p mod ?k" by (simp add: unat_mod)
  have "?p + unat r < 2 ^ 32" using len(2) u(3) unat_u32_less [of "de_size (file_direntry f)"] by (simp add: file_size_def)
  then have c1: "unat (cursor f1) = ?p + unat r" by (simp add: f1 unat_word_ariths)
  have "\<not> length (databuf v1) < unat ?o + unat r" using v1(3) length_cluster_bytes [OF ok] u(5) uo by simp
  moreover have "take (unat r) (drop (unat ?o) (databuf v1)) = take (unat r) (drop ?p (chain_bytes disk v cs))"
    using part_of_chain [OF ok, of ?p cs "unat r"] il u(5) v1(3) uo i by simp
  moreover have "cluster_size v \<noteq> 0" using cluster_size_pos [OF ok] by auto
  ultimately show ?thesis using len(1) v1 il cur c1 unfolding out1 f1 r part_len_def by (subst read_loop.simps) (auto simp: Let_def)
qed

lemma read_round:
  assumes f: "file_ok dev disk n cs f v" and len: "len \<noteq> 0" "unat (cursor f) + unat len \<le> file_size f" and r: "r = part_len len f v"
    and out1: "out1 = out @ take (unat r) (drop (unat (cursor f)) (chain_bytes disk v cs))"
  shows "\<exists>fin f1 v1. read_loop dev len out f v = (if fin then Ok (STATUS_SUCCESS, out1, f1, v1) else read_loop dev (len - r) out1 f1 v1) \<and>
     (fin \<longrightarrow> unat r = unat len) \<and> file_ok dev disk n cs f1 v1 \<and> same_file dev disk n f v f1 v1 \<and> unat (cursor f1) = unat (cursor f) + unat r"
proof -
  let ?k = "unat (cluster_size v)" and ?p = "unat (cursor f)" and ?i = "unat (cursor f) div unat (cluster_size v)"
  define f1 where "f1 = f\<lparr>cursor := cursor f + r\<rparr>"
  have ok: "vol_ok dev disk n v" and sz: "file_size f \<le> length cs * ?k" using f by (simp_all add: file_ok_def)
  note u = part_len_unat [OF ok len(1), of f, folded r]
  obtain v1 where v1: "reads_to dev disk n v v1" "?i < length cs" "current_cluster f = cs ! ?i" "unat (cursor f1) = ?p + unat r"
      "read_loop dev len out f v = (if cursor f mod cluster_size v + r < cluster_size v then read_loop dev (len - r) out1 f1 v1
       else obind (get_next_cluster dev 1 (current_cluster f) v1) (\<lambda>(st, c, v).
         if \<not> CHECK_SUCCESS st then Ok (STATUS_SUCCESS, out1, f1\<lparr>current_cluster := c\<rparr>, v)
         else read_loop dev (len - r) out1 (f1\<lparr>current_cluster := c\<rparr>) v))"
    using read_part [OF f len r out1 f1_def refl] by auto
  have pr: "?p + unat r \<le> file_size f" using len(2) u(3) by simp
  have lt: "cursor f mod cluster_size v + r < cluster_size v \<longleftrightarrow> ?p mod ?k + unat r < ?k" using u(6) by (simp add: word_less_nat_alt)
  show ?thesis
  proof (cases "?p mod ?k + unat r < ?k")
    case True
    have s: "same_file dev disk n f v f1 v1" using v1(1) by (simp add: same_file_def f1_def)
    then have "file_ok dev disk n cs f1 v1" using file_ok_same [OF f s] v1(3,4) pr div_within [OF True] by (simp add: f1_def)
    then show ?thesis using v1(4,5) True lt s by (intro exI [of _ False] exI [of _ f1] exI [of _ v1]) simp
  next
    case False
    then have "?p mod ?k + unat r = ?k" using u(5) by simp
    then have next_p: "?p + unat r = ?k * Suc ?i" unfolding mult_Suc_right using mult_div_mod_eq [of ?k ?p] by linarith
    have g: "geometry v1 = geometry v" "vol_ok dev disk n v1" using v1(1) by (simp_all add: reads_to_def)
    have "chain disk n v1 (head_cluster f) cs" using f v1(2) geometry_chain [OF g(1)] by (auto simp: file_ok_def)
    then obtain st c2 v2 where v2: "get_next_cluster dev 1 (current_cluster f) v1 = Ok (st, c2, v2)" "reads_to dev disk n v1 v2" "chain_at v1 cs (?i + 1) c2"
        "st = (if ?i + 1 < length cs then STATUS_SUCCESS else STATUS_END_OF_LIST)"
      using get_next_ok [OF g(2) _ v1(3,2), of "head_cluster f" 1] v1(2) by auto
    define f2 where "f2 = f1\<lparr>current_cluster := c2\<rparr>"
    have s: "same_file dev disk n f v f2 v2" using reads_to_trans [OF v1(1) v2(2)] by (simp add: same_file_def f1_def f2_def)
    have c2: "unat (cursor f2) = ?p + unat r" using v1(4) by (simp add: f2_def)
    have "?k * Suc ?i < length cs * ?k \<Longrightarrow> Suc ?i < length cs" by (simp only: mult.commute [of "length cs"] mult_less_cancel1)
    then have "file_ok dev disk n cs f2 v2"
      using file_ok_same [OF f s] c2 pr next_p sz v2(3) cluster_size_pos [OF ok] by (auto simp: chain_at_def f2_def)
    moreover have "unat r = unat len" if "\<not> ?i + 1 < length cs"
    proof -
      have "length cs = Suc ?i" using v1(2) that by simp
      then have "file_size f \<le> ?p + unat r" using sz next_p by (simp only: mult.commute)
      then show ?thesis using len(2) u(3) by simp
    qed
    ultimately show ?thesis using v1(5) v2 False lt s c2
      by (intro exI [of _ "\<not> ?i + 1 < length cs"] exI [of _ f2] exI [of _ v2]) (auto simp: CHECK_SUCCESS_def f2_def)
  qed
qed

lemma read_loop_ok:
  assumes "file_ok dev disk n cs f v" "unat (cursor f) + unat len \<le> file_size f"
  shows "\<exists>f' v'. read_loop dev len out f v = Ok (STATUS_SUCCESS, out @ take (unat len) (drop (unat (cursor f)) (chain_bytes disk v cs)), f', v') \<and>
     file_ok dev disk n cs f' v' \<and> same_file dev disk n f v f' v' \<and> unat (cursor f') = unat (cursor f) + unat len"
  using assms
proof (induction "unat len" arbitrary: len out f v rule: less_induct)
  case less
  have ok: "vol_ok dev disk n v" using less.prems(1) by (simp add: file_ok_def)
  show ?case
  proof (cases "len = 0")
    case True
    then show ?thesis using less.prems ok by (intro exI [of _ f] exI [of _ v]) (simp add: read_loop.simps same_file_refl)
  next
    case False
    define r where "r = part_len len f v"
    define out1 where "out1 = out @ take (unat r) (drop (unat (cursor f)) (chain_bytes disk v cs))"
    note u = part_len_unat [OF ok False, of f, folded r_def]
    obtain fin f1 v1 where r1: "read_loop dev len out f v = (if fin then Ok (STATUS_SUCCESS, out1, f1, v1) else read_loop dev (len - r) out1 f1 v1)"
        "fin \<longrightarrow> unat r = unat len" "file_ok dev disk n cs f1 v1" "same_file dev disk n f v f1 v1" "unat (cursor f1) = unat (cursor f) + unat r"
      using read_round [OF less.prems(1) False less.prems(2) r_def out1_def] by auto
    have g: "geometry v1 = geometry v" using r1(4) by (simp add: same_file_def reads_to_def)
    have le: "unat (cursor f1) + unat (len - r) \<le> file_size f1" using r1(5) u(3,4) less.prems(2) same_fileD(2) [OF r1(4)] by simp
    have "unat (len - r) < unat len" using u(2-4) by simp
    from less.hyps [OF this r1(3) le, of out1] obtain f' v' where r2: "read_loop dev (len - r) out1 f1 v1 =
        Ok (STATUS_SUCCESS, out1 @ take (unat (len - r)) (drop (unat (cursor f1)) (chain_bytes disk v1 cs)), f', v')"
        "file_ok dev disk n cs f' v'" "same_file dev disk n f1 v1 f' v'" "unat (cursor f') = unat (cursor f1) + unat (len - r)"
      by blast
    have slice: "take (unat len) (drop (unat (cursor f)) xs) = take (unat r) (drop (unat (cursor f)) xs) @ take (unat (len - r)) (drop (unat (cursor f1)) xs)" for xs :: "u8 list"
      using take_slice [of "unat r" "unat (len - r)" "unat len" "unat (cursor f)" xs] u(3,4) r1(5) by simp
    show ?thesis
    proof (cases fin)
      case True
      then show ?thesis using r1 by (intro exI [of _ f1] exI [of _ v1]) (simp add: out1_def)
    next
      case False
      then show ?thesis using r1(1,5) r2 slice u(3,4) geometry_chain_bytes [OF g] same_file_trans [OF r1(4) r2(3)]
        by (intro exI [of _ f'] exI [of _ v']) (simp add: out1_def)
    qed
  qed
qed

section \<open>The interface of a file\<close>

text \<open>A reader that asks for blocks of the given sizes until one is refused.\<close>

fun read_pieces :: "(u32 \<Rightarrow> 's \<Rightarrow> (status \<times> nat option \<times> u8 list \<times> 's) outcome) \<Rightarrow> u32 list \<Rightarrow> 's \<Rightarrow> (u8 list \<times> 's) outcome" where
  "read_pieces read_op [] s = Ok ([], s)"
| "read_pieces read_op (len # lens) s =
     obind (read_op len s) (\<lambda>(st, _, bs, s).
       if \<not> CHECK_SUCCESS st then Ok ([], s) else obind (read_pieces read_op lens s) (\<lambda>(bs', s). Ok (bs @ bs', s)))"

text \<open>
  A file as its users see it: a position in a list of bytes.  \<open>contents\<close> and \<open>pos\<close> are the abstraction; the laws say what a
  read delivers and that it moves the position only.
\<close>

locale byte_file =
  fixes read_op :: "u32 \<Rightarrow> 's \<Rightarrow> (status \<times> nat option \<times> u8 list \<times> 's) outcome"
    and ok :: "'s \<Rightarrow> bool" and contents :: "'s \<Rightarrow> u8 list" and pos :: "'s \<Rightarrow> nat"
  assumes pos_le: "ok s \<Longrightarrow> pos s \<le> length (contents s)"
    and read_law: "ok s \<Longrightarrow> pos s < length (contents s) \<Longrightarrow> pos s + unat len < 2 ^ 32 \<Longrightarrow> bs = take (unat len) (drop (pos s) (contents s)) \<Longrightarrow>
      \<exists>s'. read_op len s = Ok (STATUS_SUCCESS, Some (length bs), bs, s') \<and> ok s' \<and> contents s' = contents s \<and> pos s' = pos s + length bs"
    and end_law: "ok s \<Longrightarrow> length (contents s) \<le> pos s \<Longrightarrow> read_op len s = Ok (STATUS_END_OF_FILE, None, [], s)"
begin

lemma pieces:
  assumes "ok s" "list_all (\<lambda>len. length (contents s) + unat len < 2 ^ 32) lens"
  shows "\<exists>s'. read_pieces read_op lens s = Ok (take (\<Sum>len \<leftarrow> lens. unat len) (drop (pos s) (contents s)), s') \<and> ok s' \<and> contents s' = contents s"
  using assms
proof (induction lens arbitrary: s)
  case (Cons len lens)
  show ?case
  proof (cases "pos s < length (contents s)")
    case True
    let ?bs = "take (unat len) (drop (pos s) (contents s))"
    have "pos s + unat len < 2 ^ 32" using True Cons.prems(2) by simp
    then obtain s1 where s1: "read_op len s = Ok (STATUS_SUCCESS, Some (length ?bs), ?bs, s1)" "ok s1" "contents s1 = contents s" "pos s1 = pos s + length ?bs"
      using read_law [OF Cons.prems(1) True _ refl, of len] by auto
    have "list_all (\<lambda>len. length (contents s1) + unat len < 2 ^ 32) lens" using Cons.prems(2) s1(3) by simp
    then obtain s2 where "read_pieces read_op lens s1 = Ok (take (\<Sum>len \<leftarrow> lens. unat len) (drop (pos s1) (contents s1)), s2)" "ok s2" "contents s2 = contents s1"
      using Cons.IH [OF s1(2)] by auto
    moreover have "take (\<Sum>len \<leftarrow> len # lens. unat len) (drop (pos s) (contents s)) = ?bs @ take (\<Sum>len \<leftarrow> lens. unat len) (drop (pos s1) (contents s1))"
      unfolding s1(3,4) by (simp add: take_add min_def add.commute)
    ultimately show ?thesis using s1 by simp
  next
    case False
    then show ?thesis using Cons.prems(1) end_law [of s len] by (auto simp: CHECK_SUCCESS_def)
  qed
qed auto

end

lemma fat_read_ok:
  assumes f: "file_ok dev disk n cs f v" and p: "unat (cursor f) < file_size f" "unat (cursor f) + unat len < 2 ^ 32"
    and bs: "bs = take (unat len) (drop (unat (cursor f)) (file_bytes disk cs f v))"
  shows "\<exists>f' v'. fat_read dev len f v = Ok (STATUS_SUCCESS, Some (length bs), bs, f', v') \<and>
     file_ok dev disk n cs f' v' \<and> same_file dev disk n f v f' v' \<and> unat (cursor f') = unat (cursor f) + length bs"
proof -
  define size where "size = de_size (file_direntry f)"
  have us: "unat size = file_size f" by (simp add: size_def file_size_def)
  define l where "l = (if size \<le> cursor f + len then size - cursor f else len)"
  have "unat (cursor f + len) = unat (cursor f) + unat len" using p(2) by (simp add: unat_word_ariths)
  then have ul: "unat l = min (unat len) (file_size f - unat (cursor f))" using p(1) us
    by (auto simp: l_def word_le_nat_alt unat_sub min_def)
  have "unat (cursor f) + unat l \<le> file_size f" using ul p(1) by simp
  from read_loop_ok [OF f this, of "[]"] obtain f' v' where r:
      "read_loop dev l [] f v = Ok (STATUS_SUCCESS, take (unat l) (drop (unat (cursor f)) (chain_bytes disk v cs)), f', v')"
      "file_ok dev disk n cs f' v'" "same_file dev disk n f v f' v'" "unat (cursor f') = unat (cursor f) + unat l" by auto
  have c: "length (chain_bytes disk v cs) = length cs * unat (cluster_size v)" "file_size f \<le> length cs * unat (cluster_size v)"
    using f length_chain_bytes by (auto simp: file_ok_def)
  have b: "bs = take (unat l) (drop (unat (cursor f)) (chain_bytes disk v cs))" using ul by (simp add: bs file_bytes_def drop_take min_def)
  have "length bs = unat l" using c ul p(1) by (simp add: b)
  moreover have "\<not> size \<le> cursor f" using p(1) us by (simp add: word_le_nat_alt)
  ultimately show ?thesis using r b by (simp add: fat_read_def Let_def flip: size_def l_def)
qed

lemma length_file_bytes: "file_ok dev disk n cs f v \<Longrightarrow> length (file_bytes disk cs f v) = file_size f"
  using length_chain_bytes by (auto simp: file_bytes_def file_ok_def)

lemma cursor_le: "file_ok dev disk n cs f v \<Longrightarrow> unat (cursor f) \<le> length (file_bytes disk cs f v)"
  using length_file_bytes [of dev disk n cs f v] by (simp add: file_ok_def)

lemma same_file_bytes: "same_file dev disk n f v f' v' \<Longrightarrow> file_bytes disk cs f' v' = file_bytes disk cs f v"
  using same_fileD(2) [of dev disk n f v f' v'] geometry_chain_bytes [of v' v] same_fileD(3) [of dev disk n f v f' v'] by (simp add: file_bytes_def)

interpretation fat_file: byte_file "\<lambda>len (f, v). fat_read dev len f v"
    "\<lambda>(f, v). file_ok dev disk n cs f v" "\<lambda>(f, v). file_bytes disk cs f v" "\<lambda>(f, v). unat (cursor f)"
  for dev disk n cs
proof (unfold_locales, goal_cases)
  case (1 s)
  then show ?case using cursor_le by (cases s) auto
next
  case (2 s len bs)
  obtain f v where s: "s = (f, v)" by (cases s)
  obtain f' v' where "fat_read dev len f v = Ok (STATUS_SUCCESS, Some (length bs), bs, f', v')" "file_ok dev disk n cs f' v'"
      "same_file dev disk n f v f' v'" "unat (cursor f') = unat (cursor f) + length bs"
    using fat_read_ok [of dev disk n cs f v len bs] 2 length_file_bytes by (auto simp: s)
  then show ?case using same_file_bytes by (auto simp: s)
next
  case (3 s len)
  then show ?case using length_file_bytes by (cases s) (auto simp: fat_read_def word_le_nat_alt file_size_def)
qed

lemma fat_seek_ok:
  assumes f: "file_ok dev disk n cs f v" and p: "0 \<le> p" "nat p < file_size f"
  shows "\<exists>f1 v1. fat_seek dev p SEEK_SET f v = Ok (STATUS_SUCCESS, f1, v1) \<and> file_ok dev disk n cs f1 v1 \<and> same_file dev disk n f v f1 v1 \<and>
     uint (cursor f1) = p"
proof -
  let ?k = "unat (cluster_size v)"
  have ok: "vol_ok dev disk n v" and sz: "file_size f \<le> length cs * ?k" using f by (simp_all add: file_ok_def)
  have i: "nat p div ?k < length cs" using p(2) sz by (simp add: less_mult_imp_div_less)
  then have ch: "chain disk n v (head_cluster f) cs" using f by (auto simp: file_ok_def)
  have l: "0 < length cs" using i by auto
  have h: "head_cluster f = cs ! 0" using chain_first [OF ch] i by (cases cs) auto
  obtain c1 v1 where v1: "get_next_cluster dev (nat p div ?k) (head_cluster f) v = Ok (STATUS_SUCCESS, c1, v1)" "reads_to dev disk n v v1" "c1 = cs ! (nat p div ?k)"
    using get_next_ok [OF ok ch h l, of "nat p div ?k"] i by (auto simp: chain_at_def)
  have d: "nat (p div uint (cluster_size v)) = nat p div ?k" using p(1) by (simp add: nat_div_distrib)
  have "uint (de_size (file_direntry f)) = int (file_size f)" by (simp add: file_size_def)
  then have m: "min p (uint (de_size (file_direntry f))) = p" using p by simp
  have "p < 2 ^ 32" using p unat_u32_less [of "de_size (file_direntry f)"] by (simp add: file_size_def)
  then have u: "uint (of_int p :: u32) = p" using p(1) by (simp add: uint_word_of_int_eq take_bit_int_eq_self)
  define f1 where "f1 = f\<lparr>current_cluster := c1, cursor := of_int p\<rparr>"
  have z: "cluster_size v \<noteq> 0" using cluster_size_pos [OF ok] by auto
  have s: "same_file dev disk n f v f1 v1" using v1(2) by (simp add: same_file_def f1_def)
  have c: "unat (cursor f1) = nat p" using u by (simp add: f1_def unat_eq_nat_uint)
  then have "file_ok dev disk n cs f1 v1" using file_ok_same [OF f s] p(2) v1(3) by (simp add: f1_def)
  moreover have "fat_seek dev p SEEK_SET f v = Ok (STATUS_SUCCESS, f1, v1)" using p(1) z v1(1) m d by (simp add: fat_seek_def Let_def f1_def)
  ultimately show ?thesis using s u by (simp add: f1_def)
qed

text \<open>
  C4: Random access to a file of a FAT volume. On a volume whose buffers and layout are in order, a file whose chain of clusters holds
  its size is a list of bytes: seeking to a position inside it succeeds and is what \<^verbatim>\<open>tell\<close> reports, and reads of any sizes then deliver
  the consecutive pieces of the file from there to its end, across clusters, sectors of the table and the caches of both, for
  tables of 12, 16 and 32 bits.  The file stays in order for further operations.
\<close>

theorem fat_random_access:
  assumes "file_ok dev disk n cs f v" "0 \<le> p" "nat p < file_size f" "list_all (\<lambda>len. file_size f + unat len < 2 ^ 32) lens"
  shows "\<exists>f1 v1 f2 v2. fat_seek dev p SEEK_SET f v = Ok (STATUS_SUCCESS, f1, v1) \<and> fat_tell f1 = (STATUS_SUCCESS, p) \<and>
     read_pieces (\<lambda>len (f, v). fat_read dev len f v) lens (f1, v1) =
       Ok (take (\<Sum>len \<leftarrow> lens. unat len) (drop (nat p) (file_bytes disk cs f v)), f2, v2) \<and>
     file_ok dev disk n cs f2 v2 \<and> file_bytes disk cs f2 v2 = file_bytes disk cs f v"
proof -
  obtain f1 v1 where f1: "fat_seek dev p SEEK_SET f v = Ok (STATUS_SUCCESS, f1, v1)" "file_ok dev disk n cs f1 v1" "same_file dev disk n f v f1 v1" "uint (cursor f1) = p"
    using fat_seek_ok [OF assms(1-3)] by auto
  have b: "file_bytes disk cs f1 v1 = file_bytes disk cs f v" using same_file_bytes [OF f1(3)] .
  have c: "unat (cursor f1) = nat p" using f1(4) by (simp add: unat_eq_nat_uint)
  obtain s2 where "read_pieces (\<lambda>len (f, v). fat_read dev len f v) lens (f1, v1) =
       Ok (take (\<Sum>len \<leftarrow> lens. unat len) (drop (nat p) (file_bytes disk cs f v)), s2)" "case s2 of (f2, v2) \<Rightarrow> file_ok dev disk n cs f2 v2"
      "(case s2 of (f2, v2) \<Rightarrow> file_bytes disk cs f2 v2) = file_bytes disk cs f v"
    using fat_file.pieces [of dev disk n cs "(f1, v1)" lens] f1(2) assms(4) length_file_bytes [OF assms(1)] b c by auto
  then show ?thesis using f1(1,4) by (cases s2) (auto simp: fat_tell_def)
qed

text \<open>The file of the example volume.\<close>

definition example_file :: fat_file_data where
  "example_file = \<lparr>direntry_cluster = 4, direntry_entry_index = 2, file_direntry = example_entry, head_cluster = 2, current_cluster = 2, cursor = 0\<rparr>"

theorem fat_random_access_witness:
  "\<exists>f1 v1 f2 v2. fat_seek example_device 510 SEEK_SET example_file example_volume = Ok (STATUS_SUCCESS, f1, v1) \<and>
     read_pieces (\<lambda>len (f, v). fat_read example_device len f v) [1, 3] (f1, v1) = Ok ([0x61, 0x61, 0x62, 0x62], f2, v2)"
proof -
  have c: "head_cluster example_file = 2" "file_size example_file = 600" "unat (cluster_size example_volume) = 512" "unat (cursor example_file) = 0"
    "current_cluster example_file = 2" by code_simp+
  have f: "file_ok example_device example_disk 8 [2, 3] example_file example_volume"
    unfolding file_ok_def using example_volume_ok example_chains(1) c by (simp del: chain.simps)
  have "nat 510 < file_size example_file" "list_all (\<lambda>len. file_size example_file + unat len < 2 ^ 32) [1 :: u32, 3]" by (simp_all add: c)
  moreover have "take (\<Sum>len \<leftarrow> [1 :: u32, 3]. unat len) (drop (nat 510) (file_bytes example_disk [2, 3] example_file example_volume)) = [0x61, 0x61, 0x62, 0x62]"
    by code_simp
  ultimately show ?thesis using fat_random_access [OF f, of 510 "[1, 3]"] by auto
qed

end
