(* ===== verification/FatDir.thy ===== *)
theory FatDir
  imports FatFile
begin

text \<open>
  Directories of a FAT volume: the iteration of \<^verbatim>\<open>boot/filesystem/fat/fat.c\<close> over clusters agrees with a scan of the flat list of
  entries, and opening by name finds the first entry with that name.
\<close>

section \<open>Directories\<close>

text \<open>
  The reference: a directory is the list of its entries, without regard to clusters.  \<open>scan_entries\<close> finds the next entry in use,
  with its position, the buffer of the long name and whether there is a long name.
\<close>

fun scan_entries :: "u8 list list \<Rightarrow> nat \<Rightarrow> u16 list \<Rightarrow> bool \<Rightarrow> (nat \<times> u16 list \<times> bool) option outcome" where
  "scan_entries [] i lfn is_lfn = Ok None"
| "scan_entries (e # es) i lfn is_lfn =
     (if e ! 0 = 0 then Ok None
      else if e ! 0 = 0xE5 then scan_entries es (Suc i) lfn is_lfn
      else if de_attribute e AND 0x0F = 0x0F then obind (get_lfn_filename e lfn) (\<lambda>lfn. scan_entries es (Suc i) lfn True)
      else if de_attribute e AND 0x08 \<noteq> 0 then scan_entries es (Suc i) lfn False
      else Ok (Some (i, lfn, is_lfn)))"

definition dir_slots :: "u8 list \<Rightarrow> u8 list list" where
  "dir_slots bs = map (\<lambda>i. take 32 (drop (32 * i) bs)) [0..<length bs div 32]"

text \<open>The name that is given to the entry found.\<close>

definition entry_text :: "u8 list \<Rightarrow> u16 list \<Rightarrow> bool \<Rightarrow> u8 list outcome" where
  "entry_text e lfn is_lfn = (if is_lfn then lfn_ucs2_to_utf8 lfn True 63 else get_sfn_filename e)"

definition dir_entries :: "(int \<Rightarrow> u8 list) \<Rightarrow> u32 list \<Rightarrow> fat_data \<Rightarrow> u8 list list" where
  "dir_entries disk cs v = dir_slots (chain_bytes disk v cs)"

text \<open>A directory kept in a chain of clusters, at entry \<open>j\<close> of cluster \<open>i\<close>.\<close>

definition dir_at :: "block_device \<Rightarrow> (int \<Rightarrow> u8 list) \<Rightarrow> int \<Rightarrow> u32 list \<Rightarrow> nat \<Rightarrow> nat \<Rightarrow> fat_dir_data \<Rightarrow> fat_data \<Rightarrow> bool" where
  "dir_at dev disk n cs i j d v \<longleftrightarrow> vol_ok dev disk n v \<and> chain disk n v (dir_head_cluster d) cs \<and> \<not> is_rootdir d v \<and>
     cluster_size v < 0x10000 \<and> i < length cs \<and> dir_current_cluster d = cs ! i \<and> current_entry_index d = j \<and> j \<le> entries_per_block d v"

definition dir_ok :: "block_device \<Rightarrow> (int \<Rightarrow> u8 list) \<Rightarrow> int \<Rightarrow> u32 list \<Rightarrow> nat \<Rightarrow> fat_dir_data \<Rightarrow> fat_data \<Rightarrow> bool" where
  "dir_ok dev disk n cs pos d v \<longleftrightarrow> (\<exists>i j. dir_at dev disk n cs i j d v \<and> pos = i * entries_per_block d v + j)"

lemma nth_dir_slots: "i < length bs div 32 \<Longrightarrow> dir_slots bs ! i = take 32 (drop (32 * i) bs)"
  by (simp add: dir_slots_def)

lemma length_dir_slots [simp]: "length (dir_slots bs) = length bs div 32"
  by (simp add: dir_slots_def)

lemma per_block:
  assumes "vol_ok dev disk n v" "\<not> is_rootdir d v" "cluster_size v < 0x10000"
  shows "entries_per_block d v * 32 = unat (cluster_size v)" "0 < entries_per_block d v"
proof -
  have "unat (ucast (cluster_size v) :: u16) = unat (cluster_size v)"
    using assms(3) by (simp add: unsigned_ucast_eq take_bit_nat_eq_self word_less_nat_alt)
  then have e: "entries_per_block d v = unat (cluster_size v) div 32" using assms(2) by (simp add: entries_per_block_def)
  have "unat (cluster_size v) = length (cluster_bytes disk v 0)" using length_cluster_bytes [OF assms(1)] by simp
  also have "\<dots> = 512 * unat (sectors_per_cluster v)" using length_blocks assms(1) by (auto simp: cluster_bytes_def vol_ok_def)
  finally have c: "unat (cluster_size v) = 512 * unat (sectors_per_cluster v)" .
  show "entries_per_block d v * 32 = unat (cluster_size v)" by (simp add: e c)
  show "0 < entries_per_block d v" using cluster_size_pos [OF assms(1)] by (simp add: e c)
qed

text \<open>The scan of one cluster agrees with the reference on the entries of that cluster.\<close>

lemma scan_block_last: "0 < k \<Longrightarrow> scan_block buf False k k lfn is_lfn = Ok (Scan_next, k, lfn, is_lfn)"
  by (subst scan_block.simps) simp

lemma scan_block_step:
  assumes "i < k" "length buf = 32 * k" "e = take 32 (drop (32 * i) buf)"
  shows "scan_block buf False k i lfn is_lfn =
    (if e ! 0 = 0 then Ok (Scan_end, i, lfn, is_lfn)
     else if e ! 0 = 0xE5 then scan_block buf False k (Suc i) lfn is_lfn
     else if de_attribute e AND 0x0F = 0x0F then obind (get_lfn_filename e lfn) (\<lambda>lfn. scan_block buf False k (Suc i) lfn True)
     else if de_attribute e AND 0x08 \<noteq> 0 then scan_block buf False k (Suc i) lfn False
     else Ok (Scan_found, i, lfn, is_lfn))"
proof -
  have "(if Suc i mod k = 0 then Ok (Scan_next, Suc i, l, b) else scan_block buf False k (Suc i) l b) = scan_block buf False k (Suc i) l b" for l b
  proof (cases "Suc i = k")
    case False
    then have "Suc i mod k \<noteq> 0" using assms(1) by simp
    then show ?thesis by simp
  qed (use scan_block_last [of k] in auto)
  moreover have "\<not> length buf < 32 * i + 32" using assms(1,2) by simp
  ultimately show ?thesis using assms(1,3) by (subst scan_block.simps) (simp add: Let_def)
qed

lemma scan_block_ok:
  assumes "i \<le> k" "length buf = 32 * k" "0 < k" "scan_entries (drop i (dir_slots buf) @ es) (base + i) lfn is_lfn = Ok r"
  shows "\<exists>s i' lfn' is_lfn'. scan_block buf False k i lfn is_lfn = Ok (s, i', lfn', is_lfn') \<and> i' \<le> k \<and>
     (case s of Scan_end \<Rightarrow> r = None
      | Scan_found \<Rightarrow> r = Some (base + i', lfn', is_lfn') \<and> i' < k
      | Scan_next \<Rightarrow> i' = k \<and> scan_entries es (base + k) lfn' is_lfn' = Ok r)"
  using assms(1,4)
proof (induction "k - i" arbitrary: i lfn is_lfn)
  case 0
  then have "i = k" by simp
  then show ?case using 0 assms(2,3) scan_block_last [of k] by auto
next
  case (Suc x)
  then have i: "i < k" by simp
  define e where "e = take 32 (drop (32 * i) buf)"
  have d: "drop i (dir_slots buf) = e # drop (Suc i) (dir_slots buf)"
    using i assms(2) nth_dir_slots [of i buf] Cons_nth_drop_Suc [of i "dir_slots buf"] by (simp add: e_def)
  have IH: "scan_entries (drop (Suc i) (dir_slots buf) @ es) (Suc (base + i)) l b = Ok r \<Longrightarrow>
      \<exists>s i' lfn' is_lfn'. scan_block buf False k (Suc i) l b = Ok (s, i', lfn', is_lfn') \<and> i' \<le> k \<and>
       (case s of Scan_end \<Rightarrow> r = None | Scan_found \<Rightarrow> r = Some (base + i', lfn', is_lfn') \<and> i' < k
        | Scan_next \<Rightarrow> i' = k \<and> scan_entries es (base + k) lfn' is_lfn' = Ok r)" for l b
    using Suc.hyps(1) [of "Suc i" l b] Suc.hyps(2) i by auto
  show ?case using Suc.prems(2) i unfolding d scan_block_step [OF i assms(2) e_def]
    by (auto simp: obind_Ok_iff intro: IH split: if_splits)
qed

lemma entries_append: "length xs = 32 * k \<Longrightarrow> dir_slots (xs @ ys) = dir_slots xs @ dir_slots ys"
proof -
  assume l: "length xs = 32 * k"
  have "length (xs @ ys) div 32 = k + length ys div 32" using l by simp
  then have "[0..<length (xs @ ys) div 32] = [0..<k] @ map (\<lambda>i. i + k) [0..<length ys div 32]"
    using upt_add_eq_append [of 0 k "length ys div 32"] by (simp only: map_add_upt) (simp add: add.commute)
  then have "dir_slots (xs @ ys) = map (\<lambda>i. take 32 (drop (32 * i) (xs @ ys))) [0..<k] @ map (\<lambda>i. take 32 (drop (32 * (i + k)) (xs @ ys))) [0..<length ys div 32]"
    by (simp add: dir_slots_def)
  also have "\<dots> = map (\<lambda>i. take 32 (drop (32 * i) xs)) [0..<k] @ map (\<lambda>i. take 32 (drop (32 * i) ys)) [0..<length ys div 32]"
    using l by (intro arg_cong2 [where f = append] map_cong) (auto simp: algebra_simps)
  finally show ?thesis using l by (simp add: dir_slots_def)
qed

lemma dir_entries_from:
  assumes "vol_ok dev disk n v" "unat (cluster_size v) = k * 32" "i < length cs" "j \<le> k"
  shows "drop (i * k + j) (dir_entries disk cs v) = drop j (dir_slots (cluster_bytes disk v (cs ! i))) @ dir_entries disk (drop (Suc i) cs) v"
  using assms(3)
proof (induction cs arbitrary: i)
  case (Cons c cs)
  have l: "length (cluster_bytes disk v c) = 32 * k" for c using length_cluster_bytes [OF assms(1)] assms(2) by simp
  have e: "dir_entries disk (c # cs) v = dir_slots (cluster_bytes disk v c) @ dir_entries disk cs v"
    using entries_append [OF l] by (simp add: dir_entries_def chain_bytes_def)
  show ?case
  proof (cases i)
    case 0
    then show ?thesis using e l assms(4) by simp
  next
    case (Suc i')
    then show ?thesis using e l Cons.IH [of i'] Cons.prems by (simp add: add.assoc)
  qed
qed simp

lemma same_dir:
  assumes "geometry v' = geometry v" "dir_head_cluster d' = dir_head_cluster d"
  shows "is_rootdir d' v' = is_rootdir d v" "entries_per_block d' v' = entries_per_block d v"
  using geometry_fields [OF assms(1)] assms(2) by (simp_all add: is_rootdir_def entries_per_block_def)

lemma dir_moves:
  assumes "dir_at dev disk n cs i j d v" "reads_to dev disk n v v'" "dir_head_cluster d' = dir_head_cluster d" "dir_current_cluster d' = cs ! i'" "i' < length cs"
    "current_entry_index d' = j'" "j' \<le> entries_per_block d v"
  shows "dir_at dev disk n cs i' j' d' v'"
proof -
  have g: "geometry v' = geometry v" "vol_ok dev disk n v'" using assms(2) by (simp_all add: reads_to_def)
  show ?thesis using assms geometry_chain [OF g(1)] geometry_fields [OF g(1)] same_dir [OF g(1) assms(3)] g(2) by (simp add: dir_at_def)
qed

text \<open>The block that is fetched: the current cluster, or the next one at its end.\<close>

lemma fetch_block_ok:
  assumes d: "dir_at dev disk n cs i j d v" and k: "k = entries_per_block d v"
  shows "\<exists>st d' v'. fetch_block dev d v = Ok (st, d', v') \<and> reads_to dev disk n v v' \<and>
    (if j = k \<and> Suc i = length cs then st = STATUS_END_OF_LIST \<and> d' = d
     else st = STATUS_SUCCESS \<and> (let i' = (if j = k then Suc i else i); j' = (if j = k then 0 else j) in
       d' = d\<lparr>current_entry_index := j', dir_current_cluster := cs ! i'\<rparr> \<and> dir_at dev disk n cs i' j' d' v' \<and> databuf v' = cluster_bytes disk v (cs ! i')))"
proof -
  have ok: "vol_ok dev disk n v" and ch: "chain disk n v (dir_head_cluster d) cs" and r: "\<not> is_rootdir d v" and i: "i < length cs"
    and c: "dir_current_cluster d = cs ! i" and j: "current_entry_index d = j" "j \<le> k"
    using d k by (simp_all add: dir_at_def)
  show ?thesis
  proof (cases "j = k")
    case False
    obtain v' where "read_cluster dev (cs ! i) v = Ok (STATUS_SUCCESS, v')" "reads_to dev disk n v v'" "databuf v' = cluster_bytes disk v (cs ! i)"
      using read_cluster_ok [OF ok chain_good [OF ch i]] by auto
    moreover have "d\<lparr>dir_current_cluster := cs ! i\<rparr> = d\<lparr>current_entry_index := j, dir_current_cluster := cs ! i\<rparr>" using j(1) by auto
    ultimately show ?thesis using False r c j k dir_moves [OF d, of v' "d\<lparr>current_entry_index := j, dir_current_cluster := cs ! i\<rparr>" i j] i
      by (auto simp: fetch_block_def Let_def)
  next
    case True
    obtain st c1 v1 where v1: "get_next_cluster dev 1 (cs ! i) v = Ok (st, c1, v1)" "reads_to dev disk n v v1" "chain_at v cs (i + 1) c1"
        "st = (if i + 1 < length cs then STATUS_SUCCESS else STATUS_END_OF_LIST)"
      using get_next_ok [OF ok ch refl i, of 1] i by auto
    show ?thesis
    proof (cases "Suc i = length cs")
      case last: True
      then show ?thesis using True r c j k v1 by (auto simp: fetch_block_def Let_def CHECK_SUCCESS_def)
    next
      case False
      then have i1: "Suc i < length cs" using i by simp
      have g: "geometry v1 = geometry v" "vol_ok dev disk n v1" using v1(2) by (simp_all add: reads_to_def)
      have "good_cluster n v1 (cs ! Suc i)" using chain_good [OF ch i1] geometryD(4) [OF g(1)] by simp
      from read_cluster_ok [OF g(2) this] obtain v2 where v2: "read_cluster dev (cs ! Suc i) v1 = Ok (STATUS_SUCCESS, v2)" "reads_to dev disk n v1 v2"
          "databuf v2 = cluster_bytes disk v (cs ! Suc i)" using geometryD(6) [OF g(1)] by auto
      have rt: "reads_to dev disk n v v2" using reads_to_trans [OF v1(2) v2(2)] .
      have "c1 = cs ! Suc i" using v1(3) i1 by (simp add: chain_at_def)
      then have "fetch_block dev d v = Ok (STATUS_SUCCESS, d\<lparr>current_entry_index := 0, dir_current_cluster := cs ! Suc i\<rparr>, v2)"
        using True i1 r c j k v1 v2(1) by (simp add: fetch_block_def Let_def)
      then show ?thesis using True False rt v2(3) dir_moves [OF d rt, of "d\<lparr>current_entry_index := 0, dir_current_cluster := cs ! Suc i\<rparr>" "Suc i" 0] i1
        by simp
    qed
  qed
qed

text \<open>What a call of the loop returns for the result of the reference.\<close>

definition found :: "block_device \<Rightarrow> (int \<Rightarrow> u8 list) \<Rightarrow> int \<Rightarrow> u32 list \<Rightarrow> nat \<Rightarrow> (nat \<times> u16 list \<times> bool) option \<Rightarrow> status \<Rightarrow> (u16 list \<times> bool) option \<Rightarrow>
    fat_dir_data \<Rightarrow> fat_data \<Rightarrow> bool" where
  "found dev disk n cs k r st res d v = (case r of
     None \<Rightarrow> st = STATUS_END_OF_LIST \<and> res = None
   | Some (q, lfn, is_lfn) \<Rightarrow> st = STATUS_SUCCESS \<and> res = Some (lfn, is_lfn) \<and>
       (\<exists>i j. j < k \<and> q = i * k + j \<and> dir_at dev disk n cs i j d v \<and> databuf v = cluster_bytes disk v (cs ! i)))"

lemma iter_loop_ok:
  assumes "dir_at dev disk n cs i j d v" "k = entries_per_block d v" "length cs - i + (if j = k then 0 else 1) < fuel"
    "scan_entries (drop (i * k + j) (dir_entries disk cs v)) (i * k + j) lfn is_lfn = Ok r"
  shows "\<exists>st res d' v'. iter_loop dev fuel lfn is_lfn d v = Ok (st, res, d', v') \<and> reads_to dev disk n v v' \<and>
    dir_head_cluster d' = dir_head_cluster d \<and> found dev disk n cs k r st res d' v'"
  using assms
proof (induction fuel arbitrary: i j d v lfn is_lfn)
  case (Suc fuel)
  have ok: "vol_ok dev disk n v" and j: "j \<le> k" and i: "i < length cs" using Suc.prems(1,2) by (simp_all add: dir_at_def)
  have "\<not> is_rootdir d v" "cluster_size v < 0x10000" using Suc.prems(1) by (simp_all add: dir_at_def)
  note pb = per_block [OF ok this, folded Suc.prems(2)]
  note ef = dir_entries_from [OF ok pb(1) [symmetric]]
  have len: "length (cluster_bytes disk v c) = 32 * k" for c using length_cluster_bytes [OF ok] pb(1) by simp
  obtain st d1 v1 where f: "fetch_block dev d v = Ok (st, d1, v1)" "reads_to dev disk n v v1"
      "if j = k \<and> Suc i = length cs then st = STATUS_END_OF_LIST \<and> d1 = d
       else st = STATUS_SUCCESS \<and> (let i' = (if j = k then Suc i else i); j' = (if j = k then 0 else j) in
         d1 = d\<lparr>current_entry_index := j', dir_current_cluster := cs ! i'\<rparr> \<and> dir_at dev disk n cs i' j' d1 v1 \<and> databuf v1 = cluster_bytes disk v (cs ! i'))"
    using fetch_block_ok [OF Suc.prems(1,2)] by auto
  have g: "geometry v1 = geometry v" using f(2) by (simp add: reads_to_def)
  show ?case
  proof (cases "j = k \<and> Suc i = length cs")
    case True
    then have "drop (i * k + j) (dir_entries disk cs v) = []" using ef [OF i j] len by (simp add: dir_entries_def chain_bytes_def dir_slots_def)
    then have "r = None" using Suc.prems(4) by simp
    then show ?thesis using f True by (auto simp: found_def CHECK_SUCCESS_def)
  next
    case False
    define i' where "i' = (if j = k then Suc i else i)"
    define j' where "j' = (if j = k then 0 else j)"
    have d1: "st = STATUS_SUCCESS" "d1 = d\<lparr>current_entry_index := j', dir_current_cluster := cs ! i'\<rparr>" "dir_at dev disk n cs i' j' d1 v1"
        "databuf v1 = cluster_bytes disk v (cs ! i')" using f(3) unfolding if_not_P [OF False] Let_def i'_def [symmetric] j'_def [symmetric] by blast+
    have i': "i' < length cs" "j' \<le> k" "i' * k + j' = i * k + j" using False i j by (auto simp: i'_def j'_def)
    have sd: "is_rootdir d1 v1 = is_rootdir d v" "entries_per_block d1 v1 = k" using same_dir [OF g, of d1 d] d1(2) Suc.prems(2) by simp_all
    have e: "scan_entries (drop j' (dir_slots (databuf v1)) @ dir_entries disk (drop (Suc i') cs) v) (i' * k + j') lfn is_lfn = Ok r"
      using Suc.prems(4) ef [OF i'(1,2)] i'(3) d1(4) by simp
    obtain s j2 lfn2 is2 where s: "scan_block (databuf v1) False k j' lfn is_lfn = Ok (s, j2, lfn2, is2)" "j2 \<le> k"
        "case s of Scan_end \<Rightarrow> r = None | Scan_found \<Rightarrow> r = Some (i' * k + j2, lfn2, is2) \<and> j2 < k
         | Scan_next \<Rightarrow> j2 = k \<and> scan_entries (dir_entries disk (drop (Suc i') cs) v) (i' * k + k) lfn2 is2 = Ok r"
      using scan_block_ok [OF i'(2) _ pb(2) e] len d1(4) by auto
    define d2 where "d2 = d1\<lparr>current_entry_index := j2\<rparr>"
    have at2: "dir_at dev disk n cs i' j2 d2 v1" using dir_moves [OF Suc.prems(1) f(2), of d2 i' j2] d1(2) i'(1) s(2) Suc.prems(2) by (simp add: d2_def)
    have it: "iter_loop dev (Suc fuel) lfn is_lfn d v = (case s of Scan_end \<Rightarrow> Ok (STATUS_END_OF_LIST, None, d2, v1)
        | Scan_found \<Rightarrow> Ok (STATUS_SUCCESS, Some (lfn2, is2), d2, v1) | Scan_next \<Rightarrow> iter_loop dev fuel lfn2 is2 d2 v1)"
      unfolding d2_def using f(1) d1(1) s(1) sd(2) d1(3) by (simp add: Let_def dir_at_def)
    show ?thesis
    proof (cases s)
      case Scan_end
      then show ?thesis using it s(3) f(2) by (simp add: found_def d2_def d1(2))
    next
      case Scan_found
      then show ?thesis using it s(3) f(2) at2 d1(4) geometryD(6) [OF g] by (auto simp: found_def d2_def d1(2))
    next
      case Scan_next
      then have j2: "j2 = k" using s(3) by simp
      have k2: "k = entries_per_block d2 v1" using same_dir(2) [OF g, of d2 d] Suc.prems(2) by (simp add: d2_def d1(2))
      have fuel: "length cs - i' + (if j2 = k then 0 else 1) < fuel" using j2 Suc.prems(3) i by (auto simp: i'_def split: if_splits)
      have r: "scan_entries (drop (i' * k + j2) (dir_entries disk cs v1)) (i' * k + j2) lfn2 is2 = Ok r"
        using s(3) Scan_next ef [OF i'(1), of k] len geometry_chain_bytes [OF g] j2 by (simp add: dir_entries_def)
      from Suc.IH [OF at2 k2 fuel r] obtain st res d' v' where "iter_loop dev fuel lfn2 is2 d2 v1 = Ok (st, res, d', v')" "reads_to dev disk n v1 v'"
          "dir_head_cluster d' = dir_head_cluster d2" "found dev disk n cs k r st res d' v'" by blast
      then show ?thesis using it Scan_next reads_to_trans [OF f(2)] by (auto simp: d2_def d1(2))
    qed
  qed
qed simp

lemma nth_dir_entries:
  assumes "dir_at dev disk n cs i j d v" "k = entries_per_block d v" "j < k"
  shows "dir_entries disk cs v ! (i * k + j) = take 32 (drop (32 * j) (cluster_bytes disk v (cs ! i)))" "length (cluster_bytes disk v (cs ! i)) = 32 * k"
    "i * k + j < length (dir_entries disk cs v)"
proof -
  have ok: "vol_ok dev disk n v" and i: "i < length cs" and r: "\<not> is_rootdir d v" "cluster_size v < 0x10000" using assms(1) by (simp_all add: dir_at_def)
  note pb = per_block [OF ok r, folded assms(2)]
  show l: "length (cluster_bytes disk v (cs ! i)) = 32 * k" using length_cluster_bytes [OF ok] pb(1) by simp
  have d: "drop (i * k + j) (dir_entries disk cs v) = drop j (dir_slots (cluster_bytes disk v (cs ! i))) @ dir_entries disk (drop (Suc i) cs) v"
    using dir_entries_from [OF ok pb(1) [symmetric] i, of j] assms(3) by simp
  have "length (dir_entries disk cs v) - (i * k + j) = k - j + length (dir_entries disk (drop (Suc i) cs) v)" using arg_cong [OF d, of length] l by simp
  then show lt: "i * k + j < length (dir_entries disk cs v)" using assms(3) by linarith
  have "dir_entries disk cs v ! (i * k + j) = hd (drop (i * k + j) (dir_entries disk cs v))" using lt by (simp add: hd_drop_conv_nth)
  also have "\<dots> = dir_slots (cluster_bytes disk v (cs ! i)) ! j" using l assms(3) by (simp add: d hd_append hd_drop_conv_nth)
  finally show "dir_entries disk cs v ! (i * k + j) = take 32 (drop (32 * j) (cluster_bytes disk v (cs ! i)))" using nth_dir_slots l assms(3) by simp
qed

lemma iter_directory_ok:
  assumes d: "dir_ok dev disk n cs pos d v" and fuel: "length cs + 1 < fuel" and r: "scan_entries (drop pos (dir_entries disk cs v)) pos (stack_lfn m) False = Ok r"
    and t: "\<And>q lfn b. r = Some (q, lfn, b) \<Longrightarrow> entry_text (dir_entries disk cs v ! q) lfn b = Ok bs \<and> length bs \<le> length (entry_name entry)"
  shows "\<exists>d' v'. reads_to dev disk n v v' \<and> dir_head_cluster d' = dir_head_cluster d \<and> (case r of
      None \<Rightarrow> iter_directory dev fuel m entry d v = Ok (STATUS_END_OF_LIST, entry, d', v')
    | Some (q, _) \<Rightarrow> iter_directory dev fuel m entry d v =
        Ok (STATUS_SUCCESS, \<lparr>entry_name = bs @ drop (length bs) (entry_name entry), entry_size = ucast (de_size (dir_entries disk cs v ! q))\<rparr>, d', v') \<and>
        dir_ok dev disk n cs (Suc q) d' v' \<and> dir_direntry d' = dir_entries disk cs v ! q)"
proof -
  define k where "k = entries_per_block d v"
  obtain i j where at: "dir_at dev disk n cs i j d v" and pos: "pos = i * k + j" using d by (auto simp: dir_ok_def k_def)
  have "length cs - i + (if j = k then 0 else 1) < fuel" using fuel by auto
  from iter_loop_ok [OF at k_def this r [unfolded pos]] obtain st res d1 v1 where it: "iter_loop dev fuel (stack_lfn m) False d v = Ok (st, res, d1, v1)"
      "reads_to dev disk n v v1" "dir_head_cluster d1 = dir_head_cluster d" "found dev disk n cs k r st res d1 v1" by blast
  have g: "geometry v1 = geometry v" using it(2) by (simp add: reads_to_def)
  show ?thesis
  proof (cases r)
    case None
    then show ?thesis using it by (auto simp: found_def iter_directory_def)
  next
    case (Some x)
    obtain q lfn b where x: "x = (q, lfn, b)" by (cases x)
    obtain i' j' where f: "j' < k" "q = i' * k + j'" "dir_at dev disk n cs i' j' d1 v1" "databuf v1 = cluster_bytes disk v1 (cs ! i')"
        "st = STATUS_SUCCESS" "res = Some (lfn, b)" using it(4) by (auto simp: found_def Some x)
    have k1: "k = entries_per_block d1 v1" using same_dir(2) [OF g it(3)] by (simp add: k_def)
    let ?e = "dir_entries disk cs v ! q"
    note e = nth_dir_entries [OF f(3) k1 f(1)]
    have de: "dir_entries disk cs v1 = dir_entries disk cs v" using geometry_chain_bytes [OF g] by (simp add: dir_entries_def)
    have ix: "current_entry_index d1 = j'" using f(3) by (simp add: dir_at_def)
    define d2 where "d2 = d1\<lparr>dir_direntry := ?e, current_entry_index := Suc j'\<rparr>"
    have "dir_at dev disk n cs i' (Suc j') d2 v1"
      using dir_moves [OF f(3), of v1 d2 i' "Suc j'"] f(1,3) k1 by (simp add: d2_def reads_to_def dir_at_def)
    moreover have "entries_per_block d2 v1 = k" using same_dir(2) [of v1 v1 d2 d1] k1 by (simp add: d2_def)
    ultimately have "dir_ok dev disk n cs (Suc q) d2 v1" unfolding dir_ok_def using f(2) by (intro exI [of _ i'] exI [of _ "Suc j'"]) simp
    moreover have "iter_directory dev fuel m entry d v =
        Ok (STATUS_SUCCESS, \<lparr>entry_name = bs @ drop (length bs) (entry_name entry), entry_size = ucast (de_size ?e)\<rparr>, d2, v1)"
      using it(1) f(5,6) t [of q lfn b] ix e(1,2) f(1,2,4) de Some x by (simp add: iter_directory_def Let_def store_def d2_def flip: entry_text_def)
    ultimately show ?thesis using it(2,3) Some x by (intro exI [of _ d2] exI [of _ v1]) (simp add: d2_def)
  qed
qed

section \<open>Opening by name\<close>

text \<open>The listing of a directory: the entries in use with their names; every name starts in a buffer with arbitrary contents.\<close>

fun listing :: "u16 list \<Rightarrow> u8 list list \<Rightarrow> u16 list \<Rightarrow> bool \<Rightarrow> (u8 list \<times> u8 list) list outcome" where
  "listing junk [] lfn is_lfn = Ok []"
| "listing junk (e # es) lfn is_lfn =
     (if e ! 0 = 0 then Ok []
      else if e ! 0 = 0xE5 then listing junk es lfn is_lfn
      else if de_attribute e AND 0x0F = 0x0F then obind (get_lfn_filename e lfn) (\<lambda>lfn. listing junk es lfn True)
      else if de_attribute e AND 0x08 \<noteq> 0 then listing junk es lfn False
      else obind (entry_text e lfn is_lfn) (\<lambda>bs. obind (listing junk es junk False) (\<lambda>l. Ok ((bs, e) # l))))"

lemma listing_scan:
  assumes "listing junk es lfn is_lfn = Ok l"
  shows "\<exists>r. scan_entries es i lfn is_lfn = Ok r \<and> (case r of None \<Rightarrow> l = []
    | Some (q, lfn', b) \<Rightarrow> i \<le> q \<and> q - i < length es \<and> (\<exists>bs l'. l = (bs, es ! (q - i)) # l' \<and> entry_text (es ! (q - i)) lfn' b = Ok bs \<and>
        listing junk (drop (Suc (q - i)) es) junk False = Ok l'))"
  using assms
proof (induction es arbitrary: i lfn is_lfn)
  case (Cons e es)
  have IH: "\<exists>r. scan_entries es (Suc i) lf b = Ok r \<and> (case r of None \<Rightarrow> l = []
    | Some (q, lfn', b) \<Rightarrow> i \<le> q \<and> q - i < length (e # es) \<and> (\<exists>bs l'. l = (bs, (e # es) ! (q - i)) # l' \<and> entry_text ((e # es) ! (q - i)) lfn' b = Ok bs \<and>
        listing junk (drop (Suc (q - i)) (e # es)) junk False = Ok l'))" if "listing junk es lf b = Ok l" for lf b
    using Cons.IH [OF that, of "Suc i"] by (fastforce split: option.splits prod.splits simp: Suc_diff_le nth_Cons' diff_Suc split: nat.splits)
  show ?case using Cons.prems by (auto simp: obind_Ok_iff intro: IH split: if_splits)
qed simp

lemma compare_longer: "compare_loop key n as bs = Ok x \<Longrightarrow> compare_loop key n as (bs @ rest) = Ok x"
  by (induction key n as bs rule: compare_loop.induct) (auto simp: obind_Ok_iff split: if_splits)

definition names :: "u8 list \<Rightarrow> u8 list \<times> u8 list \<Rightarrow> bool" where
  "names name x \<longleftrightarrow> strncasecmp name (fst x) 256 = Ok 0"

definition comparable :: "u8 list \<Rightarrow> u8 list \<times> u8 list \<Rightarrow> bool" where
  "comparable name x \<longleftrightarrow> length (fst x) \<le> 256 \<and> is_Ok (strncasecmp name (fst x) 256)"

lemma match_loop_ok:
  assumes "dir_ok dev disk n cs pos d v" "length cs + 1 < blocks" "length l < fuel" "listing (stack_lfn m) (drop pos (dir_entries disk cs v)) (stack_lfn m) False = Ok l"
    "list_all (comparable name) l" "length (entry_name entry) = 256"
  shows "\<exists>entry' d' v'. reads_to dev disk n v v' \<and> dir_head_cluster d' = dir_head_cluster d \<and>
    match_loop dev blocks fuel m name entry d v = Ok (case find (names name) l of None \<Rightarrow> STATUS_ENTRY_NOT_FOUND | Some _ \<Rightarrow> STATUS_SUCCESS, entry', d', v') \<and>
    (case find (names name) l of None \<Rightarrow> True | Some (_, e) \<Rightarrow> dir_direntry d' = e)"
  using assms
proof (induction fuel arbitrary: pos l entry d v)
  case (Suc fuel)
  let ?es = "drop pos (dir_entries disk cs v)"
  obtain r where r: "scan_entries ?es pos (stack_lfn m) False = Ok r" "case r of None \<Rightarrow> l = []
      | Some (q, lfn', b) \<Rightarrow> pos \<le> q \<and> q - pos < length ?es \<and> (\<exists>bs l'. l = (bs, ?es ! (q - pos)) # l' \<and> entry_text (?es ! (q - pos)) lfn' b = Ok bs \<and>
        listing (stack_lfn m) (drop (Suc (q - pos)) ?es) (stack_lfn m) False = Ok l')"
    using listing_scan [OF Suc.prems(4), of pos] by blast
  show ?case
  proof (cases r)
    case None
    then obtain d' v' where "reads_to dev disk n v v'" "dir_head_cluster d' = dir_head_cluster d"
        "iter_directory dev blocks m entry d v = Ok (STATUS_END_OF_LIST, entry, d', v')"
      using iter_directory_ok [OF Suc.prems(1,2) r(1), of "[]" entry] by auto
    then show ?thesis using r(2) None by auto
  next
    case (Some x)
    obtain q lfn b where x: "x = (q, lfn, b)" by (cases x)
    let ?e = "dir_entries disk cs v ! q"
    obtain bs l' where q: "pos \<le> q" "q - pos < length ?es" and l: "l = (bs, ?e) # l'" "entry_text ?e lfn b = Ok bs"
        "listing (stack_lfn m) (drop (Suc q) (dir_entries disk cs v)) (stack_lfn m) False = Ok l'"
      using r(2) Some x by auto
    have bs: "length bs \<le> 256" "is_Ok (strncasecmp name bs 256)" using Suc.prems(5) l(1) by (simp_all add: comparable_def)
    then obtain c where c: "strncasecmp name bs 256 = Ok c" by (cases "strncasecmp name bs 256") auto
    let ?n = "bs @ drop (length bs) (entry_name entry)" and ?s = "ucast (de_size ?e) :: u64"
    have cn: "strncasecmp name ?n 256 = Ok c" using c compare_longer by (simp add: strncasecmp_def)
    obtain d1 v1 where d1: "reads_to dev disk n v v1" "dir_head_cluster d1 = dir_head_cluster d" "dir_ok dev disk n cs (Suc q) d1 v1" "dir_direntry d1 = ?e"
        "iter_directory dev blocks m entry d v = Ok (STATUS_SUCCESS, \<lparr>entry_name = ?n, entry_size = ?s\<rparr>, d1, v1)"
      using iter_directory_ok [OF Suc.prems(1,2) r(1), of bs entry] Some x l(2) bs(1) Suc.prems(6) by auto
    show ?thesis
    proof (cases "c = 0")
      case True
      then show ?thesis using d1 cn l(1) c by (auto simp: names_def)
    next
      case False
      have g: "geometry v1 = geometry v" using d1(1) by (simp add: reads_to_def)
      have li: "listing (stack_lfn m) (drop (Suc q) (dir_entries disk cs v1)) (stack_lfn m) False = Ok l'"
        using l(3) geometry_chain_bytes [OF g] by (simp add: dir_entries_def)
      have h: "length l' < fuel" "list_all (comparable name) l'" "length (entry_name \<lparr>entry_name = ?n, entry_size = ?s\<rparr>) = 256"
        using Suc.prems(3,5,6) l(1) bs(1) by simp_all
      from Suc.IH [OF d1(3) Suc.prems(2) h(1) li h(2,3)] obtain entry' d' v' where "reads_to dev disk n v1 v'" "dir_head_cluster d' = dir_head_cluster d1"
          "match_loop dev blocks fuel m name \<lparr>entry_name = ?n, entry_size = ?s\<rparr> d1 v1 =
             Ok (case find (names name) l' of None \<Rightarrow> STATUS_ENTRY_NOT_FOUND | Some _ \<Rightarrow> STATUS_SUCCESS, entry', d', v')"
          "case find (names name) l' of None \<Rightarrow> True | Some (_, e) \<Rightarrow> dir_direntry d' = e" by blast
      moreover have "find (names name) l = find (names name) l'" using l(1) c False names_def [of name "(bs, ?e)"] by simp
      ultimately show ?thesis using d1(2,5) cn False reads_to_trans [OF d1(1)]
        by (intro exI [of _ entry'] exI [of _ d'] exI [of _ v']) simp
    qed
  qed
qed simp

definition opened :: "fat_dir_data \<Rightarrow> fat_file_data" where
  "opened d = \<lparr>direntry_cluster = dir_current_cluster d, direntry_entry_index = current_entry_index d, file_direntry = dir_direntry d,
     head_cluster = de_cluster (dir_direntry d), current_cluster = de_cluster (dir_direntry d), cursor = 0\<rparr>"

text \<open>
  C5: Opening a file by its name. In a directory of any number of clusters, \<^verbatim>\<open>open\<close> looks at the entries in the order of the
  directory, skipping deleted entries and the volume label and collecting long names, and compares each name without regard to
  case. It fails with \<^verbatim>\<open>STATUS_ENTRY_NOT_FOUND\<close> when no name of the listing is the given one and with
  \<^verbatim>\<open>STATUS_WRONG_ELEMENT_TYPE\<close> when the first such entry is a directory; otherwise it gives a file whose first read delivers
  the bytes of the chain of clusters that the entry names, up to the size in the entry.
\<close>

theorem fat_open_by_name:
  assumes "dir_ok dev disk n cs pos d v" "length cs + 1 < blocks" "length l < fuel" "length (entry_name (stack_entry m)) = 256"
    "listing (stack_lfn m) (dir_entries disk cs v) (stack_lfn m) False = Ok l" "list_all (comparable name) l"
  shows "case find (names name) l of
      None \<Rightarrow> \<exists>d' v'. fat_open dev blocks fuel m (False, False) name d v = Ok (STATUS_ENTRY_NOT_FOUND, None, d', v')
    | Some (_, e) \<Rightarrow>
        if de_attribute e AND 0x10 \<noteq> 0 then \<exists>d' v'. fat_open dev blocks fuel m (False, False) name d v = Ok (STATUS_WRONG_ELEMENT_TYPE, None, d', v')
        else \<exists>f d' v'. fat_open dev blocks fuel m (False, False) name d v = Ok (STATUS_SUCCESS, Some f, d', v') \<and>
          (\<forall>fcs. fcs \<noteq> [] \<longrightarrow> chain disk n v (de_cluster e) fcs \<longrightarrow> 0 < de_size e \<longrightarrow> unat (de_size e) \<le> length fcs * unat (cluster_size v) \<longrightarrow>
            (\<exists>f' v''. fat_read dev (de_size e) f v' =
              Ok (STATUS_SUCCESS, Some (unat (de_size e)), take (unat (de_size e)) (chain_bytes disk v fcs), f', v'')))"
proof -
  obtain i j where at: "dir_at dev disk n cs i j d v" using assms(1) by (auto simp: dir_ok_def)
  have ch: "chain disk n v (dir_head_cluster d) cs" "cs \<noteq> []" using at by (auto simp: dir_at_def)
  then have h: "dir_head_cluster d = cs ! 0" using chain_first [OF ch(1)] by (cases cs) auto
  have ok: "vol_ok dev disk n v" using at by (simp add: dir_at_def)
  have "dir_at dev disk n cs 0 0 (rewind_directory d) v"
    using dir_moves [OF at reads_to_refl [OF ok], of "rewind_directory d" 0 0] ch(2) h by (simp add: rewind_directory_def)
  then have r: "dir_ok dev disk n cs 0 (rewind_directory d) v" unfolding dir_ok_def by (intro exI [of _ 0]) simp
  obtain entry' d' v' where m: "reads_to dev disk n v v'"
      "match_name dev blocks fuel m name (stack_entry m) d v = Ok (case find (names name) l of None \<Rightarrow> STATUS_ENTRY_NOT_FOUND | Some _ \<Rightarrow> STATUS_SUCCESS, entry', d', v')"
      "case find (names name) l of None \<Rightarrow> True | Some (_, e) \<Rightarrow> dir_direntry d' = e"
    using match_loop_ok [OF r assms(2,3), of m name "stack_entry m"] assms(4-6) by (auto simp: match_name_def)
  have g: "geometry v' = geometry v" "vol_ok dev disk n v'" using m(1) by (simp_all add: reads_to_def)
  show ?thesis
  proof (cases "find (names name) l")
    case None
    then show ?thesis using m by (simp add: fat_open_def CHECK_SUCCESS_def)
  next
    case (Some x)
    obtain bs e where x: "x = (bs, e)" by (cases x)
    have e: "dir_direntry d' = e" using m(3) by (simp add: Some x)
    have read: "\<exists>f' v''. fat_read dev (de_size e) (opened d') v' =
        Ok (STATUS_SUCCESS, Some (unat (de_size e)), take (unat (de_size e)) (chain_bytes disk v fcs), f', v'')"
      if c: "fcs \<noteq> []" "chain disk n v (de_cluster e) fcs" "0 < de_size e" "unat (de_size e) \<le> length fcs * unat (cluster_size v)" for fcs
    proof -
      have "fcs ! 0 = de_cluster e" using chain_first [OF c(2)] c(1) by (cases fcs) auto
      then have f: "file_ok dev disk n fcs (opened d') v'" using c(4) geometry_chain [OF g(1)] geometry_fields(3) [OF g(1)] g(2) c(2) e
        by (simp add: file_ok_def opened_def file_size_def)
      have b: "file_bytes disk fcs (opened d') v' = take (unat (de_size e)) (chain_bytes disk v fcs)"
        using geometry_chain_bytes [OF g(1)] e by (simp add: file_bytes_def opened_def file_size_def)
      have "length (chain_bytes disk v fcs) = length fcs * unat (cluster_size v)" using length_chain_bytes [OF ok] .
      then show ?thesis using fat_read_ok [OF f, of "de_size e" "take (unat (de_size e)) (chain_bytes disk v fcs)"] c(3,4) b e unat_u32_less [of "de_size e"]
        by (auto simp: opened_def file_size_def unat_gt_0 word_gt_0)
    qed
    have o: "fat_open dev blocks fuel m (False, False) name d v = (if de_attribute e AND 0x10 \<noteq> 0 then Ok (STATUS_WRONG_ELEMENT_TYPE, None, d', v')
        else Ok (STATUS_SUCCESS, Some (opened d'), d', v'))"
      using m(2) e Some by (simp add: fat_open_def opened_def)
    show ?thesis unfolding Some x using read o by (simp split: if_splits)
  qed
qed

text \<open>The directory of the example volume.\<close>

definition example_dir :: fat_dir_data where
  "example_dir = \<lparr>dir_head_cluster = 4, dir_current_cluster = 4, is_root = False, current_entry_index = 0, dir_direntry = replicate 32 0\<rparr>"

definition example_memory :: memory where
  "example_memory = \<lparr>stack_lfn = replicate 256 0, stack_entry = \<lparr>entry_name = replicate 256 0, entry_size = 0\<rparr>, heap_dir = example_dir\<rparr>"

theorem fat_open_by_name_witness:
  "\<exists>f d' v' f' v''. fat_open example_device 4 4 example_memory (False, False) [97, 46, 116, 120, 116, 0] example_dir example_volume = Ok (STATUS_SUCCESS, Some f, d', v') \<and>
     fat_read example_device 600 f v' = Ok (STATUS_SUCCESS, Some 600, replicate 512 0x61 @ replicate 88 0x62, f', v'')"
proof -
  have c: "dir_head_cluster example_dir = 4" "\<not> is_rootdir example_dir example_volume" "cluster_size example_volume < 0x10000"
    "dir_current_cluster example_dir = 4" "current_entry_index example_dir = 0" by code_simp+
  have "dir_at example_device example_disk 8 [4] 0 0 example_dir example_volume"
    unfolding dir_at_def using example_volume_ok example_chains(2) c by (simp del: chain.simps)
  then have d: "dir_ok example_device example_disk 8 [4] 0 example_dir example_volume" unfolding dir_ok_def by (intro exI [of _ 0]) simp
  let ?l = "[([97, 46, 116, 120, 116, 0], example_entry)] :: (u8 list \<times> u8 list) list"
  have l: "listing (stack_lfn example_memory) (dir_entries example_disk [4] example_volume) (stack_lfn example_memory) False = Ok ?l"
    "list_all (comparable [97, 46, 116, 120, 116, 0]) ?l" "find (names [97, 46, 116, 120, 116, 0]) ?l = Some (hd ?l)" by code_simp+
  have e: "de_attribute example_entry AND 0x10 = 0" "de_cluster example_entry = 2" "de_size example_entry = 600" "unat (cluster_size example_volume) = 512" by code_simp+
  have b: "take 600 (chain_bytes example_disk example_volume [2, 3]) = replicate 512 0x61 @ replicate 88 0x62" by code_simp
  have "length (entry_name (stack_entry example_memory)) = 256" by (simp add: example_memory_def)
  then obtain f d' v' where o: "fat_open example_device 4 4 example_memory (False, False) [97, 46, 116, 120, 116, 0] example_dir example_volume = Ok (STATUS_SUCCESS, Some f, d', v')"
      and r: "\<And>fcs. fcs \<noteq> [] \<Longrightarrow> chain example_disk 8 example_volume 2 fcs \<Longrightarrow> 600 \<le> length fcs * 512 \<Longrightarrow>
        \<exists>f' v''. fat_read example_device 600 f v' = Ok (STATUS_SUCCESS, Some 600, take 600 (chain_bytes example_disk example_volume fcs), f', v'')"
    using fat_open_by_name [OF d, of 4 ?l 4 example_memory "[97, 46, 116, 120, 116, 0]"] l e by (auto simp del: chain.simps)
  show ?thesis using o r [OF _ example_chains(1)] b by (simp del: chain.simps)
qed

end
