(* ===== verification/FatAgree.thy ===== *)
theory FatAgree
  imports Fat FatFile
begin

text \<open>
  Two drivers on one disk: the driver of the kernel, \<^verbatim>\<open>kernel/drivers/filesystem/fat\<close>, writes the file allocation table and the driver of the
  boot loader, \<^verbatim>\<open>boot/filesystem/fat/fat.c\<close>, reads it.  Both have their own code for the three kinds of entries; here the two models are
  composed over the same blocks.
\<close>

section \<open>One disk, two drivers\<close>

text \<open>The blocks of the kernel once they have been written back, as the boot loader addresses them.\<close>

definition disk_of :: "blk \<Rightarrow> int \<Rightarrow> u8 list" where
  "disk_of b lba = blk_data b (of_int lba)"

definition kind_of :: "fat_type \<Rightarrow> volume_type" where
  "kind_of t = (case t of fat_type.FT_FAT12 \<Rightarrow> volume_type.FT_FAT12 | fat_type.FT_FAT16 \<Rightarrow> volume_type.FT_FAT16
     | fat_type.FT_FAT32 \<Rightarrow> volume_type.FT_FAT32)"

text \<open>Both have mounted the same volume; the clusters lie behind all copies of the table.\<close>

definition same_volume :: "fatfs \<Rightarrow> fat_data \<Rightarrow> bool" where
  "same_volume fs v \<longleftrightarrow> fat_data.reserved_sectors v = fatfs.reserved_sectors fs \<and> fat_data.sector_size v = fatfs.sector_size fs \<and>
     fat_data.fat_size v = fatfs.fat_size fs \<and> fat_data.fat_type v = kind_of (fatfs.fat_type fs) \<and>
     uint (fatfs.reserved_sectors fs) + uint (fat_count fs) * uint (fatfs.fat_size fs) \<le> uint (fat_data.data_area_begin v)"

text \<open>The entries that link the clusters of a list, and a file that has just been opened.\<close>

definition links :: "u32 list \<Rightarrow> u32 \<Rightarrow> (u32 \<times> u32) list" where
  "links cs eoc = zip cs (tl cs @ [eoc])"

definition opened_at :: "u32 \<Rightarrow> fat_file_data \<Rightarrow> bool" where
  "opened_at c f \<longleftrightarrow> head_cluster f = c \<and> current_cluster f = c \<and> cursor f = 0"

text \<open>The volume of the example of the boot loader, mounted by the kernel; each block holds its own number.\<close>

definition agree_fs :: fatfs where
  "agree_fs = \<lparr>fatfs.sectors_per_cluster = 1, fatfs.fat_type = fat_type.FT_FAT12, fat_count = 1, fatfs.reserved_sectors = 1, fatfs.sector_size = 512,
     fatfs.root_entry_count = 16, fatfs.root_sector_count = 1, fatfs.fsinfo_sector = 0, fatfs.cluster_size = 512, fatfs.data_area_begin = 2,
     fatfs.fat_size = 1, fatfs.free_clusters = 0, fatfs.next_free_cluster = 0, fatfs.total_sector_count = 8, fatfs.root_cluster = 0\<rparr>"

definition agree_blk :: blk where
  "agree_blk = \<lparr>blk_data = (\<lambda>lba. replicate 512 (ucast lba)), blk_status = (\<lambda>lba. STATUS_SUCCESS), blk_pins = (\<lambda>lba. 0), blk_dirty = {}\<rparr>"

definition device_of :: "(int \<Rightarrow> u8 list) \<Rightarrow> block_device" where
  "device_of disk = \<lparr>dev_interface = STATUS_SUCCESS, dev_block_size = (STATUS_SUCCESS, 512),
     dev_read = (\<lambda>lba k. (STATUS_SUCCESS, disk_blocks disk lba k))\<rparr>"

section \<open>Lemmas\<close>

lemma cell_table_byte:
  assumes "same_volume fs v" "fatfs.sector_size fs = 512"
  shows "cell fs 0 b k = table_byte (disk_of b) v k"
  using assms by (simp add: cell_def cell_lba_def fat_lba_def table_byte_def disk_of_def same_volume_def)

lemma le_bytes: "ucast (le16 [b0, b1] 0) = dec16 b0 b1" "le32 [b0, b1, b2, b3] 0 = dec32 b0 b1 b2 b3"
  by (simp add: le16_def dec16_def) (rule bit_word_eqI, auto simp: le16_def le32_def dec32_def bit_simps dest: bit_imp_le_length)

lemma same_table:
  assumes "same_volume fs v" "fatfs.sector_size fs = 512"
  shows "table_of fs 0 b c = fat_entry (disk_of b) v c"
proof -
  have l: "[k..<k + 2] = [k, k + 1]" "[k..<k + 4] = [k, k + 1, k + 2, k + 3]" for k :: nat
    by (simp_all add: upt_rec numeral_eq_Suc)
  have t: "fat_data.fat_type v = kind_of (fatfs.fat_type fs)" using assms(1) by (simp add: same_volume_def)
  show ?thesis
    by (cases "fatfs.fat_type fs")
      (simp_all add: table_of_def tbl12_def tbl16_def tbl32_def fat_entry_def t kind_of_def entry_offset_def entry_bytes_def l le_bytes
        cell_table_byte [OF assms] pos12_def dec12_def entry12_def)
qed

lemma good_entries:
  assumes "same_volume fs v" "fatfs.sector_size fs = 512" "good_cluster n v c"
  shows "c \<in> entries_of fs"
  using assms
  by (cases "fatfs.fat_type fs")
    (auto simp: good_cluster_def entries_of_def same_volume_def kind_of_def cluster_limit_def max_cluster_def last_byte_def in_table_def
      entry_offset_def entry_bytes_def pos12_def)

lemma max_end: "c \<le> max_cluster t \<Longrightarrow> c \<le> end_cluster t"
  by (cases t) (auto simp: max_cluster_def end_cluster_def elim: order_trans)

lemma links_values:
  assumes "set cs \<subseteq> entries_of fs" "eoc \<in> values_of fs" "(e, x) \<in> set (links cs eoc)"
  shows "e \<in> entries_of fs \<and> x \<in> values_of fs"
proof -
  have "e \<in> set cs" "x \<in> set (tl cs @ [eoc])"
    using assms(3) set_zip_leftD set_zip_rightD unfolding links_def by fast+
  moreover have "x \<in> values_of fs" if "x \<in> set cs" for x
    using that assms(1) max_end by (auto simp: entries_of_def values_of_def)
  ultimately show ?thesis using assms(1,2) by (cases cs) auto
qed

lemma map_of_links:
  assumes "distinct cs" "i < length cs"
  shows "map_of (rev (links cs eoc)) (cs ! i) = Some ((tl cs @ [eoc]) ! i)"
proof (rule map_of_is_SomeI)
  have "map fst (links cs eoc) = cs" using assms(2) by (simp add: links_def)
  then show "distinct (map fst (rev (links cs eoc)))" using assms(1) by (simp add: rev_map [symmetric])
  show "(cs ! i, (tl cs @ [eoc]) ! i) \<in> set (rev (links cs eoc))"
    using assms(2) by (auto simp: links_def in_set_zip intro!: exI [of _ i])
qed

lemma linked_chain:
  "cs \<noteq> [] \<Longrightarrow> \<forall>i < length cs. fat_entry disk v (cs ! i) = (tl cs @ [eoc]) ! i \<Longrightarrow> \<forall>c \<in> set cs. good_cluster n v c \<Longrightarrow>
     cluster_limit v < eoc \<Longrightarrow> chain disk n v (hd cs) cs"
proof (induction cs rule: list_nonempty_induct)
  case (single c)
  then show ?case by simp
next
  case (cons c cs)
  have "fat_entry disk v c = hd cs" using cons.prems(1) cons.hyps by (cases cs) auto
  moreover have "fat_entry disk v (cs ! i) = (tl cs @ [eoc]) ! i" if "i < length cs" for i
    using cons.prems(1) that cons.hyps by (cases cs) force+
  ultimately show ?case using cons by simp
qed

text \<open>Blocks behind the tables are those of before.\<close>

lemma behind_tables:
  assumes "volume_ok fs b" "same_outside (volume_region fs) b b'" "lba < 2 ^ 32"
    and "uint (fatfs.reserved_sectors fs) + uint (fat_count fs) * uint (fatfs.fat_size fs) \<le> lba"
  shows "disk_of b' lba = disk_of b lba"
proof -
  have "0 \<le> lba" using assms(4) by (meson order_trans add_nonneg_nonneg mult_nonneg_nonneg uint_ge_0)
  then have l: "uint (of_int lba :: u32) = lba" using assms(3) by (simp add: uint_word_of_int_eq take_bit_int_eq_self)
  have "of_int lba \<noteq> fat_lba fs i s" if i: "i \<in> copies_of fs" and s: "s < fatfs.fat_size fs" for i s
  proof
    let ?m = "unat (fatfs.fat_size fs)"
    assume e: "of_int lba = fat_lba fs i s"
    have "nat i * ?m + unat s < Suc (nat i) * ?m" using s by (simp add: word_less_nat_alt)
    also have "\<dots> \<le> unat (fat_count fs) * ?m" using i by (intro mult_le_mono1) (auto simp: copies_of_def Suc_le_eq nat_less_iff)
    finally have "int (unat (fatfs.reserved_sectors fs) + nat i * ?m + unat s) < int (unat (fatfs.reserved_sectors fs) + unat (fat_count fs) * ?m)"
      by (simp only: of_nat_less_iff)
    then have "uint (fat_lba fs i s) < uint (fatfs.reserved_sectors fs) + uint (fat_count fs) * uint (fatfs.fat_size fs)"
      unfolding unat_fat_lba [OF assms(1) i s, symmetric] by simp
    then show False using assms(4) l unfolding e [symmetric] by simp
  qed
  then have "of_int lba \<notin> volume_region fs" by (auto simp: volume_region_def fat_region_def)
  then show ?thesis using assms(2) by (simp add: disk_of_def same_outside_def)
qed

lemma same_clusters:
  assumes b: "volume_ok fs b" "same_outside (volume_region fs) b b'" and v: "same_volume fs v" "vol_ok dev (disk_of b') n v"
    and c: "\<forall>c \<in> set cs. good_cluster n v c"
  shows "chain_bytes (disk_of b') v cs = chain_bytes (disk_of b) v cs"
proof -
  have n: "n < 2 ^ 32" using v(2) by (simp add: vol_ok_def serves_def)
  have "cluster_bytes (disk_of b') v c = cluster_bytes (disk_of b) v c" if g: "good_cluster n v c" for c
  proof -
    have u: "0 \<le> (uint c - 2) * uint (fat_data.sectors_per_cluster v)" using g by (simp add: good_cluster_def word_le_def)
    have "disk_of b' (cluster_lba v c + int i) = disk_of b (cluster_lba v c + int i)" if i: "i < unat (fat_data.sectors_per_cluster v)" for i
    proof (rule behind_tables [OF b])
      have "int i < uint (fat_data.sectors_per_cluster v)" using i by (metis of_nat_less_iff uint_nat)
      then show "cluster_lba v c + int i < 2 ^ 32" using g n by (simp add: good_cluster_def)
      have "uint (fat_data.data_area_begin v) \<le> data_first v" by (simp add: data_first_def)
      then show "uint (fatfs.reserved_sectors fs) + uint (fat_count fs) * uint (fatfs.fat_size fs) \<le> cluster_lba v c + int i"
        using v(1) u by (simp add: same_volume_def cluster_lba_def)
    qed
    then show ?thesis unfolding cluster_bytes_def disk_blocks_def by (intro arg_cong [where f = concat] map_cong) auto
  qed
  then show ?thesis using c by (simp add: chain_bytes_def cong: map_cong)
qed

text \<open>A written chain, in the terms of the driver that reads it.\<close>

lemma write_links:
  assumes b: "volume_ok fs b" and cs: "set cs \<subseteq> entries_of fs" "distinct cs" and eoc: "eoc \<in> values_of fs"
  shows "\<exists>b'. status_loop (\<lambda>(e, x). write_fat_entry fs e x) (links cs eoc) b = Ok (STATUS_SUCCESS, b') \<and> volume_ok fs b' \<and>
    same_outside (volume_region fs) b b' \<and> all_marked b b' \<and> (\<forall>i < length cs. table_of fs 0 b' (cs ! i) = (tl cs @ [eoc]) ! i)"
proof -
  have z: "0 \<in> copies_of fs" using b by (simp add: volume_ok_def copies_of_def word_less_def)
  have ws: "\<forall>(e, x) \<in> set (links cs eoc). e \<in> entries_of fs \<and> x \<in> values_of fs" using links_values [OF cs(1) eoc] by blast
  have r: "\<exists>b'. status_loop (\<lambda>(e, x). write_fat_entry fs e x) (links cs eoc) b = Ok (STATUS_SUCCESS, b') \<and> volume_ok fs b' \<and>
      same_outside (volume_region fs) b b' \<and> all_marked b b' \<and>
      read_entry_of fs 0 e b' = Ok (STATUS_SUCCESS, Some (case map_of (rev (links cs eoc)) e of Some x \<Rightarrow> x | None \<Rightarrow> table_of fs 0 b e), b')"
    if "e \<in> entries_of fs" for e
    using volume.read_after_writes [of 0 fs b "links cs eoc" e] b z ws that by blast
  show ?thesis
  proof (cases "cs = []")
    case True
    then show ?thesis using b by (simp add: links_def)
  next
    case False
    then obtain b' where b': "status_loop (\<lambda>(e, x). write_fat_entry fs e x) (links cs eoc) b = Ok (STATUS_SUCCESS, b')" "volume_ok fs b'"
        "same_outside (volume_region fs) b b'" "all_marked b b'"
      using r [of "hd cs"] cs(1) hd_in_set by blast
    have "table_of fs 0 b' (cs ! i) = (tl cs @ [eoc]) ! i" if i: "i < length cs" for i
    proof -
      have e: "cs ! i \<in> entries_of fs" using cs(1) i by auto
      have "read_entry_of fs 0 (cs ! i) b' = Ok (STATUS_SUCCESS, Some ((tl cs @ [eoc]) ! i), b')"
        using r [OF e] b'(1) map_of_links [OF cs(2) i, of eoc] by auto
      then show ?thesis using volume.read_law [of 0 fs b' "cs ! i"] b'(2) z e by simp
    qed
    then show ?thesis using b' by blast
  qed
qed

text \<open>
  C6: Two drivers, one volume.  When the kernel links a list of distinct clusters with \<^verbatim>\<open>write_fat_entry\<close>, all writes succeed, no block outside
  the tables changes, the changed blocks are marked for writing back, and on every device that holds these blocks the boot loader, which has the same volume mounted, reads through a
  file opened at the first of the clusters the bytes that the clusters held, in the order of the list and up to the size of the file, for
  tables of 12, 16 and 32 bits.
\<close>

theorem kernel_links_boot_reads:
  assumes "volume_ok fs b" "fatfs.sector_size fs = 512" "cs \<noteq> []" "set cs \<subseteq> entries_of fs" "distinct cs"
    and "eoc \<in> values_of fs" "max_cluster (fatfs.fat_type fs) < eoc"
  shows "\<exists>b'. status_loop (\<lambda>(e, x). write_fat_entry fs e x) (links cs eoc) b = Ok (STATUS_SUCCESS, b') \<and> all_marked b b' \<and>
    same_outside (volume_region fs) b b' \<and>
    (\<forall>dev n v f len. same_volume fs v \<and> vol_ok dev (disk_of b') n v \<and> (\<forall>c \<in> set cs. good_cluster n v c) \<and>
       opened_at (hd cs) f \<and> 0 < file_size f \<and> file_size f \<le> length cs * unat (fat_data.cluster_size v) \<longrightarrow>
       (\<exists>f' v'. let bs = take (unat len) (take (file_size f) (chain_bytes (disk_of b) v cs)) in
          fat_read dev len f v = Ok (STATUS_SUCCESS, Some (length bs), bs, f', v')))"
proof -
  obtain b' where b': "status_loop (\<lambda>(e, x). write_fat_entry fs e x) (links cs eoc) b = Ok (STATUS_SUCCESS, b')" "volume_ok fs b'"
      "same_outside (volume_region fs) b b'" "all_marked b b'" "\<forall>i < length cs. table_of fs 0 b' (cs ! i) = (tl cs @ [eoc]) ! i"
    using write_links [OF assms(1,4,5,6)] by blast
  have "\<exists>f' v'. let bs = take (unat len) (take (file_size f) (chain_bytes (disk_of b) v cs)) in
      fat_read dev len f v = Ok (STATUS_SUCCESS, Some (length bs), bs, f', v')"
    if v: "same_volume fs v" "vol_ok dev (disk_of b') n v" "\<forall>c \<in> set cs. good_cluster n v c"
      and f: "opened_at (hd cs) f" "0 < file_size f" "file_size f \<le> length cs * unat (fat_data.cluster_size v)" for dev n v f len
  proof -
    have "cluster_limit v = max_cluster (fatfs.fat_type fs)"
      using v(1) by (cases "fatfs.fat_type fs") (simp_all add: same_volume_def kind_of_def cluster_limit_def max_cluster_def)
    then have "chain (disk_of b') n v (hd cs) cs"
      using linked_chain [OF assms(3), of "disk_of b'" v eoc n] b'(5) v(3) assms(7) same_table [OF v(1) assms(2)] by simp
    then have "file_ok dev (disk_of b') n cs f v"
      using v(2) f assms(3) by (simp add: file_ok_def opened_at_def hd_conv_nth)
    then show ?thesis
      using fat_read_ok [of dev "disk_of b'" n cs f v len] f(1,2) same_clusters [OF assms(1) b'(3) v(1,2,3)] unat_u32_less [of len]
      by (auto simp: opened_at_def file_bytes_def Let_def)
  qed
  then show ?thesis using b'(1,3,4) by blast
qed

theorem kernel_links_boot_reads_witness:
  "\<exists>b' f' v'. status_loop (\<lambda>(e, x). write_fat_entry agree_fs e x) (links [3, 2] 0xFFF) agree_blk = Ok (STATUS_SUCCESS, b') \<and>
     fat_read (device_of (disk_of b')) 514 (example_file\<lparr>head_cluster := 3, current_cluster := 3\<rparr>) example_volume =
       Ok (STATUS_SUCCESS, Some 514, replicate 512 4 @ [3, 3], f', v')"
proof -
  let ?f = "example_file\<lparr>head_cluster := 3, current_cluster := 3\<rparr>"
  have k: "volume_ok agree_fs agree_blk" "set [3, 2] \<subseteq> entries_of agree_fs" "0xFFF \<in> values_of agree_fs"
      "max_cluster (fatfs.fat_type agree_fs) < 0xFFF" "fatfs.sector_size agree_fs = 512" "same_volume agree_fs example_volume"
    by (auto simp: volume_ok_def agree_fs_def agree_blk_def fat_ok_def fat_geom_def copies_of_def bad_fat_def entries_of_def values_of_def
        max_cluster_def end_cluster_def last_byte_def in_table_def pos12_def same_volume_def kind_of_def example_volume_def)
  have g: "\<forall>c \<in> set [3, 2]. good_cluster 8 example_volume c" by code_simp
  have f: "opened_at (hd [3, 2]) ?f" "file_size ?f = 600" "unat (fat_data.cluster_size example_volume) = 512" by code_simp+
  obtain b' where b': "status_loop (\<lambda>(e, x). write_fat_entry agree_fs e x) (links [3, 2] 0xFFF) agree_blk = Ok (STATUS_SUCCESS, b')"
      "same_outside (volume_region agree_fs) agree_blk b'"
      "\<And>dev v f len. same_volume agree_fs v \<Longrightarrow> vol_ok dev (disk_of b') 8 v \<Longrightarrow> \<forall>c \<in> set [3, 2]. good_cluster 8 v c \<Longrightarrow>
         opened_at (hd [3, 2]) f \<Longrightarrow> 0 < file_size f \<Longrightarrow> file_size f \<le> length [3, 2 :: u32] * unat (fat_data.cluster_size v) \<Longrightarrow>
         \<exists>f' v'. let bs = take (unat len) (take (file_size f) (chain_bytes (disk_of agree_blk) v [3, 2])) in
           fat_read dev len f v = Ok (STATUS_SUCCESS, Some (length bs), bs, f', v')"
    using kernel_links_boot_reads [OF k(1,5) _ k(2) _ k(3,4)] by auto
  have "length (disk_of b' lba) = 512" for lba using b'(2) by (simp add: disk_of_def same_outside_def agree_blk_def)
  then have "vol_ok (device_of (disk_of b')) (disk_of b') 8 example_volume"
    using example_volume_ok by (simp add: vol_ok_def serves_def device_of_def buffers_ok_def example_volume_def data_first_def)
  moreover have "take (unat (514 :: u32)) (take 600 (chain_bytes (disk_of agree_blk) example_volume [3, 2])) = replicate 512 4 @ [3, 3]"
    by code_simp
  ultimately show ?thesis using b'(1) b'(3) [of example_volume "device_of (disk_of b')" ?f 514] k(6) g f by (auto simp: Let_def)
qed

end
