(* ===== verification/Part.thy ===== *)
theory Part
  imports FatVolume
begin

text \<open>
  Partitions of the boot loader: the block device of a partition (\<^verbatim>\<open>boot/device/block/part/part.c\<close>) and the two drivers that read the
  table of a disk and create them, \<^verbatim>\<open>mbr.c\<close> and \<^verbatim>\<open>gpt.c\<close>.  Sector numbers (\<^verbatim>\<open>lba_t\<close>, signed 64 bits) are integers, the bounds of
  a resource are words of 64 bits.  The creation of a device in the tree - its object, its name and its data - is the parameter
  \<open>create\<close>, the status of making it for given bounds.  Extended partitions have fuel, for their tables may refer to each other.
\<close>

section \<open>The device of a partition\<close>

record part_data =
  blkdev :: block_device
  part_base :: int
  part_limit :: int

text \<open>The number of sectors that is asked of the disk: \<^verbatim>\<open>size_t\<close> has 32 bits and wraps.\<close>

definition part_count :: "part_data \<Rightarrow> int \<Rightarrow> nat \<Rightarrow> nat" where
  "part_count p lba count =
     (if part_base p + lba + int count > part_limit p
      then nat (to_unsigned (int count - (part_base p + lba + int count - part_limit p))) else count)"

definition part_read :: "part_data \<Rightarrow> int \<Rightarrow> nat \<Rightarrow> status \<times> u8 list" where
  "part_read p lba count =
     (if lba > part_limit p then (STATUS_INVALID_VALUE, [])
      else
        let count = part_count p lba count in
        if count < 1 then (STATUS_SUCCESS, []) else dev_read (blkdev p) (part_base p + lba) count)"

text \<open>A write of a disk is a function from the position, the number of sectors and the bytes to a status and the new disk.\<close>

definition part_write :: "('s \<Rightarrow> int \<Rightarrow> nat \<Rightarrow> u8 list \<Rightarrow> status \<times> 's) \<Rightarrow> part_data \<Rightarrow> int \<Rightarrow> nat \<Rightarrow> u8 list \<Rightarrow> 's \<Rightarrow> status \<times> 's" where
  "part_write wr p lba count buf s =
     (if lba > part_limit p then (STATUS_INVALID_VALUE, s)
      else
        let count = part_count p lba count in
        if count < 1 then (STATUS_SUCCESS, s) else wr s (part_base p + lba) count buf)"

definition part_device :: "part_data \<Rightarrow> block_device" where
  "part_device p = \<lparr>dev_interface = STATUS_SUCCESS, dev_block_size = dev_block_size (blkdev p), dev_read = part_read p\<rparr>"

datatype resource_type = RT_IOPORT | RT_MEMORY | RT_IRQ | RT_DMA | RT_BUS | RT_LBA

type_synonym resource = "resource_type \<times> u64 \<times> u64"

definition part_probe :: "(u64 \<times> u64 \<Rightarrow> status) \<Rightarrow> block_device option \<Rightarrow> resource list option \<Rightarrow> status \<times> part_data option" where
  "part_probe create parent rsrc =
     (case rsrc of Some [(RT_LBA, base, limit)] \<Rightarrow>
        if base > limit then (STATUS_INVALID_RESOURCE, None)
        else (case parent of None \<Rightarrow> (STATUS_INVALID_VALUE, None)
          | Some dev \<Rightarrow>
              if \<not> CHECK_SUCCESS (dev_interface dev) then (dev_interface dev, None)
              else if \<not> CHECK_SUCCESS (create (base, limit)) then (create (base, limit), None)
              else (STATUS_SUCCESS, Some \<lparr>blkdev = dev, part_base = sint base, part_limit = sint limit\<rparr>))
      | _ \<Rightarrow> (STATUS_INVALID_RESOURCE, None))"

section \<open>Master boot record\<close>

text \<open>The device of a table passes requests on to the disk.\<close>

definition table_device :: "block_device \<Rightarrow> block_device" where
  "table_device dev = \<lparr>dev_interface = STATUS_SUCCESS, dev_block_size = dev_block_size dev, dev_read = dev_read dev\<rparr>"

abbreviation (input) MBR_SIGNATURE :: u16 where "MBR_SIGNATURE \<equiv> 0xAA55"
abbreviation (input) MBR_PART_TYPE_GPT :: u8 where "MBR_PART_TYPE_GPT \<equiv> 0xEE"
abbreviation (input) MBR_PART_TYPE_EXTENDED :: u8 where "MBR_PART_TYPE_EXTENDED \<equiv> 0x05"

text \<open>Fields of an entry of the table: type, first sector and number of sectors.\<close>

definition mbr_type :: "u8 list \<Rightarrow> nat \<Rightarrow> u8" where "mbr_type s i = s ! (446 + 16 * i + 4)"
definition mbr_base_lba :: "u8 list \<Rightarrow> nat \<Rightarrow> u32" where "mbr_base_lba s i = le32 s (446 + 16 * i + 8)"
definition mbr_sector_count :: "u8 list \<Rightarrow> nat \<Rightarrow> u32" where "mbr_sector_count s i = le32 s (446 + 16 * i + 12)"

text \<open>
  The entries with the given numbers; the partitions made so far are collected.  \<open>nested\<close> registers the table of an extended partition.
\<close>

fun mbr_entries :: "(int \<Rightarrow> part_data list \<Rightarrow> (status \<times> part_data list) outcome) \<Rightarrow> (u64 \<times> u64 \<Rightarrow> status) \<Rightarrow> block_device \<Rightarrow> u8 list \<Rightarrow> int \<Rightarrow>
    nat list \<Rightarrow> part_data list \<Rightarrow> (status \<times> part_data list) outcome" where
  "mbr_entries nested create dev s base [] parts = Ok (STATUS_SUCCESS, parts)"
| "mbr_entries nested create dev s base (i # js) parts =
     (if mbr_type s i = 0 then mbr_entries nested create dev s base js parts
      else
        let b = base + uint (mbr_base_lba s i); l = b + uint (mbr_sector_count s i) - 1 in
        if mbr_type s i = MBR_PART_TYPE_EXTENDED then
          obind (nested b parts) (\<lambda>(st, parts). if \<not> CHECK_SUCCESS st then Ok (st, parts) else mbr_entries nested create dev s base js parts)
        else
          case part_probe create (Some (table_device dev)) (Some [(RT_LBA, of_int b, of_int l)]) of
            (st, None) \<Rightarrow> Ok (st, parts)
          | (st, Some p) \<Rightarrow> mbr_entries nested create dev s base js (parts @ [p]))"

fun register_partitions :: "nat \<Rightarrow> (u64 \<times> u64 \<Rightarrow> status) \<Rightarrow> block_device \<Rightarrow> int \<Rightarrow> part_data list \<Rightarrow> (status \<times> part_data list) outcome" where
  "register_partitions 0 create dev base parts = Hang"
| "register_partitions (Suc n) create dev base parts =
     read_block dev base (\<lambda>s.
       if le16 s 510 \<noteq> MBR_SIGNATURE then Ok (STATUS_INVALID_SIGNATURE, parts)
       else if mbr_type s 0 = MBR_PART_TYPE_GPT then Ok (STATUS_INVALID_VALUE, parts)
       else mbr_entries (register_partitions n create dev) create dev s base [0..<4] parts) (\<lambda>st. Ok (st, parts))"

text \<open>\<open>find_part\<close> is the status of the search for the driver of partitions. When the table fails all partitions are removed.\<close>

definition mbr_probe :: "nat \<Rightarrow> (u64 \<times> u64 \<Rightarrow> status) \<Rightarrow> status \<Rightarrow> status \<Rightarrow> block_device option \<Rightarrow> (status \<times> part_data list) outcome" where
  "mbr_probe n create create_table find_part parent =
     (case parent of None \<Rightarrow> Ok (STATUS_INVALID_VALUE, [])
      | Some dev \<Rightarrow>
          if \<not> CHECK_SUCCESS (dev_interface dev) then Ok (dev_interface dev, [])
          else if \<not> CHECK_SUCCESS create_table then Ok (create_table, [])
          else if \<not> CHECK_SUCCESS find_part then Ok (find_part, [])
          else obind (register_partitions n create dev 0 []) (\<lambda>(st, parts).
            if \<not> CHECK_SUCCESS st then Ok (st, []) else Ok (STATUS_SUCCESS, parts)))"

section \<open>GUID partition table\<close>

definition le64 :: "u8 list \<Rightarrow> nat \<Rightarrow> u64" where
  "le64 s i = ucast (le32 s i) OR push_bit 32 (ucast (le32 s (i + 4)))"

definition GPT_HEADER_SIGNATURE :: "u8 list" where
  "GPT_HEADER_SIGNATURE = [69, 70, 73, 32, 80, 65, 82, 84]"

text \<open>The loop over the entries, of which \<open>k\<close> are left: the status of reading the next sector is not looked at.\<close>

fun gpt_entries :: "(u64 \<times> u64 \<Rightarrow> status) \<Rightarrow> block_device \<Rightarrow> u32 \<Rightarrow> nat \<Rightarrow> u32 \<Rightarrow> u64 \<Rightarrow> u8 list \<Rightarrow> part_data list \<Rightarrow> (status \<times> part_data list) outcome" where
  "gpt_entries create dev per_entry 0 off lba s parts = Ok (STATUS_SUCCESS, parts)"
| "gpt_entries create dev per_entry (Suc k) off lba s parts =
     (if length s < unat off + 16 then Fault
      else if take 16 (drop (unat off) s) = replicate 16 0 then Ok (STATUS_SUCCESS, parts)
      else if length s < unat off + 48 then Fault
      else case part_probe create (Some (table_device dev)) (Some [(RT_LBA, le64 s (unat off + 32), le64 s (unat off + 40))]) of
          (st, None) \<Rightarrow> Ok (st, parts)
        | (st, Some p) \<Rightarrow>
            let off' = off + per_entry in
            if off' < 512 then gpt_entries create dev per_entry k off' lba s (parts @ [p])
            else obind (store (snd (dev_read dev (sint (lba + 1)) 1)) s)
                   (\<lambda>s. gpt_entries create dev per_entry k (off' - 512) (lba + 1) s (parts @ [p])))"

definition gpt_probe :: "(u64 \<times> u64 \<Rightarrow> status) \<Rightarrow> status \<Rightarrow> status \<Rightarrow> block_device option \<Rightarrow> (status \<times> part_data list) outcome" where
  "gpt_probe create create_table find_part parent =
     (case parent of None \<Rightarrow> Ok (STATUS_INVALID_VALUE, [])
      | Some dev \<Rightarrow>
          let fail = (\<lambda>st. Ok (st, [])) in
          if \<not> CHECK_SUCCESS (dev_interface dev) then fail (dev_interface dev)
          else if \<not> CHECK_SUCCESS create_table then fail create_table
          else read_block dev 0 (\<lambda>m.
            if le16 m 510 \<noteq> MBR_SIGNATURE then fail STATUS_INVALID_SIGNATURE
            else if mbr_type m 0 \<noteq> MBR_PART_TYPE_GPT then fail STATUS_INVALID_VALUE
            else read_block dev (uint (mbr_base_lba m 0)) (\<lambda>h.
              if take 8 h \<noteq> GPT_HEADER_SIGNATURE then fail STATUS_INVALID_SIGNATURE
              else read_block dev (sint (le64 h 72)) (\<lambda>s.
                if \<not> CHECK_SUCCESS find_part then fail find_part
                else obind (gpt_entries create dev (le32 h 84) (unat (le32 h 80)) 0 (le64 h 72) s []) (\<lambda>(st, parts).
                  if \<not> CHECK_SUCCESS st then fail st else Ok (STATUS_SUCCESS, parts))) fail) fail) fail)"

section \<open>The reference\<close>

text \<open>
  A table of partitions: an entry is not in use, is a partition with its type, first sector and number of sectors, or is an extended
  partition with its first sector, which holds a table of its own.
\<close>

datatype table_entry = Unused | Primary u8 u32 u32 | Extended u32 "table_entry list"

definition bytes32 :: "u32 \<Rightarrow> u8 list" where
  "bytes32 w = [ucast w, ucast (drop_bit 8 w), ucast (drop_bit 16 w), ucast (drop_bit 24 w)]"

text \<open>
  The sixteen bytes of an entry: status, three bytes of geometry, type, three bytes of geometry, first sector and number of sectors.
  The status and the geometry may be anything.
\<close>

definition slot :: "u8 list \<Rightarrow> nat \<Rightarrow> u8 list" where
  "slot s i = take 16 (drop (446 + 16 * i) s)"

definition entry_is :: "u8 list \<Rightarrow> u8 \<Rightarrow> u32 \<Rightarrow> u32 \<Rightarrow> bool" where
  "entry_is bs t b c \<longleftrightarrow> bs ! 4 = t \<and> take 4 (drop 8 bs) = bytes32 b \<and> take 4 (drop 12 bs) = bytes32 c"

text \<open>A sector that begins a table: the signature at its end, and the first entry not that of a GUID table.\<close>

definition table_sector :: "u8 list \<Rightarrow> bool" where
  "table_sector s \<longleftrightarrow> drop 510 s = [0x55, 0xAA] \<and> slot s 0 ! 4 \<noteq> MBR_PART_TYPE_GPT"

text \<open>
  \<open>entries_at disk n base i es\<close>: from the slot \<open>i\<close> on, the table in the sector \<open>base\<close> of a disk of \<open>n\<close> sectors holds the entries \<open>es\<close>;
  partitions have at least one sector and lie on the disk.  The sectors of an entry are counted from its table.
\<close>

fun entries_at :: "(int \<Rightarrow> u8 list) \<Rightarrow> int \<Rightarrow> int \<Rightarrow> nat \<Rightarrow> table_entry list \<Rightarrow> bool" where
  "entries_at disk n base i [] = True"
| "entries_at disk n base i (Unused # es) = (slot (disk base) i ! 4 = 0 \<and> entries_at disk n base (Suc i) es)"
| "entries_at disk n base i (Primary t b c # es) =
     (t \<noteq> 0 \<and> t \<noteq> MBR_PART_TYPE_EXTENDED \<and> entry_is (slot (disk base) i) t b c \<and> 0 < c \<and> base + uint b + uint c \<le> n \<and>
      entries_at disk n base (Suc i) es)"
| "entries_at disk n base i (Extended b ts # es) =
     (slot (disk base) i ! 4 = MBR_PART_TYPE_EXTENDED \<and> take 4 (drop 8 (slot (disk base) i)) = bytes32 b \<and>
      base + uint b < n \<and> table_sector (disk (base + uint b)) \<and> length ts = 4 \<and> entries_at disk n (base + uint b) 0 ts \<and>
      entries_at disk n base (Suc i) es)"

definition table_at :: "(int \<Rightarrow> u8 list) \<Rightarrow> int \<Rightarrow> int \<Rightarrow> table_entry list \<Rightarrow> bool" where
  "table_at disk n base es \<longleftrightarrow> 0 \<le> base \<and> base < n \<and> table_sector (disk base) \<and> length es = 4 \<and> entries_at disk n base 0 es"

text \<open>The partitions of a table in the order of its entries, and how deep tables are nested in it.\<close>

fun partitions :: "block_device \<Rightarrow> int \<Rightarrow> table_entry list \<Rightarrow> part_data list" where
  "partitions dev base [] = []"
| "partitions dev base (Unused # es) = partitions dev base es"
| "partitions dev base (Primary t b c # es) =
     \<lparr>blkdev = table_device dev, part_base = base + uint b, part_limit = base + uint b + uint c - 1\<rparr> # partitions dev base es"
| "partitions dev base (Extended b ts # es) = partitions dev (base + uint b) ts @ partitions dev base es"

fun depth :: "table_entry list \<Rightarrow> nat" where
  "depth [] = 0"
| "depth (Extended b ts # es) = max (Suc (depth ts)) (depth es)"
| "depth (e # es) = depth es"

definition sub_disk :: "(int \<Rightarrow> u8 list) \<Rightarrow> part_data \<Rightarrow> int \<Rightarrow> u8 list" where
  "sub_disk disk p lba = disk (part_base p + lba)"

section \<open>Lemmas\<close>

lemma sub_blocks: "disk_blocks (sub_disk disk p) lba k = disk_blocks disk (part_base p + lba) k"
  by (simp add: disk_blocks_def sub_disk_def add.assoc)

lemma blocks_0: "disk_blocks disk lba 0 = []"
  by (simp add: disk_blocks_def)

lemma part_read_inside:
  assumes "serves (blkdev p) disk n" "0 \<le> part_base p" "part_base p \<le> part_limit p" "part_limit p \<le> n"
    and lba: "0 \<le> lba" "lba \<le> part_limit p - part_base p"
  shows "part_read p lba k = (STATUS_SUCCESS, disk_blocks (sub_disk disk p) lba (min k (nat (part_limit p - part_base p - lba))))"
proof -
  let ?r = "part_limit p - part_base p - lba"
  have n: "n < 2 ^ 32" using assms(1) by (simp add: serves_def)
  have c: "part_count p lba k = min k (nat ?r)"
  proof (cases "part_base p + lba + int k > part_limit p")
    case True
    then have "to_unsigned (int k - (part_base p + lba + int k - part_limit p)) = ?r"
      using n assms by (subst to_unsigned_id) auto
    then show ?thesis using True lba by (simp add: part_count_def min_def nat_le_iff)
  next
    case False
    then have "k \<le> nat ?r" using lba by linarith
    then show ?thesis using False by (simp add: part_count_def min_def)
  qed
  have m: "part_base p + lba + int (min k (nat ?r)) \<le> n" using assms(4) lba by (cases "k \<le> nat ?r") (auto simp: min_def le_nat_iff)
  show ?thesis
  proof (cases "min k (nat ?r) = 0")
    case True
    then show ?thesis using assms by (simp add: part_read_def c disk_blocks_def)
  next
    case False
    moreover have "dev_read (blkdev p) (part_base p + lba) (min k (nat ?r)) = (STATUS_SUCCESS, disk_blocks disk (part_base p + lba) (min k (nat ?r)))"
      using assms(1,2) lba m by (simp add: serves_def)
    ultimately show ?thesis using assms by (simp add: part_read_def c sub_blocks Let_def blocks_0)
  qed
qed

lemma serves_table: "serves dev disk n \<Longrightarrow> serves (table_device dev) disk n"
  by (simp add: serves_def table_device_def)

lemma part_serves:
  assumes "serves (blkdev p) disk n" "0 \<le> part_base p" "part_base p \<le> part_limit p" "part_limit p \<le> n"
  shows "serves (part_device p) (sub_disk disk p) (part_limit p - part_base p)"
  unfolding serves_def
proof (intro conjI allI impI)
  show "part_limit p - part_base p < 2 ^ 32" "length (sub_disk disk p lba) = 512" for lba
    using assms by (simp_all add: serves_def sub_disk_def)
  fix lba k assume "0 \<le> lba" "lba + int k \<le> part_limit p - part_base p"
  then show "dev_read (part_device p) lba k = (STATUS_SUCCESS, disk_blocks (sub_disk disk p) lba k)"
    using part_read_inside [OF assms, of lba k] by (simp add: part_device_def min_def nat_le_iff le_nat_iff)
qed

lemma le32_bytes32:
  assumes "take 4 (drop k s) = bytes32 w"
  shows "le32 s k = w"
proof -
  have l: "k + 4 \<le> length s" using arg_cong [OF assms, of length] by (simp add: bytes32_def)
  have n: "s ! (k + j) = bytes32 w ! j" if "j < 4" for j
    using arg_cong [OF assms, of "\<lambda>xs. xs ! j"] that l by simp
  have b: "s ! k = ucast w" "s ! Suc k = ucast (drop_bit 8 w)" "s ! Suc (Suc k) = ucast (drop_bit 16 w)" "s ! Suc (Suc (Suc k)) = ucast (drop_bit 24 w)"
    using n [of 0] n [of 1] n [of 2] n [of 3] by (simp_all add: bytes32_def numeral_3_eq_3 numeral_2_eq_2)
  show ?thesis
  proof (rule bit_word_eqI)
    fix m assume "m < LENGTH(32)"
    then show "bit (le32 s k) m = bit w m"
      by (cases "m < 16") (auto simp: le32_def le16_def b bit_simps)
  qed
qed

lemma slot_fields:
  assumes "length s = 512" "i < 4"
  shows "mbr_type s i = slot s i ! 4" "take 4 (drop 8 (slot s i)) = bytes32 b \<Longrightarrow> mbr_base_lba s i = b"
    "take 4 (drop 12 (slot s i)) = bytes32 c \<Longrightarrow> mbr_sector_count s i = c"
proof -
  show "mbr_type s i = slot s i ! 4" using assms by (simp add: mbr_type_def slot_def)
  have "take 4 (drop 8 (slot s i)) = take 4 (drop (446 + 16 * i + 8) s)" "take 4 (drop 12 (slot s i)) = take 4 (drop (446 + 16 * i + 12) s)"
    by (simp_all add: slot_def drop_take add.commute)
  then show "take 4 (drop 8 (slot s i)) = bytes32 b \<Longrightarrow> mbr_base_lba s i = b"
    "take 4 (drop 12 (slot s i)) = bytes32 c \<Longrightarrow> mbr_sector_count s i = c"
    by (auto simp: mbr_base_lba_def mbr_sector_count_def le32_bytes32)
qed

lemma table_sector_signature:
  assumes "table_sector s" "length s = 512"
  shows "le16 s 510 = MBR_SIGNATURE" "mbr_type s 0 \<noteq> MBR_PART_TYPE_GPT"
proof -
  have d: "drop 510 s = [0x55, 0xAA]" using assms(1) by (simp add: table_sector_def)
  have "s ! 510 = 0x55" "s ! 511 = 0xAA"
    using arg_cong [OF d, of "\<lambda>xs. xs ! 0"] arg_cong [OF d, of "\<lambda>xs. xs ! 1"] assms(2) by simp_all
  then show "le16 s 510 = MBR_SIGNATURE" by (simp add: le16_def)
  show "mbr_type s 0 \<noteq> MBR_PART_TYPE_GPT" using assms slot_fields(1) [of s 0] by (simp add: table_sector_def)
qed

lemma probe_entry:
  fixes b c :: u32
  assumes "\<And>r. CHECK_SUCCESS (create r)" "0 < c" "0 \<le> base" "base + uint b + uint c < 2 ^ 32"
  shows "part_probe create (Some (table_device dev)) (Some [(RT_LBA, of_int (base + uint b), of_int (base + uint b + uint c - 1))]) =
    (STATUS_SUCCESS, Some \<lparr>blkdev = table_device dev, part_base = base + uint b, part_limit = base + uint b + uint c - 1\<rparr>)"
proof -
  have c: "0 < uint c" using assms(2) by (simp add: word_less_def)
  have u: "uint (of_int x :: u64) = x" "sint (of_int x :: u64) = x" if "0 \<le> x" "x < 2 ^ 32" for x :: int
    using that by (simp_all add: uint_word_of_int_eq take_bit_int_eq_self sint_uint signed_take_bit_int_eq_self order_trans [of _ 0])
  show ?thesis
    using assms c u [of "base + uint b"] u [of "base + uint b + uint c - 1"] uint_ge_0 [of b]
    by (simp add: part_probe_def table_device_def word_less_def)
qed

lemma slots_Cons: "[i ..< i + length (e # es)] = i # [Suc i ..< Suc i + length es]"
  by (simp add: upt_conv_Cons del: upt_Suc)

lemma entries_registered:
  "entries_at disk n base i es \<Longrightarrow> serves dev disk n \<Longrightarrow> (\<And>r. CHECK_SUCCESS (create r)) \<Longrightarrow> 0 \<le> base \<Longrightarrow> i + length es \<le> 4 \<Longrightarrow> depth es \<le> fuel \<Longrightarrow>
   mbr_entries (register_partitions fuel create dev) create dev (disk base) base [i ..< i + length es] parts =
     Ok (STATUS_SUCCESS, parts @ partitions dev base es)"
proof (induction disk n base i es arbitrary: fuel parts rule: entries_at.induct)
  case (1 disk n base i)
  then show ?case by simp
next
  case (2 disk n base i es)
  have l: "length (disk base) = 512" using 2 by (simp add: serves_def)
  have "mbr_type (disk base) i = 0" using slot_fields(1) [OF l, of i] 2 by simp
  moreover have "mbr_entries (register_partitions fuel create dev) create dev (disk base) base [Suc i ..< Suc i + length es] parts =
      Ok (STATUS_SUCCESS, parts @ partitions dev base es)"
    by (rule "2.IH") (use "2.prems" in auto)
  ultimately show ?case unfolding slots_Cons by (simp del: upt_Suc)
next
  case (3 disk n base i t b c es)
  have l: "length (disk base) = 512" "n < 2 ^ 32" using 3 by (simp_all add: serves_def)
  have f: "mbr_type (disk base) i = t" "mbr_base_lba (disk base) i = b" "mbr_sector_count (disk base) i = c"
    using slot_fields [OF l(1), of i] 3 by (simp_all add: entry_is_def)
  have "part_probe create (Some (table_device dev)) (Some [(RT_LBA, of_int (base + uint b), of_int (base + uint b + uint c - 1))]) =
      (STATUS_SUCCESS, Some \<lparr>blkdev = table_device dev, part_base = base + uint b, part_limit = base + uint b + uint c - 1\<rparr>)"
    by (rule probe_entry) (use 3 l in auto)
  moreover have "mbr_entries (register_partitions fuel create dev) create dev (disk base) base [Suc i ..< Suc i + length es] q =
      Ok (STATUS_SUCCESS, q @ partitions dev base es)" for q
    by (rule "3.IH") (use "3.prems" in auto)
  ultimately show ?case using "3.prems"(1) f unfolding slots_Cons by (simp add: Let_def del: upt_Suc)
next
  case (4 disk n base i b ts es)
  have l: "length (disk base) = 512" using 4 by (simp add: serves_def)
  have f: "mbr_type (disk base) i = 5" "mbr_base_lba (disk base) i = b"
    using slot_fields [OF l, of i] 4 by simp_all
  obtain k where k: "fuel = Suc k" "depth ts \<le> k" using "4.prems" by (cases fuel) auto
  let ?b = "base + uint b"
  have b: "0 \<le> ?b" "?b < n" using 4 uint_ge_0 [of b] by auto
  have s: "dev_read dev ?b 1 = (STATUS_SUCCESS, disk ?b)" "length (disk ?b) = 512" using b "4.prems" by (simp_all add: serves_def)
  have "mbr_entries (register_partitions k create dev) create dev (disk ?b) ?b [0 ..< 0 + length ts] parts =
      Ok (STATUS_SUCCESS, parts @ partitions dev ?b ts)"
    by (rule "4.IH"(1)) (use 4 b k in auto)
  then have "register_partitions fuel create dev ?b parts = Ok (STATUS_SUCCESS, parts @ partitions dev ?b ts)"
    using table_sector_signature [of "disk ?b"] "4.prems"(1) s
    unfolding k(1) register_partitions.simps read_block_def s(1) Let_def prod.case by (simp del: upt_rec_numeral upt_Suc)
  moreover have "mbr_entries (register_partitions fuel create dev) create dev (disk base) base [Suc i ..< Suc i + length es] (parts @ partitions dev ?b ts) =
      Ok (STATUS_SUCCESS, (parts @ partitions dev ?b ts) @ partitions dev base es)"
    by (rule "4.IH"(2)) (use "4.prems" in auto)
  ultimately show ?case using f unfolding slots_Cons by (simp add: Let_def del: register_partitions.simps upt_Suc)
qed

lemma table_registered:
  assumes "table_at disk n base es" "serves dev disk n" "\<And>r. CHECK_SUCCESS (create r)" "depth es \<le> fuel"
  shows "register_partitions (Suc fuel) create dev base parts = Ok (STATUS_SUCCESS, parts @ partitions dev base es)"
proof -
  have s: "dev_read dev base 1 = (STATUS_SUCCESS, disk base)" "length (disk base) = 512" using assms(1,2) by (simp_all add: serves_def table_at_def)
  have "mbr_entries (register_partitions fuel create dev) create dev (disk base) base [0 ..< 0 + length es] parts =
      Ok (STATUS_SUCCESS, parts @ partitions dev base es)"
    by (rule entries_registered) (use assms in \<open>auto simp: table_at_def\<close>)
  then show ?thesis
    using table_sector_signature [of "disk base"] assms(1) s
    unfolding register_partitions.simps read_block_def s(1) Let_def prod.case by (simp add: table_at_def del: upt_rec_numeral upt_Suc)
qed

lemma partitions_inside:
  "entries_at disk n base i es \<Longrightarrow> 0 \<le> base \<Longrightarrow> p \<in> set (partitions dev base es) \<Longrightarrow>
     blkdev p = table_device dev \<and> 0 \<le> part_base p \<and> part_base p \<le> part_limit p \<and> part_limit p \<le> n"
proof (induction disk n base i es rule: entries_at.induct)
  case (3 disk n base i t b c es)
  then show ?case using uint_ge_0 [of b] by (auto simp: word_less_def)
next
  case (4 disk n base i b ts es)
  then show ?case using uint_ge_0 [of b] by auto
qed auto

text \<open>
  C24: Partitions of a disk.  When the first sector of a disk holds a table of four entries, not that of a GUID table, whose extended
  entries lead to further such tables nested to some finite depth, and every partition in them is not empty and lies on the disk,
  \<^verbatim>\<open>mbr_probe\<close> succeeds and makes exactly the partitions of the entries in use, in the order of the tables, whatever the status and the
  geometry bytes of the entries are; the sectors of a nested table's entries are counted from that table.  The device of each partition then
  serves the sectors from the first of the partition on as a disk of its own, up to but without the last, and a request that goes beyond is
  cut there; so what is shown of file systems on a disk holds of those in a partition.
\<close>

theorem mbr_partitions_serve:
  assumes "serves dev disk n" "CHECK_SUCCESS (dev_interface dev)" "table_at disk n 0 es" "depth es < fuel"
    and "\<And>r. CHECK_SUCCESS (create r)" "CHECK_SUCCESS create_table" "CHECK_SUCCESS find_part"
  shows "mbr_probe fuel create create_table find_part (Some dev) = Ok (STATUS_SUCCESS, partitions dev 0 es) \<and>
    (\<forall>p \<in> set (partitions dev 0 es).
       serves (part_device p) (sub_disk disk p) (part_limit p - part_base p) \<and>
       (\<forall>lba k. 0 \<le> lba \<and> lba \<le> part_limit p - part_base p \<longrightarrow>
          part_read p lba k = (STATUS_SUCCESS, disk_blocks (sub_disk disk p) lba (min k (nat (part_limit p - part_base p - lba))))))"
proof -
  obtain k where k: "fuel = Suc k" "depth es \<le> k" using assms(4) by (cases fuel) auto
  have "mbr_probe fuel create create_table find_part (Some dev) = Ok (STATUS_SUCCESS, partitions dev 0 es)"
    using table_registered [OF assms(3,1,5) k(2)] assms(2,6,7) by (simp add: k(1) mbr_probe_def del: register_partitions.simps)
  moreover have "serves (part_device p) (sub_disk disk p) (part_limit p - part_base p) \<and>
      (\<forall>lba k. 0 \<le> lba \<and> lba \<le> part_limit p - part_base p \<longrightarrow>
         part_read p lba k = (STATUS_SUCCESS, disk_blocks (sub_disk disk p) lba (min k (nat (part_limit p - part_base p - lba)))))"
    if p: "p \<in> set (partitions dev 0 es)" for p
  proof -
    have b: "blkdev p = table_device dev" "0 \<le> part_base p" "part_base p \<le> part_limit p" "part_limit p \<le> n"
      using partitions_inside [OF _ _ p] assms(3) by (auto simp: table_at_def)
    have "serves (blkdev p) disk n" unfolding b(1) by (rule serves_table [OF assms(1)])
    then show ?thesis using part_serves [OF _ b(2-4)] part_read_inside [OF _ b(2-4)] by blast
  qed
  ultimately show ?thesis by blast
qed

text \<open>
  The volume of eight sectors in a logical partition of a disk of sixteen: the second entry of the first sector is an extended partition
  at the sector 2, whose first entry is the volume, two sectors behind it.
\<close>

definition part_sector :: "nat \<Rightarrow> u8 list \<Rightarrow> u8 list" where
  "part_sector i e = replicate (446 + 16 * i) 0 @ e @ replicate (16 * (3 - i)) 0 @ [0x55, 0xAA]"

definition part_disk :: "int \<Rightarrow> u8 list" where
  "part_disk lba =
     (if lba = 0 then part_sector 1 ([0, 1, 2, 3, 5, 6, 7, 8] @ bytes32 2 @ bytes32 14)
      else if lba = 2 then part_sector 0 ([0x80, 1, 2, 3, 1, 6, 7, 8] @ bytes32 2 @ bytes32 9)
      else if 4 \<le> lba then example_disk (lba - 4) else replicate 512 0)"

definition part_disk_device :: block_device where
  "part_disk_device = \<lparr>dev_interface = STATUS_SUCCESS, dev_block_size = (STATUS_SUCCESS, 512),
     dev_read = (\<lambda>lba k. (STATUS_SUCCESS, disk_blocks part_disk lba k))\<rparr>"

theorem mbr_partitions_serve_witness:
  "\<exists>p. mbr_probe 2 (\<lambda>r. STATUS_SUCCESS) STATUS_SUCCESS STATUS_SUCCESS (Some part_disk_device) = Ok (STATUS_SUCCESS, [p]) \<and>
     part_read p 3 1 = (STATUS_SUCCESS, replicate 512 0x61)"
proof -
  let ?es = "[Unused, Extended 2 [Primary 1 2 9, Unused, Unused, Unused], Unused, Unused]"
  let ?p = "\<lparr>blkdev = table_device part_disk_device, part_base = 4, part_limit = 12\<rparr>"
  have e: "length (example_disk lba) = 512" for lba using example_volume_ok by (simp add: vol_ok_def serves_def)
  have s: "serves part_disk_device part_disk 16"
    using e by (simp add: serves_def part_disk_device_def part_disk_def part_sector_def bytes32_def)
  have t: "table_at part_disk 16 0 ?es" by code_simp
  have ps: "partitions part_disk_device 0 ?es = [?p]" by simp
  have d: "disk_blocks (sub_disk part_disk ?p) 3 1 = replicate 512 0x61"
    by (simp add: sub_disk_def part_disk_def example_disk_def)
  have "mbr_probe 2 (\<lambda>r. STATUS_SUCCESS) STATUS_SUCCESS STATUS_SUCCESS (Some part_disk_device) =
      Ok (STATUS_SUCCESS, partitions part_disk_device 0 ?es) \<and>
    (\<forall>p \<in> set (partitions part_disk_device 0 ?es).
       serves (part_device p) (sub_disk part_disk p) (part_limit p - part_base p) \<and>
       (\<forall>lba k. 0 \<le> lba \<and> lba \<le> part_limit p - part_base p \<longrightarrow>
          part_read p lba k = (STATUS_SUCCESS, disk_blocks (sub_disk part_disk p) lba (min k (nat (part_limit p - part_base p - lba))))))"
    by (rule mbr_partitions_serve [OF s _ t]) (simp_all add: part_disk_device_def)
  then show ?thesis using ps d by (auto simp: min_def)
qed

end
