(* ===== verification/Path.thy ===== *)
theory Path
  imports Prelude
begin

text \<open>
  Paths of the boot loader, \<^verbatim>\<open>boot/core/path.c\<close>: the iterator over the elements of a path, joining and normalisation in the caller's
  buffer, and the predicates.  A string that is only read is the list of its characters before the terminator, a pointer into it the rest
  of the list.  The buffer that is written is a list of bytes with indices for pointers; an access outside it is \<open>Fault\<close>.
\<close>

section \<open>Iterating\<close>

abbreviation (input) FILENAME_MAX :: nat where "FILENAME_MAX \<equiv> 256"

record path_iterator =
  path :: "u8 list"
  path_cursor :: "u8 list"
  element :: "u8 list"
  has_separator :: bool

text \<open>\<^verbatim>\<open>strchr\<close>: the offset of the first occurrence.\<close>

definition find_char :: "u8 \<Rightarrow> u8 list \<Rightarrow> nat option" where
  "find_char c s = (if c \<in> set s then Some (length (takeWhile (\<lambda>x. x \<noteq> c) s)) else None)"

definition path_iter_init :: "u8 list \<Rightarrow> path_iterator" where
  "path_iter_init p =
     (case find_char 58 p of
        Some n \<Rightarrow> \<lparr>path = p, path_cursor = drop (n + 1) p, element = take (if FILENAME_MAX \<le> n then FILENAME_MAX - 1 else n) p, has_separator = False\<rparr>
      | None \<Rightarrow> \<lparr>path = p, path_cursor = p, element = [], has_separator = False\<rparr>)"

text \<open>The result tells that the end has been reached.\<close>

definition path_iter_next :: "path_iterator \<Rightarrow> bool \<times> path_iterator" where
  "path_iter_next it =
     (let sep = (path_cursor it \<noteq> [] \<and> hd (path_cursor it) = 47);
          p = (if sep then tl (path_cursor it) else path_cursor it)
      in if p = [] then (True, it\<lparr>has_separator := sep, element := [], path_cursor := p\<rparr>)
         else
           let len = (case find_char 47 p of Some n \<Rightarrow> n | None \<Rightarrow> length p);
               rest = drop len p
           in (rest = [], it\<lparr>has_separator := sep, path_cursor := rest,
                element := take (if FILENAME_MAX \<le> len then FILENAME_MAX - 1 else len) p\<rparr>))"

section \<open>Joining\<close>

definition buf_get :: "int \<Rightarrow> u8 list \<Rightarrow> u8 outcome" where
  "buf_get i buf = (if 0 \<le> i \<and> nat i < length buf then Ok (buf ! nat i) else Fault)"

definition buf_put :: "int \<Rightarrow> u8 \<Rightarrow> u8 list \<Rightarrow> u8 list outcome" where
  "buf_put i c buf = (if 0 \<le> i \<and> nat i < length buf then Ok (buf[nat i := c]) else Fault)"

text \<open>
  \<^verbatim>\<open>strnlen\<close>, \<^verbatim>\<open>strchr\<close> and \<^verbatim>\<open>strcpy\<close> on the buffer.  The loop of \<^verbatim>\<open>strnlen\<close> reads a character before it
  compares the count, and stops when the count is above the limit: without a terminator the result is the limit plus one.
\<close>

definition strnlen_at :: "u8 list \<Rightarrow> nat \<Rightarrow> nat \<Rightarrow> nat outcome" where
  "strnlen_at buf off maxlen =
     (let s = drop off buf; n = min (length (takeWhile (\<lambda>c. c \<noteq> 0) s)) (maxlen + 1) in if length s \<le> n then Fault else Ok n)"

definition buf_chr :: "u8 \<Rightarrow> u8 list \<Rightarrow> int option outcome" where
  "buf_chr c buf =
     (let n = length (takeWhile (\<lambda>x. x \<noteq> c \<and> x \<noteq> 0) buf) in
      if n = length buf then Fault else Ok (if buf ! n = c then Some (int n) else None))"

definition buf_strcpy :: "int \<Rightarrow> u8 list \<Rightarrow> u8 list \<Rightarrow> u8 list outcome" where
  "buf_strcpy i s buf =
     (if 0 \<le> i \<and> nat i + length s < length buf
      then Ok (take (nat i) buf @ s @ [0] @ drop (nat i + length s + 1) buf) else Fault)"

fun join_copy :: "nat \<Rightarrow> nat \<Rightarrow> nat \<Rightarrow> u8 list \<Rightarrow> u8 list \<Rightarrow> (nat \<times> nat \<times> u8 list) outcome" where
  "join_copy slen cur len [] dest = Ok (cur, len, dest)"
| "join_copy slen cur len (c # src) dest =
     (if slen < len then obind (buf_put (int cur) c dest) (join_copy slen (cur + 1) (len - 1) src)
      else Ok (cur, len, dest))"

definition path_join :: "u8 list \<Rightarrow> nat \<Rightarrow> u8 list \<Rightarrow> u8 list outcome" where
  "path_join dest len src =
     obind (strnlen_at dest 0 len) (\<lambda>slen.
       obind (if slen < len then obind (buf_put (int slen) 47 dest) (\<lambda>dest. Ok (slen + 1, len - 1, dest)) else Ok (slen, len, dest))
         (\<lambda>(cur, len, dest). obind (join_copy slen cur len src dest) (\<lambda>(cur, len, dest).
           if slen < len then buf_put (int cur) 0 dest else Ok dest)))"

section \<open>Normalising\<close>

text \<open>\<open>(dest, w)\<close> are the buffer and the index \<^verbatim>\<open>write_pos\<close>; \<open>e\<close> is the index \<^verbatim>\<open>dest_end\<close>.\<close>

type_synonym norm_buf = "u8 list \<times> int"

definition push :: "u8 \<Rightarrow> int \<Rightarrow> norm_buf \<Rightarrow> norm_buf outcome" where
  "push c e b = (if snd b < e then obind (buf_put (snd b) c (fst b)) (\<lambda>dest. Ok (dest, snd b + 1)) else Ok b)"

definition push_dots :: "int \<Rightarrow> norm_buf \<Rightarrow> norm_buf outcome" where
  "push_dots e b =
     (if snd b + 2 < e
      then obind (buf_put (snd b) 46 (fst b)) (\<lambda>dest. obind (buf_put (snd b + 1) 46 dest) (\<lambda>dest. Ok (dest, snd b + 2)))
      else Ok b)"

function scan_back :: "u8 list \<Rightarrow> int \<Rightarrow> int \<Rightarrow> int outcome" where
  "scan_back dest lo i =
     (if lo < i then obind (buf_get i dest) (\<lambda>c. if c \<noteq> 47 then scan_back dest lo (i - 1) else Ok i) else Ok i)"
  by pat_completeness auto
termination by (relation "measure (\<lambda>(dest, lo, i). nat (i - lo))") auto

declare scan_back.simps [simp del]

text \<open>The last separator before the write position, that at the end excepted.\<close>

definition last_sep :: "int \<Rightarrow> norm_buf \<Rightarrow> int outcome" where
  "last_sep lo b = obind (buf_get (snd b - 1) (fst b)) (\<lambda>c. scan_back (fst b) lo (if c = 47 then snd b - 2 else snd b - 1))"

definition dotdot_absolute :: "bool \<Rightarrow> int \<Rightarrow> norm_buf \<Rightarrow> norm_buf outcome" where
  "dotdot_absolute has_filesystem e b =
     (if 0 < snd b then
        obind (last_sep 0 b) (\<lambda>l.
          obind (if has_filesystem then buf_chr 58 (fst b) else Ok None) (\<lambda>colon_pos.
            case colon_pos of
              Some k \<Rightarrow> if l \<le> k + 1 then push 47 e (fst b, k + 1)
                else if l \<le> 0 then push 47 e (fst b, k + 1) else Ok (fst b, l + 1)
            | None \<Rightarrow> if l \<le> 0 then (if has_filesystem then Fault else push 47 e (fst b, 0)) else Ok (fst b, l + 1)))
      else Ok b)"

definition dotdot_filesystem :: "int \<Rightarrow> norm_buf \<Rightarrow> norm_buf outcome" where
  "dotdot_filesystem e b =
     obind (buf_chr 58 (fst b)) (\<lambda>colon_pos. case colon_pos of None \<Rightarrow> Fault
       | Some k \<Rightarrow>
           if k + 1 < snd b
           then obind (last_sep (k + 1) b) (\<lambda>l. Ok (fst b, if l \<le> k + 1 then k + 1 else l + 1))
           else push_dots e b)"

definition dotdot_relative :: "int \<Rightarrow> norm_buf \<Rightarrow> norm_buf outcome" where
  "dotdot_relative e b = obind (if 0 < snd b \<and> snd b < e then push 47 e b else Ok b) (push_dots e)"

definition append_element :: "int \<Rightarrow> u8 list \<Rightarrow> norm_buf \<Rightarrow> norm_buf outcome" where
  "append_element e s b =
     obind (if 0 < snd b then obind (buf_get (snd b - 1) (fst b)) (\<lambda>c. if c \<noteq> 47 \<and> snd b < e then push 47 e b else Ok b) else Ok b) (\<lambda>b.
       if snd b + int (length s) < e
       then obind (buf_strcpy (snd b) s (fst b)) (\<lambda>dest. Ok (dest, snd b + int (length s)))
       else Ok b)"

definition normalize_element :: "bool \<Rightarrow> bool \<Rightarrow> int \<Rightarrow> u8 list \<Rightarrow> norm_buf \<Rightarrow> norm_buf outcome" where
  "normalize_element has_filesystem is_absolute e s b =
     (if s = [] then Ok b
      else if s = [46] then Ok b
      else if s = [46, 46] then
        (if is_absolute then dotdot_absolute has_filesystem e b
         else if has_filesystem then dotdot_filesystem e b
         else dotdot_relative e b)
      else append_element e s b)"

lemma path_iter_next_shorter:
  "path_iter_next it = (False, it') \<Longrightarrow> length (path_cursor it') < length (path_cursor it)"
  by (cases "path_cursor it") (auto simp: path_iter_next_def find_char_def Let_def split: if_splits)

function normalize_loop :: "bool \<Rightarrow> bool \<Rightarrow> bool \<Rightarrow> int \<Rightarrow> path_iterator \<Rightarrow> norm_buf \<Rightarrow> norm_buf outcome" where
  "normalize_loop has_filesystem is_absolute first_loop e it b =
     (let (stop, it') = path_iter_next it;
          abs = (if first_loop then has_separator it' else is_absolute)
      in obind (if first_loop \<and> has_separator it' then push 47 e b else Ok b) (\<lambda>b.
         obind (normalize_element has_filesystem abs e (element it') b) (\<lambda>b.
           if stop then Ok b else normalize_loop has_filesystem abs False e it' b)))"
  by pat_completeness auto
termination
  by (relation "measure (\<lambda>(f, a, l, e, it, b). length (path_cursor it))") (auto simp: path_iter_next_shorter)

declare normalize_loop.simps [simp del]

definition normalize_end :: "bool \<Rightarrow> int \<Rightarrow> norm_buf \<Rightarrow> u8 list outcome" where
  "normalize_end has_filesystem e b =
     obind (if \<not> has_filesystem \<and> snd b = 0 \<and> 0 < e then obind (buf_put 0 46 (fst b)) (\<lambda>dest. Ok (dest, 1)) else Ok b) (\<lambda>b.
     obind (if 1 < snd b then
              obind (buf_get (snd b - 1) (fst b)) (\<lambda>c.
                if c \<noteq> 47 then Ok b
                else if \<not> has_filesystem then Ok (fst b, snd b - 1)
                else obind (buf_chr 58 (fst b)) (\<lambda>colon_pos. case colon_pos of None \<Rightarrow> Fault
                  | Some k \<Rightarrow> Ok (fst b, if k + 2 < snd b then snd b - 1 else snd b)))
            else Ok b) (\<lambda>b.
     if snd b < e + 1 then buf_put (snd b) 0 (fst b) else buf_put e 0 (fst b)))"

definition path_normalize :: "u8 list option \<Rightarrow> nat \<Rightarrow> u8 list option \<Rightarrow> u8 list option outcome" where
  "path_normalize dest len src =
     (case (dest, src) of
        (Some dest, Some src) \<Rightarrow>
          if len = 0 then Ok None
          else
            let it = path_iter_init src; e = int len - 1; prefix = element it; has_filesystem = (prefix \<noteq> []) in
            if has_filesystem \<and> int (length prefix) + 1 \<ge> e then obind (buf_put 0 0 dest) (\<lambda>dest. Ok (Some dest))
            else
              obind (if has_filesystem
                     then obind (buf_strcpy 0 prefix dest) (\<lambda>dest. obind (buf_put (int (length prefix)) 58 dest) (\<lambda>dest. Ok (dest, int (length prefix) + 1)))
                     else Ok (dest, 0)) (\<lambda>b.
              obind (normalize_loop has_filesystem False True e it b) (\<lambda>b.
              obind (normalize_end has_filesystem e b) (\<lambda>dest. Ok (Some dest))))
      | _ \<Rightarrow> Ok None)"

section \<open>Parts of a path\<close>

text \<open>
  The loops of \<^verbatim>\<open>path_get_fsname\<close> and \<^verbatim>\<open>path_get_dirname\<close> compare pointers that they do not advance, so that the whole buffer is
  filled: \<open>mem\<close> is the memory from \<^verbatim>\<open>path\<close> on, the string and what follows it.
\<close>

fun copy_bytes :: "nat list \<Rightarrow> u8 list \<Rightarrow> u8 list \<Rightarrow> u8 list outcome" where
  "copy_bytes [] mem buf = Ok buf"
| "copy_bytes (i # js) mem buf =
     obind (buf_get (int i) mem) (\<lambda>c. obind (buf_put (int i) c buf) (copy_bytes js mem))"

definition path_get_fsname :: "u8 list \<Rightarrow> nat \<Rightarrow> u8 list \<Rightarrow> u8 list outcome" where
  "path_get_fsname buf len mem =
     obind (buf_chr 58 mem) (\<lambda>fsname_end. case fsname_end of
       None \<Rightarrow> buf_put 0 0 buf
     | Some k \<Rightarrow> if 0 < k then copy_bytes [0..<len] mem buf else Ok buf)"

definition path_get_dirname :: "u8 list \<Rightarrow> nat \<Rightarrow> u8 list \<Rightarrow> u8 list outcome" where
  "path_get_dirname buf len mem =
     (let s = takeWhile (\<lambda>x. x \<noteq> 0) mem; k = (if 47 \<in> set s then length s - length (takeWhile (\<lambda>x. x \<noteq> 47) (rev s)) - 1 else length s) in
      if length s = length mem then Fault
      else if 0 < k then copy_bytes [0..<len] mem buf else Ok buf)"

definition path_get_basename :: "u8 list \<Rightarrow> nat \<Rightarrow> u8 list \<Rightarrow> u8 list" where "path_get_basename buf len p = buf"
definition path_get_stem :: "u8 list \<Rightarrow> nat \<Rightarrow> u8 list \<Rightarrow> u8 list" where "path_get_stem buf len p = buf"
definition path_get_extension :: "u8 list \<Rightarrow> nat \<Rightarrow> u8 list \<Rightarrow> u8 list" where "path_get_extension buf len p = buf"

definition path_is_absolute :: "u8 list \<Rightarrow> bool" where
  "path_is_absolute p \<longleftrightarrow> (p \<noteq> [] \<and> hd p = 47) \<or>
     (case find_char 58 p of None \<Rightarrow> False | Some n \<Rightarrow> drop (n + 1) p = [] \<or> hd (drop (n + 1) p) = 47)"

section \<open>The reference\<close>

text \<open>A path as its elements, each after a separator; the effect of one element on the elements before it.\<close>

definition slashed :: "u8 list list \<Rightarrow> u8 list" where
  "slashed es = concat (map ((#) 47) es)"

definition reduce :: "u8 list list \<Rightarrow> u8 list \<Rightarrow> u8 list list" where
  "reduce stk e = (if e = [] \<or> e = [46] then stk else if e = [46, 46] then butlast stk else stk @ [e])"

definition element_ok :: "u8 list \<Rightarrow> bool" where
  "element_ok e \<longleftrightarrow> 47 \<notin> set e \<and> 0 \<notin> set e \<and> length e < FILENAME_MAX"

definition prefix_ok :: "u8 list \<Rightarrow> bool" where
  "prefix_ok fs \<longleftrightarrow> 58 \<notin> set fs \<and> 0 \<notin> set fs \<and> length fs < FILENAME_MAX"

definition prefix_of :: "u8 list \<Rightarrow> u8 list" where
  "prefix_of fs = (if fs = [] then [] else fs @ [58])"

text \<open>The normal form of an absolute path.\<close>

definition rendered :: "u8 list \<Rightarrow> u8 list list \<Rightarrow> u8 list" where
  "rendered fs stk = prefix_of fs @ (if stk = [] then [47] else slashed stk)"

section \<open>Lemmas\<close>

lemma slashed_simps [simp]: "slashed [] = []" "slashed (e # es) = 47 # e @ slashed es" "slashed (xs @ ys) = slashed xs @ slashed ys"
  by (simp_all add: slashed_def)

lemma takeWhile_stop: "\<forall>x \<in> set s. P x \<Longrightarrow> \<not> P c \<Longrightarrow> takeWhile P (s @ c # t) = s"
  by (induction s) auto

lemma find_char_append [simp]: "c \<notin> set s \<Longrightarrow> find_char c (s @ c # t) = Some (length s)"
  by (subst find_char_def, subst takeWhile_stop) auto

lemma find_char_none: "c \<notin> set s \<Longrightarrow> find_char c s = None"
  by (simp add: find_char_def)

lemma next_element:
  assumes "element_ok s" "path_cursor it = slashed (s # es)"
  shows "path_iter_next it = (es = [], it\<lparr>has_separator := True, path_cursor := slashed es, element := s\<rparr>)"
proof (cases es)
  case Nil
  then show ?thesis using assms by (auto simp: path_iter_next_def element_ok_def find_char_none Let_def)
next
  case (Cons e es')
  then show ?thesis using assms by (auto simp: path_iter_next_def element_ok_def Let_def)
qed

text \<open>
  The buffer while an absolute path is built: its contents up to the write position are the prefix, the elements and possibly a separator.
\<close>

definition built :: "u8 list \<Rightarrow> u8 list list \<Rightarrow> bool \<Rightarrow> u8 list" where
  "built fs stk trail = prefix_of fs @ slashed stk @ (if trail then [47] else [])"

definition holds :: "int \<Rightarrow> u8 list \<Rightarrow> u8 list list \<Rightarrow> bool \<Rightarrow> norm_buf \<Rightarrow> bool" where
  "holds e fs stk trail b \<longleftrightarrow> snd b = int (length (built fs stk trail)) \<and> take (length (built fs stk trail)) (fst b) = built fs stk trail \<and>
     e < int (length (fst b)) \<and> (stk = [] \<longrightarrow> trail) \<and> list_all (\<lambda>s. element_ok s \<and> s \<noteq> []) stk"

lemma buf_get_prefix: "take n buf = xs \<Longrightarrow> n = length xs \<Longrightarrow> 0 \<le> i \<Longrightarrow> nat i < n \<Longrightarrow> buf_get i buf = Ok (xs ! nat i)"
  by (metis buf_get_def length_take min.strict_boundedE nth_take)

lemma push_prefix:
  assumes "take n buf = xs" "n = length xs" "int n < e" "e < int (length buf)"
  shows "\<exists>buf'. push c e (buf, int n) = Ok (buf', int n + 1) \<and> take (Suc n) buf' = xs @ [c] \<and> length buf' = length buf"
  using assms by (auto simp: push_def buf_put_def take_Suc_conv_app_nth)

lemma buf_chr_prefix:
  assumes "prefix_ok fs" "take n buf = fs @ 58 # ys"
  shows "buf_chr 58 buf = Ok (Some (int (length fs)))"
proof -
  have b: "buf = fs @ 58 # (ys @ drop n buf)" using assms(2) append_take_drop_id [of n buf] by simp
  have "takeWhile (\<lambda>x. x \<noteq> 58 \<and> x \<noteq> 0) buf = fs"
    by (subst b, rule takeWhile_stop) (use assms(1) in \<open>auto simp: prefix_ok_def\<close>)
  moreover have "length fs < length buf" "buf ! length fs = 58" by (subst b, simp)+
  ultimately show ?thesis by (simp add: buf_chr_def)
qed

lemma scan_total: "0 \<le> lo \<Longrightarrow> i < int (length buf) \<Longrightarrow> \<exists>l. scan_back buf lo i = Ok l \<and> l \<le> i"
proof (induction buf lo i rule: scan_back.induct)
  case (1 buf lo i)
  show ?case
  proof (cases "lo < i")
    case True
    then have g: "buf_get i buf = Ok (buf ! nat i)" using 1(2,3) by (auto simp: buf_get_def)
    show ?thesis
    proof (cases "buf ! nat i = 47")
      case True
      then show ?thesis using g by (simp add: scan_back.simps [of buf lo i])
    next
      case False
      then obtain l where "scan_back buf lo (i - 1) = Ok l" "l \<le> i - 1" using 1(1) [OF True g False] 1(2,3) by auto
      then show ?thesis using g True False by (auto simp: scan_back.simps [of buf lo i])
    qed
  qed (simp add: scan_back.simps [of buf lo i])
qed

lemma scan_element:
  assumes "take n buf = p @ 47 # x @ t" "n = length (p @ 47 # x @ t)" "n \<le> length buf" "47 \<notin> set x" "0 \<le> lo" "lo \<le> int (length p)"
  shows "scan_back buf lo (int (length p) + int (length x)) = Ok (int (length p))"
  using assms
proof (induction x arbitrary: t rule: rev_induct)
  case Nil
  have "lo < int (length p) \<Longrightarrow> buf_get (int (length p)) buf = Ok 47" using buf_get_prefix [OF Nil(1,2), of "int (length p)"] Nil(2) by (simp add: nth_append)
  then show ?case by (simp add: scan_back.simps [of buf lo "int (length p)"])
next
  case (snoc c x)
  have "buf_get (int (length p) + int (length (x @ [c]))) buf = Ok c"
    using buf_get_prefix [OF snoc(2,3), of "int (length p) + int (length (x @ [c]))"] snoc(3) by (simp add: nth_append nat_add_distrib)
  then show ?case using snoc(1) [of "c # t"] snoc(2-) by (simp add: scan_back.simps [of buf lo "int (length p) + (1 + int (length x))"])
qed

lemma holds_last:
  assumes "holds e fs stk trail b"
  shows "0 < snd b" "snd b \<le> int (length (fst b))" "buf_get (snd b - 1) (fst b) = Ok (last (built fs stk trail))" "last (built fs stk trail) = 47 \<longleftrightarrow> trail"
proof -
  let ?x = "built fs stk trail"
  have b: "snd b = int (length ?x)" "take (length ?x) (fst b) = ?x" "stk = [] \<longrightarrow> trail" "list_all (\<lambda>s. element_ok s \<and> s \<noteq> []) stk"
    using assms by (simp_all add: holds_def)
  have ne: "?x \<noteq> []" using b(3) by (cases stk) (auto simp: built_def)
  then show p: "0 < snd b" using b(1) by simp
  show "snd b \<le> int (length (fst b))" using arg_cong [OF b(2), of length] b(1) by simp
  show "buf_get (snd b - 1) (fst b) = Ok (last ?x)"
    using buf_get_prefix [OF b(2), of "snd b - 1"] b(1) p ne by (simp add: last_conv_nth nat_diff_distrib)
  show "last ?x = 47 \<longleftrightarrow> trail"
  proof (cases trail)
    case False
    then obtain s x where "stk = s @ [x]" using b(3) by (cases stk rule: rev_cases) auto
    moreover have "last x \<in> set x" "47 \<notin> set x" using calculation b(4) by (simp_all add: element_ok_def)
    ultimately show ?thesis using False by (auto simp: built_def)
  qed (simp add: built_def)
qed

lemma push_holds:
  assumes "snd b < e" "e < int (length (fst b))" "snd b = int (length xs)" "take (length xs) (fst b) = xs"
  shows "\<exists>b'. push c e b = Ok b' \<and> snd b' = int (length (xs @ [c])) \<and> take (length (xs @ [c])) (fst b') = xs @ [c] \<and> e < int (length (fst b'))"
  using push_prefix [OF assms(4) refl, of e c] assms by (cases b) auto

lemma append_ok:
  assumes h: "holds e fs stk trail b" and s: "element_ok s" "s \<noteq> []" and e: "snd b + 1 + int (length s) < e"
  shows "\<exists>b'. append_element e s b = Ok b' \<and> holds e fs (stk @ [s]) False b' \<and> snd b' \<le> snd b + 1 + int (length s)"
proof -
  let ?x = "prefix_of fs @ slashed stk @ [47]"
  have hd: "snd b = int (length (built fs stk trail))" "take (length (built fs stk trail)) (fst b) = built fs stk trail" "e < int (length (fst b))"
      "list_all (\<lambda>s. element_ok s \<and> s \<noteq> []) stk"
    using h by (simp_all add: holds_def)
  obtain b1 where b1: "(if 0 < snd b then obind (buf_get (snd b - 1) (fst b)) (\<lambda>c. if c \<noteq> 47 \<and> snd b < e then push 47 e b else Ok b) else Ok b) = Ok b1"
      "snd b1 = int (length ?x)" "take (length ?x) (fst b1) = ?x" "e < int (length (fst b1))"
  proof (cases trail)
    case True
    then show ?thesis using that [of b] hd holds_last [OF h] by (auto simp: built_def)
  next
    case False
    then obtain b' where "push 47 e b = Ok b'" "snd b' = int (length ?x)" "take (length ?x) (fst b') = ?x" "e < int (length (fst b'))"
      using push_holds [of b e "prefix_of fs @ slashed stk" 47] hd e by (auto simp: built_def)
    then show ?thesis using that [of b'] holds_last [OF h] False e by auto
  qed
  have le: "snd b1 \<le> snd b + 1" using b1(2) hd(1) by (simp add: built_def)
  have l: "nat (snd b1) + length s < length (fst b1)" using b1(2,4) le e by linarith
  have t: "take (nat (snd b1)) (fst b1) = ?x" by (simp only: b1(2,3) nat_int)
  have "append_element e s b = Ok (take (nat (snd b1)) (fst b1) @ s @ [0] @ drop (nat (snd b1) + length s + 1) (fst b1), snd b1 + int (length s))"
    unfolding append_element_def b1(1) using l le e b1(2) by (simp add: buf_strcpy_def)
  moreover have "holds e fs (stk @ [s]) False (take (nat (snd b1)) (fst b1) @ s @ [0] @ drop (nat (snd b1) + length s + 1) (fst b1), snd b1 + int (length s))"
    unfolding t using b1(2,4) l s hd(4) by (auto simp: holds_def built_def)
  ultimately show ?thesis using le by auto
qed

lemma dotdot_ok:
  assumes h: "holds e fs stk trail b" and fs: "prefix_ok fs" and e: "snd b < e"
  shows "\<exists>b'. dotdot_absolute (fs \<noteq> []) e b = Ok b' \<and> holds e fs (butlast stk) True b' \<and> snd b' \<le> snd b"
proof -
  let ?x = "built fs stk trail" and ?i = "if last (built fs stk trail) = 47 then snd b - 2 else snd b - 1"
  have hd: "snd b = int (length ?x)" "take (length ?x) (fst b) = ?x" "e < int (length (fst b))" "stk = [] \<longrightarrow> trail" "list_all (\<lambda>s. element_ok s \<and> s \<noteq> []) stk"
    using h by (simp_all add: holds_def)
  note last = holds_last [OF h]
  have sep: "last_sep 0 b = scan_back (fst b) 0 ?i" by (simp add: last_sep_def last(3))
  have colon: "buf_chr 58 (fst b) = Ok (Some (int (length fs)))" if "fs \<noteq> []"
    using buf_chr_prefix [OF fs, of "length ?x" "fst b" "slashed stk @ (if trail then [47] else [])"] hd(2) that by (simp add: built_def prefix_of_def)
  have start: "\<exists>b'. push 47 e (fst b, int (length (prefix_of fs))) = Ok b' \<and> holds e fs [] True b' \<and> snd b' \<le> snd b"
  proof -
    have t: "take (length (prefix_of fs)) (fst b) = prefix_of fs" using arg_cong [OF hd(2), of "take (length (prefix_of fs))"] by (simp add: built_def)
    have "int (length (prefix_of fs)) < snd b" using hd(1,4) by (cases stk) (auto simp: built_def)
    then show ?thesis
      using push_holds [of "(fst b, int (length (prefix_of fs)))" e "prefix_of fs" 47] t e hd(3) by (auto simp: holds_def built_def)
  qed
  show ?thesis
  proof (cases stk rule: rev_cases)
    case Nil
    then have i: "?i = int (length (prefix_of fs)) - 1" using last(4) hd(1,4) by (simp add: built_def)
    have "?i < int (length (fst b))" using last(2) by (simp split: if_split)
    then obtain l where l: "scan_back (fst b) 0 ?i = Ok l" "l \<le> ?i" using scan_total [of 0 ?i "fst b"] by blast
    then have "dotdot_absolute (fs \<noteq> []) e b = push 47 e (fst b, int (length (prefix_of fs)))"
      using i last(1) colon by (auto simp: dotdot_absolute_def sep prefix_of_def add.commute)
    then show ?thesis using start Nil by simp
  next
    case (snoc s x)
    let ?q = "prefix_of fs @ slashed s"
    have "?i = int (length ?q) + int (length x)" using last(4) hd(1) snoc by (cases trail) (auto simp: built_def)
    moreover have x: "?x = ?q @ 47 # x @ (if trail then [47] else [])" using snoc by (simp add: built_def)
    moreover have "47 \<notin> set x" using hd(5) snoc by (simp add: element_ok_def)
    ultimately have l: "last_sep 0 b = Ok (int (length ?q))"
      using scan_element [of "length ?x" "fst b" ?q x "if trail then [47] else []" 0] hd(2) last(2) hd(1) unfolding sep by simp
    show ?thesis
    proof (cases "s = []")
      case True
      then have "dotdot_absolute (fs \<noteq> []) e b = push 47 e (fst b, int (length (prefix_of fs)))"
        using l last(1) colon by (auto simp: dotdot_absolute_def prefix_of_def add.commute)
      then show ?thesis using start snoc True by simp
    next
      case False
      then have p: "length (prefix_of fs) < length ?q" by (cases s) auto
      then have "dotdot_absolute (fs \<noteq> []) e b = Ok (fst b, int (length ?q) + 1)"
        using l last(1) colon by (auto simp: dotdot_absolute_def prefix_of_def)
      moreover have "take (Suc (length ?q)) (fst b) = ?q @ [47]" using arg_cong [OF hd(2), of "take (Suc (length ?q))"] unfolding x by simp
      then have "holds e fs s True (fst b, int (length ?q) + 1)" using hd(3,5) snoc by (simp add: holds_def built_def)
      moreover have "int (length ?q) + 1 \<le> snd b" using hd(1) unfolding x by simp
      ultimately show ?thesis using snoc by auto
    qed
  qed
qed

lemma normalize_element_ok:
  assumes "holds e fs stk trail b" "prefix_ok fs" "element_ok s" "snd b + 1 + int (length s) < e"
  shows "\<exists>b' trail'. normalize_element (fs \<noteq> []) True e s b = Ok b' \<and> holds e fs (reduce stk s) trail' b' \<and> snd b' \<le> snd b + 1 + int (length s)"
proof -
  consider "s = [] \<or> s = [46]" | "s = [46, 46]" | "s \<noteq> []" "s \<noteq> [46]" "s \<noteq> [46, 46]" by blast
  then show ?thesis
  proof cases
    case 1
    then show ?thesis using assms(1) by (intro exI [of _ b] exI [of _ trail]) (auto simp: normalize_element_def reduce_def)
  next
    case 2
    then obtain b' where "dotdot_absolute (fs \<noteq> []) e b = Ok b'" "holds e fs (butlast stk) True b'" "snd b' \<le> snd b"
      using dotdot_ok [OF assms(1,2)] assms(4) by auto
    then show ?thesis using 2 by (intro exI [of _ b'] exI [of _ True]) (simp add: normalize_element_def reduce_def)
  next
    case 3
    then show ?thesis using append_ok [OF assms(1,3) _ assms(4)] by (auto simp: normalize_element_def reduce_def)
  qed
qed

lemma normalize_loop_ok:
  assumes "holds e fs stk trail b" "prefix_ok fs" "list_all element_ok es" "es \<noteq> []" "path_cursor it = slashed es" "snd b + int (length (slashed es)) < e"
  shows "\<exists>b' trail'. normalize_loop (fs \<noteq> []) True False e it b = Ok b' \<and> holds e fs (foldl reduce stk es) trail' b' \<and> snd b' < e"
  using assms(1,3-6)
proof (induction es arbitrary: stk trail b it)
  case (Cons s es)
  obtain b1 tr where b1: "normalize_element (fs \<noteq> []) True e s b = Ok b1" "holds e fs (reduce stk s) tr b1" "snd b1 \<le> snd b + 1 + int (length s)"
    using normalize_element_ok [OF Cons.prems(1) assms(2), of s] Cons.prems(2,5) by auto
  have n: "path_iter_next it = (es = [], it\<lparr>has_separator := True, path_cursor := slashed es, element := s\<rparr>)"
    using next_element [of s it es] Cons.prems by simp
  show ?case
  proof (cases "es = []")
    case True
    then show ?thesis using b1 n Cons.prems(5) by (auto simp: normalize_loop.simps [of _ _ _ _ it])
  next
    case False
    then show ?thesis
      using Cons.IH [OF b1(2) _ False, of "it\<lparr>has_separator := True, path_cursor := slashed es, element := s\<rparr>"] b1 n Cons.prems
      by (simp add: normalize_loop.simps [of _ _ _ _ it])
  qed
qed simp

text \<open>The first round writes the separator at the root.\<close>

lemma normalize_first:
  assumes "snd b = int (length (prefix_of fs))" "take (length (prefix_of fs)) (fst b) = prefix_of fs" "e < int (length (fst b))"
    and "prefix_ok fs" "list_all element_ok es" "es \<noteq> []" "path_cursor it = slashed es" "snd b + int (length (slashed es)) + 1 < e"
  shows "\<exists>b' trail'. normalize_loop (fs \<noteq> []) False True e it b = Ok b' \<and> holds e fs (foldl reduce [] es) trail' b' \<and> snd b' < e"
proof -
  obtain b1 where b1: "push 47 e b = Ok b1" "holds e fs [] True b1" "snd b1 = snd b + 1"
    using push_holds [of b e "prefix_of fs" 47] assms(1-3,8) by (auto simp: holds_def built_def)
  obtain s es' where es: "es = s # es'" using assms(6) by (cases es) auto
  have "normalize_loop (fs \<noteq> []) False True e it b = normalize_loop (fs \<noteq> []) True False e it b1"
    using b1(1) next_element [of s it es'] assms(5,7) es by (simp add: normalize_loop.simps [of _ _ _ _ it])
  then show ?thesis using normalize_loop_ok [OF b1(2) assms(4-7)] assms(8) b1(3) by simp
qed

lemma normalize_end_ok:
  assumes h: "holds e fs stk trail b" and fs: "prefix_ok fs" and e: "snd b < e"
  shows "\<exists>dest. normalize_end (fs \<noteq> []) e b = Ok dest \<and> takeWhile (\<lambda>c. c \<noteq> 0) dest = rendered fs stk"
proof -
  let ?x = "built fs stk trail" and ?r = "rendered fs stk"
  have hd: "snd b = int (length ?x)" "take (length ?x) (fst b) = ?x" "e < int (length (fst b))" "stk = [] \<longrightarrow> trail" "list_all (\<lambda>s. element_ok s \<and> s \<noteq> []) stk"
    using h by (simp_all add: holds_def)
  note last = holds_last [OF h]
  have colon: "buf_chr 58 (fst b) = Ok (Some (int (length fs)))" if "fs \<noteq> []"
    using buf_chr_prefix [OF fs, of "length ?x" "fst b" "slashed stk @ (if trail then [47] else [])"] hd(2) that by (simp add: built_def prefix_of_def)
  have z: "0 \<notin> set ?r" using fs hd(5) by (auto simp: rendered_def prefix_of_def slashed_def prefix_ok_def element_ok_def list_all_iff)
  have le: "length ?r \<le> length ?x" "take (length ?r) (fst b) = ?r"
    using arg_cong [OF hd(2), of "take (length ?r)"] hd(4) by (auto simp: built_def rendered_def split: if_splits)
  have l: "length ?r < length (fst b)" using le(1) hd(1,3) e by linarith
  have lens: "int (length ?r) = (if trail \<and> stk \<noteq> [] then snd b - 1 else snd b)" using hd(1,4) by (auto simp: rendered_def built_def)
  have "1 < snd b" "fs \<noteq> [] \<Longrightarrow> int (length fs) + 2 < snd b" if "stk \<noteq> []" "trail"
    using that hd(1) by (cases stk; simp add: built_def prefix_of_def)+
  moreover have "snd b = (if fs = [] then 1 else int (length fs) + 2)" if "stk = []" using that hd(1,4) by (simp add: built_def prefix_of_def)
  ultimately have "normalize_end (fs \<noteq> []) e b = buf_put (int (length ?r)) 0 (fst b)"
    unfolding lens using last colon e hd(4) by (cases "stk = []"; cases trail; cases "fs = []") (auto simp: normalize_end_def)
  then have "normalize_end (fs \<noteq> []) e b = Ok ((fst b)[length ?r := 0])" using l by (simp add: buf_put_def)
  moreover have "(fst b)[length ?r := 0] = ?r @ 0 # drop (Suc (length ?r)) (fst b)" using l le(2) by (simp add: upd_conv_take_nth_drop)
  moreover have "takeWhile (\<lambda>c. c \<noteq> 0) (?r @ 0 # drop (Suc (length ?r)) (fst b)) = ?r" by (rule takeWhile_stop) (use z in auto)
  ultimately show ?thesis by simp
qed

lemma iter_init_prefix:
  assumes "prefix_ok fs" "fs \<noteq> [] \<or> list_all (\<lambda>s. 58 \<notin> set s) es"
  shows "element (path_iter_init (prefix_of fs @ slashed es)) = fs" "path_cursor (path_iter_init (prefix_of fs @ slashed es)) = slashed es"
proof -
  have "58 \<notin> set (slashed es)" if "fs = []" using assms(2) that by (auto simp: slashed_def list_all_iff)
  then have "find_char 58 (prefix_of fs @ slashed es) = (if fs = [] then None else Some (length fs))"
    using assms(1) by (auto simp: prefix_of_def prefix_ok_def find_char_none)
  then show "element (path_iter_init (prefix_of fs @ slashed es)) = fs" "path_cursor (path_iter_init (prefix_of fs @ slashed es)) = slashed es"
    using assms(1) by (auto simp: path_iter_init_def prefix_of_def prefix_ok_def)
qed

text \<open>
  C25: Normal form of paths.  For every absolute path, with or without the name of a file system in front, whose elements fit the iterator, and
  every buffer with room for three bytes more than the path, \<^verbatim>\<open>path_normalize\<close> stays inside the buffer and leaves there, terminated, the
  path whose elements are those of the reference: empty elements and \<^verbatim>\<open>.\<close> are dropped, \<^verbatim>\<open>..\<close> removes the element
  before it, at the root nothing.
\<close>

theorem path_normalize_absolute:
  assumes "prefix_ok fs" "list_all element_ok es" "es \<noteq> []" "fs \<noteq> [] \<or> list_all (\<lambda>s. 58 \<notin> set s) es"
    and "len \<le> length dest" "length (prefix_of fs @ slashed es) + 2 < len"
  shows "\<exists>dest'. path_normalize (Some dest) len (Some (prefix_of fs @ slashed es)) = Ok (Some dest') \<and>
    takeWhile (\<lambda>c. c \<noteq> 0) dest' = rendered fs (foldl reduce [] es)"
proof -
  let ?it = "path_iter_init (prefix_of fs @ slashed es)" and ?e = "int len - 1" and ?p = "prefix_of fs"
  note it = iter_init_prefix [OF assms(1,4)]
  define d where "d = ?p @ drop (length ?p) dest"
  have start: "(if fs \<noteq> [] then obind (buf_strcpy 0 fs dest) (\<lambda>dest. obind (buf_put (int (length fs)) 58 dest) (\<lambda>dest. Ok (dest, int (length fs) + 1)))
      else Ok (dest, 0)) = Ok (d, int (length ?p))"
    using assms(5,6) by (cases "fs = []") (auto simp: d_def prefix_of_def buf_strcpy_def buf_put_def list_update_append)
  have l: "length d = length dest" "take (length ?p) d = ?p" using assms(5,6) by (simp_all add: d_def)
  obtain b tr where b: "normalize_loop (fs \<noteq> []) False True ?e ?it (d, int (length ?p)) = Ok b" "holds ?e fs (foldl reduce [] es) tr b" "snd b < ?e"
    using normalize_first [of "(d, int (length ?p))" fs ?e es ?it] l assms it by auto
  obtain dest' where e: "normalize_end (fs \<noteq> []) ?e b = Ok dest'" "takeWhile (\<lambda>c. c \<noteq> 0) dest' = rendered fs (foldl reduce [] es)"
    using normalize_end_ok [OF b(2) assms(1) b(3)] by blast
  have g: "\<not> (fs \<noteq> [] \<and> ?e \<le> int (length fs) + 1)" "len \<noteq> 0" using assms(6) by (auto simp: prefix_of_def)
  have "path_normalize (Some dest) len (Some (?p @ slashed es)) = Ok (Some dest')"
    unfolding path_normalize_def by (simp only: prod.case option.case Let_def it start g b(1) e(1) if_False obind_simps)
  then show ?thesis using e(2) by blast
qed

text \<open>\<^verbatim>\<open>hd:/a/./b/../../c//\<close> in a buffer of 24 bytes.\<close>

theorem path_normalize_absolute_witness:
  "\<exists>dest'. path_normalize (Some (replicate 24 0xCC)) 24 (Some [104, 100, 58, 47, 97, 47, 46, 47, 98, 47, 46, 46, 47, 46, 46, 47, 99, 47, 47]) = Ok (Some dest') \<and>
     takeWhile (\<lambda>c. c \<noteq> 0) dest' = [104, 100, 58, 47, 99]"
proof -
  let ?es = "[[97], [46], [98], [46, 46], [46, 46], [99], [], []] :: u8 list list"
  have "prefix_ok [104, 100]" "list_all element_ok ?es" "rendered [104, 100] (foldl reduce [] ?es) = [104, 100, 58, 47, 99]"
    "prefix_of [104, 100] @ slashed ?es = [104, 100, 58, 47, 97, 47, 46, 47, 98, 47, 46, 46, 47, 46, 46, 47, 99, 47, 47]"
    by code_simp+
  then show ?thesis using path_normalize_absolute [of "[104, 100]" ?es 24 "replicate 24 0xCC"] by simp
qed

end
