(* ===== verification/Shell.thy ===== *)
theory Shell
  imports Stdlib Path
begin

text \<open>
  The command line of the boot loader: variables (\<^verbatim>\<open>boot/shell/variable.c\<close>), expansion and the division into arguments
  (\<^verbatim>\<open>boot/shell/parse.c\<close>), the execution of a line and the list of commands (\<^verbatim>\<open>boot/shell/shell.c\<close>).  The character classes and
  \<^verbatim>\<open>strtol\<close> are those of \<open>Stdlib\<close>; the files of the boot loader are the same as the kernel's.  The lines are lists of characters
  without the terminator.  What is written through a pointer with a count of the room left is the list of the bytes written.
\<close>

section \<open>Variables\<close>

text \<open>
  Key and value of each variable, in the order of the list.  \<^verbatim>\<open>strncmp\<close> compares as many
  characters as the key of the variable has, and without a limit when that is empty.
\<close>

type_synonym shell_var = "u8 list \<times> u8 list"

fun shell_get_variable :: "shell_var list \<Rightarrow> u8 list \<Rightarrow> status \<times> u8 list option" where
  "shell_get_variable [] key = (STATUS_ENTRY_NOT_FOUND, None)"
| "shell_get_variable ((k, val) # vars) key =
     (if (if k = [] then key = [] else take (length k) key = k) then (STATUS_SUCCESS, Some val) else shell_get_variable vars key)"

section \<open>Expansion\<close>

text \<open>The name of a variable, of at most \<open>n\<close> characters, and the rest of the line.\<close>

fun var_key :: "nat \<Rightarrow> u8 list \<Rightarrow> (u8 list \<times> u8 list) outcome" where
  "var_key n [] = Ok ([], [])"
| "var_key n (c # cs) =
     obind (isalnum (sint c)) (\<lambda>a.
       if (a \<noteq> 0 \<or> c = 95) \<and> 0 < n then obind (var_key (n - 1) cs) (\<lambda>(k, rest). Ok (c # k, rest)) else Ok ([], c # cs))"

lemma var_key_shorter: "var_key n s = Ok (k, rest) \<Longrightarrow> length rest \<le> length s"
proof (induction s arbitrary: n k)
  case (Cons c s)
  then show ?case by (fastforce simp: outcome_simps split: if_splits prod.splits)
qed simp

text \<open>The status, the bytes written and the room left.\<close>

function expand_loop :: "shell_var list \<Rightarrow> u8 list \<Rightarrow> u8 list \<Rightarrow> int \<Rightarrow> (status \<times> u8 list \<times> int) outcome" where
  "expand_loop vars [] buf n = Ok (STATUS_SUCCESS, buf, n)"
| "expand_loop vars (c # cs) buf n =
     (if c = 92 \<and> cs \<noteq> [] \<and> hd cs = 36 then
        (if 0 < n then expand_loop vars (tl cs) (buf @ [36]) (n - 1) else Ok (STATUS_BUFFER_TOO_SMALL, buf, n))
      else if c = 36 then
        obind (var_key 63 cs) (\<lambda>(key, rest).
          let val = (case shell_get_variable vars key of (st, Some v) \<Rightarrow> v | (st, None) \<Rightarrow> []) in
          if n < int (length val) then Ok (STATUS_BUFFER_TOO_SMALL, buf @ take (nat n) val, n - int (length (take (nat n) val)))
          else expand_loop vars rest (buf @ val) (n - int (length val)))
      else if 0 < n then expand_loop vars cs (buf @ [c]) (n - 1) else Ok (STATUS_BUFFER_TOO_SMALL, buf, n))"
  by pat_completeness auto
termination
  by (relation "measure (\<lambda>(vars, s, buf, n). length s)") (auto dest!: var_key_shorter)

declare expand_loop.simps(2) [simp del]

definition shell_expand :: "shell_var list \<Rightarrow> u8 list \<Rightarrow> int \<Rightarrow> (status \<times> u8 list) outcome" where
  "shell_expand vars line buflen =
     obind (expand_loop vars line [] buflen) (\<lambda>(st, buf, n).
       if \<not> CHECK_SUCCESS st then Ok (st, buf) else Ok (STATUS_SUCCESS, if 0 < n then buf @ [0] else buf))"

section \<open>Arguments\<close>

text \<open>The rest of the line, \<open>None\<close> for a null pointer, the bytes written and the room left.\<close>

type_synonym parsed = "u8 list option \<times> u8 list \<times> int"

definition push_char :: "u8 \<Rightarrow> u8 list \<Rightarrow> u8 list \<Rightarrow> int \<Rightarrow> parsed" where
  "push_char c line buf n = (if 0 < n then (Some line, buf @ [c], n - 1) else (None, buf, n))"

definition escapes :: "(u8 \<times> u8) list" where
  "escapes = [(97, 7), (98, 8), (101, 27), (102, 12), (110, 10), (114, 13), (116, 9), (118, 11)]"

text \<open>A number after a backslash: the character and the rest; \<^verbatim>\<open>strtol\<close> does not always store the end.\<close>

definition number_char :: "u8 list \<Rightarrow> int \<Rightarrow> u8 \<times> u8 list" where
  "number_char line base = (case strtol line base of (val, err, end) \<Rightarrow> (ucast val, case end of Some rest \<Rightarrow> rest | None \<Rightarrow> line))"

definition parse_escape :: "u8 list \<Rightarrow> u8 list \<Rightarrow> int \<Rightarrow> parsed" where
  "parse_escape line buf n =
     (case line of [] \<Rightarrow> (Some line, buf, n)
      | c # cs \<Rightarrow>
          if c = 92 \<or> c = 39 \<or> c = 34 \<or> c = 63 \<or> c = 32 \<or> c = 9 then push_char c cs buf n
          else if map_of escapes c \<noteq> None then push_char (the (map_of escapes c)) line buf n
          else if 48 \<le> c \<and> c \<le> 55 then (let (x, rest) = number_char line 8 in push_char x rest buf n)
          else if c = 120 then (let (x, rest) = number_char cs 16 in push_char x rest buf n)
          else (Some line, buf, n))"

lemma signed_digits_shorter: "signed_digits base r s = Some (v, e, rest) \<Longrightarrow> length rest \<le> length s"
  by (induction base r s rule: signed_digits.induct) (auto simp: Let_def intro: le_SucI split: if_splits option.splits)

lemma number_char_shorter: "length (snd (number_char line base)) \<le> length line"
proof -
  have k: "length (skip_spaces s) \<le> length s" for s by (induction s) auto
  have p: "length (snd (parse_prefix b s)) \<le> length s" for b s by (auto simp: parse_prefix_def split: list.split)
  have g: "length (snd (parse_sign s)) \<le> length s" for s by (auto simp: parse_sign_def split: list.split)
  have "strtol line base = (v, e, Some rest) \<Longrightarrow> length rest \<le> length line" for v e rest
    using k [of line] g [of "skip_spaces line"] p [of base "snd (parse_sign (skip_spaces line))"] signed_digits_shorter
    by (fastforce simp: strtol_def strto_signed_def Let_def split: if_splits option.splits prod.splits)
  then show ?thesis by (cases "strtol line base") (auto simp: number_char_def split: option.split)
qed

lemma parse_escape_shorter: "parse_escape line buf n = (Some rest, buf', n') \<Longrightarrow> length rest \<le> length line"
  using number_char_shorter [of line 8] number_char_shorter [of "tl line" 16]
  by (auto simp: parse_escape_def push_char_def Let_def split: list.splits if_splits prod.splits)

function parse_loop :: "u8 \<Rightarrow> u8 list \<Rightarrow> u8 list \<Rightarrow> int \<Rightarrow> parsed" where
  "parse_loop quote_char [] buf n = (Some [], buf, n)"
| "parse_loop quote_char (c # cs) buf n =
     (if c = 34 \<or> c = 39 then parse_loop (if quote_char = c then 0 else c) cs buf n
      else if c = 92 then
        (case parse_escape cs buf n of (None, buf, n) \<Rightarrow> (None, buf, n) | (Some line, buf, n) \<Rightarrow> parse_loop quote_char line buf n)
      else if (c = 32 \<or> c = 9) \<and> quote_char = 0 then (Some (c # cs), buf, n)
      else if 0 < n then parse_loop quote_char cs (buf @ [c]) (n - 1)
      else (None, buf, n))"
  by pat_completeness auto
termination
  by (relation "measure (\<lambda>(q, s, buf, n). length s)") (auto dest!: parse_escape_shorter [OF sym])

declare parse_loop.simps(2) [simp del]

definition shell_parse :: "u8 list \<Rightarrow> int \<Rightarrow> u8 list option \<times> u8 list" where
  "shell_parse line buflen =
     (let line = dropWhile (\<lambda>c. c = 32 \<or> c = 9) line in
      if line = [] then (None, [])
      else case parse_loop 0 line [] buflen of
          (None, buf, n) \<Rightarrow> (None, buf)
        | (Some rest, buf, n) \<Rightarrow> (Some rest, if 0 < n then buf @ [0] else buf))"

section \<open>Execution\<close>

text \<open>The string at an offset of a buffer; running out of the buffer is \<open>Fault\<close>.\<close>

definition string_at :: "u8 list \<Rightarrow> nat \<Rightarrow> u8 list outcome" where
  "string_at mem off = (if 0 \<in> set (drop off mem) then Ok (takeWhile (\<lambda>c. c \<noteq> 0) (drop off mem)) else Fault)"

text \<open>
  The loop over the arguments, of which \<open>k\<close> may still come: \<open>mem\<close> is \<^verbatim>\<open>elem_buf\<close>, \<open>cur\<close> and \<open>len\<close> are \<^verbatim>\<open>elem_cursor\<close> and
  \<^verbatim>\<open>elem_buf_len\<close>.  The result has the offsets of the arguments.
\<close>

fun args_loop :: "nat \<Rightarrow> u8 list \<Rightarrow> nat \<Rightarrow> u32 \<Rightarrow> u8 list \<Rightarrow> nat list \<Rightarrow> (nat list \<times> u8 list) outcome" where
  "args_loop 0 line cur len mem argv = Ok (argv, mem)"
| "args_loop (Suc k) line cur len mem argv =
     (let (rest, w) = shell_parse line (sint len) in
      if w \<noteq> [] \<and> length mem < cur + length w then Fault
      else
        let mem = take cur mem @ w @ drop (cur + length w) mem in
        case rest of None \<Rightarrow> Ok (argv, mem)
        | Some line \<Rightarrow> obind (strnlen_at mem cur (unat len)) (\<lambda>n.
            args_loop k line (cur + n + 1) (len - of_nat (n + 1)) mem (argv @ [cur])))"

fun strings :: "u8 list \<Rightarrow> nat list \<Rightarrow> u8 list list outcome" where
  "strings mem [] = Ok []"
| "strings mem (i # js) = obind (string_at mem i) (\<lambda>s. obind (strings mem js) (\<lambda>ss. Ok (s # ss)))"

text \<open>What a line does: a result of the shell itself, or the call of a handler with its arguments.\<close>

datatype 'h shell_result = Returns int | Runs 'h "u8 list list"

definition exit_word :: "u8 list" where "exit_word = [101, 120, 105, 116]"

definition shell_execute :: "shell_var list \<Rightarrow> (u8 list \<times> 'h) list \<Rightarrow> u8 list \<Rightarrow> u8 list \<Rightarrow> 'h shell_result outcome" where
  "shell_execute vars commands elem_buf line =
     obind (shell_expand vars line 4096) (\<lambda>(st, line_buf).
       if \<not> CHECK_SUCCESS st then Ok (Returns 1)
       else obind (string_at line_buf 0) (\<lambda>line.
         obind (args_loop 32 line 0 512 elem_buf []) (\<lambda>(argv, mem).
           if argv = [] then Ok (Returns 0)
           else obind (strings mem argv) (\<lambda>args.
             if hd args = exit_word then Ok (Returns (- 1))
             else case map_of commands (hd args) of
                 Some handler \<Rightarrow> Ok (Runs handler args)
               | None \<Rightarrow> Ok (Returns 1)))))"

text \<open>Commands are distinct objects; the first of the list is never taken out.\<close>

definition shell_command_register :: "'c \<Rightarrow> 'c list \<Rightarrow> 'c list" where
  "shell_command_register cmd cmds = cmds @ [cmd]"

definition shell_command_unregister :: "'c \<Rightarrow> 'c list \<Rightarrow> 'c list" where
  "shell_command_unregister cmd cmds = (case cmds of [] \<Rightarrow> [] | c # cs \<Rightarrow> c # remove1 cmd cs)"

section \<open>Quoting\<close>

text \<open>The reference: how words are written on a line, and the line after the expansion.\<close>

definition special :: "u8 \<Rightarrow> bool" where
  "special c \<longleftrightarrow> c = 92 \<or> c = 39 \<or> c = 34 \<or> c = 32 \<or> c = 9"

definition quoted :: "u8 \<Rightarrow> u8 list" where
  "quoted c = (if special c \<or> c = 36 then [92, c] else [c])"

definition expanded :: "u8 \<Rightarrow> u8 list" where
  "expanded c = (if special c then [92, c] else [c])"

definition word_as :: "(u8 \<Rightarrow> u8 list) \<Rightarrow> u8 list \<Rightarrow> u8 list" where
  "word_as q w = (if w = [] then [34, 34] else concat (map q w))"

fun line_as :: "(u8 \<Rightarrow> u8 list) \<Rightarrow> u8 list list \<Rightarrow> u8 list" where
  "line_as q [] = []"
| "line_as q [w] = word_as q w"
| "line_as q (w # ws) = word_as q w @ 32 # line_as q ws"

definition command_line :: "u8 list list \<Rightarrow> u8 list" where
  "command_line ws = line_as quoted ws"

section \<open>Lemmas\<close>

text \<open>The expansion takes the backslash from a dollar sign and leaves everything else.\<close>

definition no_dollar :: "u8 list \<Rightarrow> bool" where
  "no_dollar s \<longleftrightarrow> s = [] \<or> hd s \<noteq> 36"

lemma expand_plain: "c \<noteq> 36 \<Longrightarrow> c \<noteq> 92 \<or> no_dollar s \<Longrightarrow> 0 < n \<Longrightarrow> expand_loop vars (c # s) buf n = expand_loop vars s (buf @ [c]) (n - 1)"
  by (auto simp: expand_loop.simps(2) no_dollar_def)

lemma expand_quoted:
  assumes "no_dollar s" "int (length (quoted c)) \<le> n"
  shows "expand_loop vars (quoted c @ s) buf n = expand_loop vars s (buf @ expanded c) (n - int (length (expanded c)))"
  using assms by (auto simp: quoted_def expanded_def special_def expand_plain) (auto simp: expand_loop.simps(2) no_dollar_def special_def)

lemma no_dollar_quoted: "no_dollar (concat (map quoted w) @ s) \<longleftrightarrow> (w = [] \<longrightarrow> no_dollar s)"
  by (cases w) (auto simp: no_dollar_def quoted_def)

lemma expanded_le: "length (expanded c) \<le> length (quoted c)"
  by (simp add: expanded_def quoted_def)

lemma expand_chars:
  "no_dollar s \<Longrightarrow> int (length (concat (map quoted w))) \<le> n \<Longrightarrow>
     expand_loop vars (concat (map quoted w) @ s) buf n = expand_loop vars s (buf @ concat (map expanded w)) (n - int (length (concat (map expanded w))))"
proof (induction w arbitrary: buf n)
  case (Cons c w)
  have "expand_loop vars (concat (map quoted (c # w)) @ s) buf n = expand_loop vars (concat (map quoted w) @ s) (buf @ expanded c) (n - int (length (expanded c)))"
    using expand_quoted [of "concat (map quoted w) @ s" c n vars buf] Cons.prems by (simp add: no_dollar_quoted)
  then show ?case using Cons.IH [of "n - int (length (expanded c))" "buf @ expanded c"] Cons.prems expanded_le [of c] by (simp add: algebra_simps)
qed simp

lemma expand_word:
  "no_dollar s \<Longrightarrow> int (length (word_as quoted w)) \<le> n \<Longrightarrow>
     expand_loop vars (word_as quoted w @ s) buf n = expand_loop vars s (buf @ word_as expanded w) (n - int (length (word_as expanded w)))"
  using expand_chars [of s w n vars buf] by (auto simp: word_as_def expand_plain)

lemma word_as_le: "length (word_as expanded w) \<le> length (word_as quoted w)"
  by (auto simp: word_as_def length_concat intro!: sum_list_mono expanded_le)

lemma expand_line:
  "int (length (line_as quoted ws)) \<le> n \<Longrightarrow>
     expand_loop vars (line_as quoted ws) buf n = Ok (STATUS_SUCCESS, buf @ line_as expanded ws, n - int (length (line_as expanded ws)))"
proof (induction quoted ws arbitrary: buf n rule: line_as.induct)
  case (2 w)
  then show ?case using expand_word [of "[]" w n vars buf] by (simp add: no_dollar_def)
next
  case (3 w w' ws)
  have "expand_loop vars (line_as quoted (w # w' # ws)) buf n =
      expand_loop vars (line_as quoted (w' # ws)) (buf @ word_as expanded w @ [32]) (n - int (length (word_as expanded w)) - 1)"
    using expand_word [of "32 # line_as quoted (w' # ws)" w n vars buf] 3(2) word_as_le [of w] by (simp add: no_dollar_def expand_plain)
  then show ?case using 3(1) [of "n - int (length (word_as expanded w)) - 1"] 3(2) word_as_le [of w] by (simp add: algebra_simps)
qed simp

text \<open>Parsing an argument.\<close>

lemma parse_char:
  assumes "0 < n"
  shows "parse_loop 0 (expanded c @ s) buf n = parse_loop 0 s (buf @ [c]) (n - 1)"
  using assms by (auto simp: expanded_def special_def parse_loop.simps(2) parse_escape_def push_char_def)

lemma parse_chars: "int (length w) \<le> n \<Longrightarrow> parse_loop 0 (concat (map expanded w) @ s) buf n = parse_loop 0 s (buf @ w) (n - int (length w))"
  by (induction w arbitrary: buf n) (simp_all add: parse_char algebra_simps)

lemma parse_word: "int (length w) \<le> n \<Longrightarrow> parse_loop 0 (word_as expanded w @ s) buf n = parse_loop 0 s (buf @ w) (n - int (length w))"
  using parse_chars [of w n s buf] by (auto simp: word_as_def parse_loop.simps(2))

lemma word_as_first: "\<exists>c t. word_as expanded w @ s = c # t \<and> c \<noteq> 32 \<and> c \<noteq> 9"
  by (cases w) (auto simp: word_as_def expanded_def special_def)

definition rest_of :: "bool \<Rightarrow> u8 list list \<Rightarrow> u8 list" where
  "rest_of first ws = (if first \<or> ws = [] then line_as expanded ws else 32 # line_as expanded ws)"

lemma shell_parse_word:
  assumes "int (length w) < n"
  shows "shell_parse (rest_of first (w # ws)) n = (Some (rest_of False ws), w @ [0])"
proof -
  obtain s where s: "line_as expanded (w # ws) = word_as expanded w @ s" "s = rest_of False ws" "s = [] \<or> hd s = 32"
    by (cases ws) (auto simp: rest_of_def)
  have "parse_loop 0 s w k = (Some s, w, k)" for k using s(3) by (cases s) (simp_all add: parse_loop.simps(2))
  moreover have "dropWhile (\<lambda>c. c = 32 \<or> c = 9) (rest_of first (w # ws)) = word_as expanded w @ s" "word_as expanded w @ s \<noteq> []"
    using word_as_first [of w s] unfolding rest_of_def s(1) by auto
  ultimately show ?thesis using parse_word [of w n s "[]"] assms unfolding shell_parse_def s(2) by simp
qed

definition block :: "u8 list list \<Rightarrow> u8 list" where
  "block ws = concat (map (\<lambda>w. w @ [0]) ws)"

fun offsets :: "nat \<Rightarrow> u8 list list \<Rightarrow> nat list" where
  "offsets i [] = []"
| "offsets i (w # ws) = i # offsets (i + length w + 1) ws"

lemma takeWhile_nul: "0 \<notin> set w \<Longrightarrow> takeWhile (\<lambda>c. c \<noteq> 0) (w @ 0 # t) = w"
  by (rule takeWhile_stop) auto

lemma args_words:
  assumes "length mem = 512" "list_all (\<lambda>w. 0 \<notin> set w) ws" "length ws \<le> k" "cur + length (block ws) \<le> 512"
  shows "args_loop k (rest_of first ws) cur (of_nat (512 - cur)) mem argv =
    Ok (argv @ offsets cur ws, take cur mem @ block ws @ drop (cur + length (block ws)) mem)"
  using assms
proof (induction ws arbitrary: k cur mem argv first)
  case Nil
  then show ?case by (cases k) (simp_all add: rest_of_def block_def shell_parse_def)
next
  case (Cons w ws)
  obtain k' where k: "k = Suc k'" using Cons.prems(3) by (cases k) auto
  have b: "block (w # ws) = w @ 0 # block ws" by (simp add: block_def)
  have c: "cur + length w + 1 \<le> 512" "cur + length w + 1 + length (block ws) \<le> 512" using Cons.prems(4) unfolding b by simp_all
  let ?len = "of_nat (512 - cur) :: u32" and ?mem = "take cur mem @ (w @ [0]) @ drop (cur + length (w @ [0])) mem"
  have u: "unat ?len = 512 - cur" by (rule unat_of_nat_u32) simp
  have i: "sint ?len = int (512 - cur)" by (rule sint_of_nat_word) simp
  have p: "shell_parse (rest_of first (w # ws)) (sint ?len) = (Some (rest_of False ws), w @ [0])"
    by (rule shell_parse_word) (use i c(1) in simp)
  have m: "drop cur ?mem = w @ 0 # drop (cur + length w + 1) mem" "length ?mem = 512" using c(1) Cons.prems(1) by simp_all
  have t: "takeWhile (\<lambda>c. c \<noteq> 0) (drop cur ?mem) = w" unfolding m(1) by (rule takeWhile_nul) (use Cons.prems(2) in simp)
  have n: "strnlen_at ?mem cur (unat ?len) = Ok (length w)"
    unfolding strnlen_at_def u Let_def t unfolding m(1) using c(1) by (simp add: min_def)
  have l: "?len - of_nat (length w + 1) = of_nat (512 - (cur + length w + 1))" using c(1) by (simp add: of_nat_diff)
  have "args_loop k (rest_of first (w # ws)) cur ?len mem argv =
      args_loop k' (rest_of False ws) (cur + length w + 1) (of_nat (512 - (cur + length w + 1))) ?mem (argv @ [cur])"
    unfolding k args_loop.simps p Let_def prod.case option.case n obind_simps l using c(1) Cons.prems(1) by simp
  also have "\<dots> = Ok ((argv @ [cur]) @ offsets (cur + length w + 1) ws,
      take (cur + length w + 1) ?mem @ block ws @ drop (cur + length w + 1 + length (block ws)) ?mem)"
    by (rule Cons.IH) (use m(2) Cons.prems(2,3) k c(2) in simp_all)
  finally show ?case using c(1) Cons.prems(1) unfolding b by (simp add: ac_simps)
qed

lemma strings_block:
  "list_all (\<lambda>w. 0 \<notin> set w) ws \<Longrightarrow> strings (pre @ block ws @ post) (offsets (length pre) ws) = Ok ws"
proof (induction ws arbitrary: pre)
  case (Cons w ws)
  have "string_at (pre @ block (w # ws) @ post) (length pre) = Ok w"
    using Cons.prems by (simp add: string_at_def block_def takeWhile_nul)
  moreover have "strings (pre @ block (w # ws) @ post) (offsets (length pre + length w + 1) ws) = Ok ws"
    using Cons.IH [of "pre @ w @ [0]"] Cons.prems by (simp add: block_def)
  ultimately show ?case by simp
qed simp

lemma line_as_nul: "list_all (\<lambda>w. 0 \<notin> set w) ws \<Longrightarrow> 0 \<notin> set (line_as expanded ws)"
  by (induction expanded ws rule: line_as.induct) (auto simp: word_as_def expanded_def special_def)

lemma line_as_le: "length (line_as expanded ws) \<le> length (line_as quoted ws)"
proof (induction expanded ws rule: line_as.induct)
  case (3 w w' ws)
  then show ?case using word_as_le [of w] by simp
qed (simp_all add: word_as_le)

text \<open>
  C26: Quoting round trip of the command line.  Words of any characters but the terminator, written one after the other with a backslash in front of
  quotes, blanks, backslashes and dollar signs and a pair of quotes for the empty word, reach the handler of the command that the first names
  unchanged, in number and order, whatever the variables are: \<^verbatim>\<open>shell_execute\<close> ends without an access outside its buffers when there are at
  most 32 words, the line is shorter than 4096 characters and the words with their terminators fit 512.  For \<^verbatim>\<open>exit\<close> it returns
  -1 and for an unknown command 1.
\<close>

theorem shell_execute_words:
  assumes "ws \<noteq> []" "length ws \<le> 32" "list_all (\<lambda>w. 0 \<notin> set w) ws" "length (command_line ws) < 4096" "(\<Sum>w \<leftarrow> ws. length w + 1) \<le> 512"
    and "length elem_buf = 512"
  shows "shell_execute vars commands elem_buf (command_line ws) = Ok
    (if hd ws = exit_word then Returns (- 1)
     else case map_of commands (hd ws) of Some handler \<Rightarrow> Runs handler ws | None \<Rightarrow> Returns 1)"
proof -
  let ?l = "line_as expanded ws"
  have "int (length ?l) < 4096" using line_as_le [of ws] assms(4) by (simp add: command_line_def)
  then have "shell_expand vars (command_line ws) 4096 = Ok (STATUS_SUCCESS, ?l @ [0])"
    using expand_line [of ws 4096 vars "[]"] assms(4) by (simp add: shell_expand_def command_line_def)
  moreover have "string_at (?l @ [0]) 0 = Ok ?l" using line_as_nul [OF assms(3)] takeWhile_nul [of ?l "[]"] by (simp add: string_at_def)
  moreover have b: "length (block ws) \<le> 512" using assms(5) by (simp add: block_def length_concat comp_def)
  then have "args_loop 32 ?l 0 512 elem_buf [] = Ok (offsets 0 ws, block ws @ drop (length (block ws)) elem_buf)"
    using args_words [OF assms(6,3,2), of 0 True "[]"] by (simp add: rest_of_def)
  moreover have "strings (block ws @ drop (length (block ws)) elem_buf) (offsets 0 ws) = Ok ws"
    using strings_block [OF assms(3), of "[]" "drop (length (block ws)) elem_buf"] by simp
  moreover have "offsets 0 ws \<noteq> []" using assms(1) by (cases ws) auto
  ultimately show ?thesis by (simp add: shell_execute_def split: option.split)
qed

text \<open>The line \<^verbatim>\<open>echo a\ b "" \$\<close>.\<close>

theorem shell_execute_words_witness:
  "shell_execute [([], [120])] [([101, 99, 104, 111], True)] (replicate 512 0)
     [101, 99, 104, 111, 32, 97, 92, 32, 98, 32, 34, 34, 32, 92, 36] = Ok (Runs True [[101, 99, 104, 111], [97, 32, 98], [], [36]])"
proof -
  let ?ws = "[[101, 99, 104, 111], [97, 32, 98], [], [36]] :: u8 list list"
  have "command_line ?ws = [101, 99, 104, 111, 32, 97, 92, 32, 98, 32, 34, 34, 32, 92, 36]" "list_all (\<lambda>w. 0 \<notin> set w) ?ws" "hd ?ws \<noteq> exit_word"
    by code_simp+
  then show ?thesis
    using shell_execute_words [of ?ws "replicate 512 0" "[([], [120])]" "[([101, 99, 104, 111], True)]"] by simp
qed

end
