(* ===== verification/Spec2Isabelle.thy ===== *)
theory Spec2Isabelle
  imports PmaInit KStack Lock Fat Caltime Vsnprintf Json AnsiUtf8 AnsiSeq FatDir FatAgree Part Shell
begin

text \<open>
  \<^bold>\<open>EMOS: a verification development of the kernel and of the boot loader.\<close>

  EMOS is a small operating system for the PC in C. Its boot loader (\<^verbatim>\<open>boot/\<close>) has drivers, a terminal, file systems, a
  JSON configuration and a shell, and loads a kernel (\<^verbatim>\<open>kernel/\<close>) that manages frames and pages, schedules threads, offers
  locks, a C library and a FAT driver. The theories follow these parts: each opens with the files it translates, its records
  and datatypes are the structures of the source, and each function of the source is a definition of the same name where
  Isabelle permits (operations that share a name in C, as \<^verbatim>\<open>read\<close>, carry the name of their driver).

  \<^bold>\<open>Conventions.\<close> \<open>Prelude\<close> fixes the machine types (\<open>u8\<close> to \<open>u64\<close>, wrapping), status codes with \<open>CHECK_SUCCESS\<close>, and the type
  \<open>outcome\<close>: a run returns (\<open>Ok\<close>), accesses memory outside an object or divides by zero (\<open>Fault\<close>), stops in \<^verbatim>\<open>panic\<close> (\<open>Panic\<close>) or
  never ends (\<open>Hang\<close>). An operation maps the state to an outcome of its status, its out parameters (\<open>None\<close> where the source leaves
  them unassigned) and the new state. Allocation failures, uninitialised memory and device answers are parameters. Integers
  keep their width where the source relies on it; where they are unbounded, the theorems show that no overflow occurs or the
  text of the theory says why none can.

  \<^bold>\<open>Kernel memory.\<close> \<open>Pma\<close> and \<open>PmaInit\<close> (\<^verbatim>\<open>kernel/mm/pma.c\<close>) are the frame allocator with two bits for each frame; the locale
  \<open>frame_update\<close> carries the four loops over ranges of frames. \<open>FrameAlloc\<close> states what users of the allocator rely on as the locale
  \<open>frame_allocator\<close> and interprets it on the kernel's allocator. \<open>Vma\<close> (\<^verbatim>\<open>kernel/mm/vma.c\<close>) has two bump allocators of pages
  (locale \<open>page_arena\<close>). \<open>Page\<close> and \<open>Mm\<close> (\<^verbatim>\<open>kernel/arch/i686/include/emos/asm/page.h\<close>, \<^verbatim>\<open>kernel/mm/mm.c\<close>) map pages over a model of the
  two-level paging unit, reached through the recursive slot. The theorems: allocation, freeing and reservation change exactly the
  frames they name (a release for every argument, 32-bit sums that wrap around included); frames and pages are given out once, pages
  as long as no request wraps around; the software walk equals the paging unit; mapping and unmapping,
  allocating and freeing are inverse; failing paths leave the state as described.

  \<^bold>\<open>Threads and locks.\<close> \<open>Thread\<close> (\<^verbatim>\<open>kernel/thread\<close>) keeps thread objects in an explicit store with intrusive lists; \<open>KStack\<close>
  (\<^verbatim>\<open>kernel/arch/i686/pc/thread.c\<close>) joins it with page allocation; \<open>Lock\<close> (\<^verbatim>\<open>kernel/mutex\<close>) is a step relation over interleaved lock
  passes, with the locale \<open>lock\<close> for mutexes and spinlocks. The theorems: round robin order, termination exactly when a thread is
  runnable, fairness, removal, destruction and waking in the maintenance, mutual exclusion in every reachable state, FIFO order of waiters.

  \<^bold>\<open>C library.\<close> \<open>Stdlib\<close> (\<^verbatim>\<open>kernel/stdc/ctype\<close>, \<^verbatim>\<open>stdlib\<close>): character classes and number parsing. \<open>Printf\<close>, \<open>Vsnprintf\<close>
  (\<^verbatim>\<open>kernel/stdc/stdio/vsnprintf.c\<close>): formatted output, with its bounds and the round trip with parsing. \<open>Caltime\<close> (\<^verbatim>\<open>boot/stdc/time\<close>):
  \<^verbatim>\<open>gmtime_r\<close> and \<^verbatim>\<open>mktime\<close> against the Gregorian calendar. \<open>Wcwidth\<close> (\<^verbatim>\<open>boot/stdc/wchar\<close>): the width of characters by binary search.

  \<^bold>\<open>File systems.\<close> \<open>Fat\<close> is the kernel's driver (\<^verbatim>\<open>kernel/drivers/filesystem/fat\<close>): table entries of 12, 16 and 32 bits (locale
  \<open>fat_table\<close>, interpreted on each width, one copy and the mirrored volume), probing and mounting. \<open>BootFat\<close> is the boot loader's
  driver (\<^verbatim>\<open>boot/filesystem/fat/fat.c\<close>), which reads; \<open>FatVolume\<close> has the reference for tables, chains and clusters, \<open>FatFile\<close> shows
  that \<^verbatim>\<open>read\<close>, \<^verbatim>\<open>seek\<close> and \<^verbatim>\<open>tell\<close> implement the locale \<open>byte_file\<close>, a position in a list of bytes, and \<open>FatDir\<close> that
  opening by name follows the flat listing of the directory. \<open>FatAgree\<close> composes the two drivers: a chain that the kernel links is read at boot.
  \<open>Part\<close> (\<^verbatim>\<open>boot/device/block/part\<close>): the tables of partitions and the device of a partition, which serves a part of the disk to the driver.

  \<^bold>\<open>Boot loader.\<close> \<open>Json\<close> (\<^verbatim>\<open>boot/json/json.c\<close>): the parser, its safety for every text and the round trip with a printer. \<open>Console\<close>
  (\<^verbatim>\<open>boot/encoding/cp437.c\<close>, \<^verbatim>\<open>boot/device/video/vga.c\<close>): the console interface as a record of functions, its laws as the locale
  \<open>console\<close>, and the VGA text console as its interpretation. \<open>Ansiterm\<close> (\<^verbatim>\<open>boot/device/char/ansiterm.c\<close>): the terminal over any
  console; \<open>AnsiText\<close> shows inside the locale that text has the effect of a reference screen, \<open>AnsiUtf8\<close> that bytes of UTF-8, split among
  calls in any way, have the effect of their code points, and \<open>AnsiSeq\<close> that the state of the escape sequences keeps its type on every console
  and that the decimal arguments of a sequence are read back. \<open>Path\<close> (\<^verbatim>\<open>boot/core/path.c\<close>): iterating, joining and normalising paths in
  a buffer, with the normal form of absolute paths; \<open>Shell\<close> (\<^verbatim>\<open>boot/shell/parse.c\<close>, \<^verbatim>\<open>shell.c\<close>, \<^verbatim>\<open>variable.c\<close>): expansion,
  arguments and execution of a command line, with the round trip through quoting.

  \<^bold>\<open>Loops and fuel.\<close> Most loops are recursive functions with a termination proof. Fuel is used where the data may be cyclic: the
  scheduler's lists, the JSON parser (depth; the theorems give a bound by the length of the text), partition tables (one more round than they are nested deep) and chains of clusters in
  directories (the theorems need one more round than the chain has clusters, and one more than the listing has entries). Running out
  of fuel is \<open>Hang\<close> and the theorems conclude \<open>Ok\<close>, so that they include termination.

  \<^bold>\<open>Not modelled.\<close> Start-up code, interrupt stubs and BIOS calls, which are instructions on registers; drivers of disks, keyboard,
  serial line and PCI, whose effects are on ports; the bundled allocator and getopt, which are third-party; the frame buffer
  console, font and GUI shell, which draw; the module loader; the ISO 9660 and AFS drivers; the built-in commands of the shell. The
  manifest lists each with its reason.
\<close>

end
